(* ===== verification/Prelude.thy ===== *)
theory Prelude
  imports "HOL-Library.Word" "HOL-Library.Multiset"
begin

text \<open>
  What every component shares: the outcome type of a piece of C++ code, doubly linked
  segments of a pointer heap, and the contract of a first-in first-out queue with the
  loop that empties one.
\<close>

section \<open>Outcomes of a piece of code\<close>

text \<open>
  A C++ function returns, or it stops the program (a null or dangling pointer, an access
  outside an array, a mutex the caller already holds, an integer division by zero, an
  \<open>abort\<close>, an uncaught \<open>throw\<close>), or it never returns. The three outcomes are
  \<open>Some (Inr x)\<close>, \<open>Some (Inl e)\<close> and \<open>None\<close>.
\<close>

type_synonym u16 = "16 word"
type_synonym u32 = "32 word"
type_synonym u64 = "64 word"

datatype error =
    NullDeref
  | BadAddress
  | OutOfBounds
  | SelfDeadlock
  | DivByZero
  | Abort
  | Throw string

type_synonym 'a prog = "(error + 'a) option"

abbreviation Ret :: "'a \<Rightarrow> 'a prog" where
  "Ret x \<equiv> Some (Inr x)"

abbreviation Fail :: "error \<Rightarrow> 'a prog" where
  "Fail e \<equiv> Some (Inl e)"

definition pbind :: "'a prog \<Rightarrow> ('a \<Rightarrow> 'b prog) \<Rightarrow> 'b prog" where
  "pbind m f = Option.bind m (\<lambda>r. case r of Inl e \<Rightarrow> Fail e | Inr a \<Rightarrow> f a)"

lemma pbind_simps [simp]:
  "pbind None f = None"
  "pbind (Fail e) f = Fail e"
  "pbind (Ret a) f = f a"
  by (simp_all add: pbind_def)

lemma pbind_assoc: "pbind (pbind m f) g = pbind m (\<lambda>x. pbind (f x) g)"
  by (cases m) (auto simp: pbind_def split: sum.splits)

lemma pbind_eq_Ret_iff: "pbind m f = Ret y \<longleftrightarrow> (\<exists>x. m = Ret x \<and> f x = Ret y)"
  by (cases m) (auto simp: pbind_def split: sum.splits)

lemma pbind_eq_None_iff: "pbind m f = None \<longleftrightarrow> m = None \<or> (\<exists>x. m = Ret x \<and> f x = None)"
  by (cases m) (auto simp: pbind_def split: sum.splits)

lemma pbind_cong [fundef_cong]:
  "m = m' \<Longrightarrow> (\<And>x. m' = Ret x \<Longrightarrow> f x = g x) \<Longrightarrow> pbind m f = pbind m' g"
  by (cases m') (auto simp: pbind_def split: sum.splits)

lemma pbind_mono [partial_function_mono]:
  assumes "mono_option B" and "\<And>y. mono_option (\<lambda>f. C y f)"
  shows "mono_option (\<lambda>f. pbind (B f) (\<lambda>y. C y f))"
  unfolding pbind_def
proof (rule bind_mono [OF assms(1)])
  fix r :: "error + 'c"
  show "mono_option (\<lambda>f. case r of Inl e \<Rightarrow> Fail e | Inr y \<Rightarrow> C y f)"
    by (cases r) (simp_all add: assms(2) option.const_mono)
qed

text \<open>Reading a C array: an index at or past its length is outside it.\<close>

definition nth_at :: "'a list \<Rightarrow> nat \<Rightarrow> 'a prog" where
  "nth_at xs i = (if i < length xs then Ret (xs ! i) else Fail OutOfBounds)"

lemma nth_at_in [simp]: "i < length xs \<Longrightarrow> nth_at xs i = Ret (xs ! i)"
  by (simp add: nth_at_def)

lemma nth_at_out [simp]: "length xs \<le> i \<Longrightarrow> nth_at xs i = Fail OutOfBounds"
  by (simp add: nth_at_def)

section \<open>Doubly linked segments\<close>

text \<open>
  \<open>dseg n v f p xs l q\<close>: following \<open>n\<close> from \<open>f\<close> visits exactly \<open>xs\<close> and arrives at
  \<open>q\<close>, and following \<open>v\<close> back from \<open>l\<close> visits \<open>xs\<close> in reverse and arrives at \<open>p\<close>.
  A whole list has \<open>p = q = None\<close>, the null pointer.
\<close>

primrec dseg :: "('a \<Rightarrow> 'a option) \<Rightarrow> ('a \<Rightarrow> 'a option) \<Rightarrow> 'a option \<Rightarrow> 'a option \<Rightarrow>
    'a list \<Rightarrow> 'a option \<Rightarrow> 'a option \<Rightarrow> bool" where
  "dseg n v f p [] l q \<longleftrightarrow> f = q \<and> l = p"
| "dseg n v f p (x # xs) l q \<longleftrightarrow> f = Some x \<and> v x = p \<and> dseg n v (n x) (Some x) xs l q"

lemma dseg_append:
  "dseg n v f p (xs @ ys) l q \<longleftrightarrow> (\<exists>k m. dseg n v f p xs k m \<and> dseg n v m k ys l q)"
  by (induction xs arbitrary: f p) auto

lemma dseg_snoc:
  "dseg n v f p (xs @ [x]) l q \<longleftrightarrow> l = Some x \<and> n x = q \<and> dseg n v f p xs (v x) (Some x)"
  by (auto simp: dseg_append)

lemma dseg_cong:
  assumes "\<And>x. x \<in> set xs \<Longrightarrow> n' x = n x" and "\<And>x. x \<in> set xs \<Longrightarrow> v' x = v x"
  shows "dseg n' v' f p xs l q \<longleftrightarrow> dseg n v f p xs l q"
  using assms by (induction xs arbitrary: f p) auto

lemma dseg_upd_other [simp]:
  "a \<notin> set xs \<Longrightarrow> dseg (n(a := y)) v f p xs l q \<longleftrightarrow> dseg n v f p xs l q"
  "a \<notin> set xs \<Longrightarrow> dseg n (v(a := y)) f p xs l q \<longleftrightarrow> dseg n v f p xs l q"
  by (rule dseg_cong; auto)+

lemma dseg_first: "dseg n v f p xs l q \<Longrightarrow> xs \<noteq> [] \<Longrightarrow> f = Some (hd xs)"
  by (cases xs) auto

lemma dseg_last: "dseg n v f p xs l q \<Longrightarrow> xs \<noteq> [] \<Longrightarrow> l = Some (last xs)"
  by (cases xs rule: rev_cases) (auto simp: dseg_snoc)

lemma dseg_empty_iff:
  assumes "dseg n v f None xs l None"
  shows "f = None \<longleftrightarrow> xs = []" and "l = None \<longleftrightarrow> xs = []"
  using assms dseg_first [OF assms] dseg_last [OF assms] by (cases "xs = []"; auto)+

text \<open>The segment before an inner node, with its two ends.\<close>

lemma dseg_split_mid:
  assumes "dseg n v f p (xs @ x # ys) l q"
  shows "dseg n v f p xs (v x) (Some x)" and "dseg n v (n x) (Some x) ys l q"
  using assms by (auto simp: dseg_append)

text \<open>Redirecting the two ends of a segment: the next of the last, the prev of the first.\<close>

lemma dseg_redirect_last:
  assumes "dseg n v f p (xs @ [x]) l q" and "distinct (xs @ [x])"
  shows "dseg (n(x := q')) v f p (xs @ [x]) l q'"
  using assms by (auto simp: dseg_snoc)

lemma dseg_redirect_first:
  assumes "dseg n v f p (x # xs) l q" and "distinct (x # xs)"
  shows "dseg n (v(x := p')) f p' (x # xs) l q"
  using assms by auto

lemma dseg_unique:
  "dseg n v f p xs l None \<Longrightarrow> dseg n v f p ys l' None \<Longrightarrow> xs = ys"
proof (induction xs arbitrary: f p ys)
  case Nil
  then show ?case by (cases ys) auto
next
  case (Cons x xs)
  then show ?case by (cases ys) auto
qed

section \<open>First-in first-out queues\<close>

text \<open>
  The loop \<open>while ((t = pop()) != nullptr) body(t)\<close>, which the program writes four times
  (moving a timer bucket, delivering timed-out tasks, waking the waiters of a condition,
  deleting a list). It may never return: a body that keeps pushing feeds it for ever.
\<close>

partial_function (option) drain ::
    "('s \<Rightarrow> ('a option \<times> 's) prog) \<Rightarrow> ('a \<Rightarrow> 's \<Rightarrow> 's prog) \<Rightarrow> 's \<Rightarrow> 's prog" where
  "drain pop body s =
     pbind (pop s) (\<lambda>r. case fst r of
         None \<Rightarrow> Ret (snd r)
       | Some a \<Rightarrow> pbind (body a (snd r)) (drain pop body))"

fun push_list :: "('a \<Rightarrow> 's \<Rightarrow> 's prog) \<Rightarrow> 'a list \<Rightarrow> 's \<Rightarrow> 's prog" where
  "push_list push [] s = Ret s"
| "push_list push (x # xs) s = pbind (push x s) (push_list push xs)"

lemma push_list_append:
  "push_list push (xs @ ys) s = pbind (push_list push xs s) (push_list push ys)"
  by (induction xs arbitrary: s) (auto simp: pbind_assoc intro: pbind_cong)

fun pop_times :: "('s \<Rightarrow> ('a option \<times> 's) prog) \<Rightarrow> nat \<Rightarrow> 's \<Rightarrow> ('a option list \<times> 's) prog" where
  "pop_times pop 0 s = Ret ([], s)"
| "pop_times pop (Suc n) s =
     pbind (pop s) (\<lambda>(x, s). pbind (pop_times pop n s) (\<lambda>(xs, s). Ret (x # xs, s)))"

text \<open>
  The contract: \<open>rel s xs\<close> says that the queue stands for \<open>xs\<close> in the state \<open>s\<close>. Taking
  from the front and noticing emptiness is all a drain loop needs; \<open>fifo\<close> adds putting
  at the back.
\<close>

locale fifo_source =
  fixes rel :: "'s \<Rightarrow> 'a list \<Rightarrow> bool"
    and pop :: "'s \<Rightarrow> ('a option \<times> 's) prog"
  assumes pop_Nil: "rel s [] \<Longrightarrow> \<exists>s'. pop s = Ret (None, s') \<and> rel s' []"
    and pop_Cons: "rel s (x # xs) \<Longrightarrow> \<exists>s'. pop s = Ret (Some x, s') \<and> rel s' xs"
begin

lemma pop_returns: "rel s xs \<Longrightarrow> \<exists>r. pop s = Ret r"
  by (cases xs) (auto dest: pop_Nil pop_Cons)

lemma pop_times_rel:
  "rel s (xs @ ys) \<Longrightarrow>
   \<exists>s'. pop_times pop (length xs) s = Ret (map Some xs, s') \<and> rel s' ys"
proof (induction xs arbitrary: s)
  case Nil
  then show ?case by simp
next
  case (Cons x xs)
  obtain s1 where s1: "pop s = Ret (Some x, s1)" "rel s1 (xs @ ys)"
    using pop_Cons [of s x "xs @ ys"] Cons.prems by auto
  with Cons.IH [OF s1(2)] show ?case by auto
qed

text \<open>
  Total correctness of the drain loop: it runs the body once per element, in queue order, and
  returns, when popping an element and running the body on it keeps \<open>J\<close>, which is told what
  has been taken so far, and leaves the rest of the queue in place.
\<close>

lemma drain_rule:
  assumes "rel s zs" and "J ys s" and "xs = ys @ zs"
    and step: "\<And>ys x zs s s1. xs = ys @ x # zs \<Longrightarrow> rel s (x # zs) \<Longrightarrow> J ys s \<Longrightarrow>
      pop s = Ret (Some x, s1) \<Longrightarrow> \<exists>s'. body x s1 = Ret s' \<and> rel s' zs \<and> J (ys @ [x]) s'"
    and stop: "\<And>s s1. rel s [] \<Longrightarrow> J xs s \<Longrightarrow> pop s = Ret (None, s1) \<Longrightarrow> J xs s1"
  shows "\<exists>s'. drain pop body s = Ret s' \<and> rel s' [] \<and> J xs s'"
  using assms(1-3)
proof (induction zs arbitrary: s ys)
  case Nil
  then obtain s' where s': "pop s = Ret (None, s')" "rel s' []"
    using pop_Nil by blast
  from Nil.prems have "J xs s'" by (intro stop [OF _ _ s'(1)]) simp_all
  with s' show ?case by (simp add: drain.simps)
next
  case (Cons x zs)
  obtain s1 where s1: "pop s = Ret (Some x, s1)"
    using pop_Cons [OF Cons.prems(1)] by blast
  then obtain s2 where s2: "body x s1 = Ret s2" "rel s2 zs" "J (ys @ [x]) s2"
    using step [OF Cons.prems(3,1,2)] by blast
  have "\<exists>s'. drain pop body s2 = Ret s' \<and> rel s' [] \<and> J xs s'"
    by (rule Cons.IH [OF s2(2,3)]) (simp add: Cons.prems(3))
  with s1 s2 show ?case by (simp add: drain.simps)
qed

end

locale fifo = fifo_source rel pop
  for rel :: "'s \<Rightarrow> 'a list \<Rightarrow> bool" and pop :: "'s \<Rightarrow> ('a option \<times> 's) prog" +
  fixes can_push :: "'a \<Rightarrow> 's \<Rightarrow> bool"
    and push :: "'a \<Rightarrow> 's \<Rightarrow> 's prog"
    and room :: nat
  assumes push_snoc: "rel s xs \<Longrightarrow> can_push x s \<Longrightarrow> length xs < room \<Longrightarrow>
      \<exists>s'. push x s = Ret s' \<and> rel s' (xs @ [x])"
    and push_keeps: "rel s xs \<Longrightarrow> can_push x s \<Longrightarrow> length xs < room \<Longrightarrow> can_push y s \<Longrightarrow>
      x \<noteq> y \<Longrightarrow> push x s = Ret s' \<Longrightarrow> can_push y s'"
begin

lemma push_list_rel:
  "rel s xs \<Longrightarrow> distinct ys \<Longrightarrow> (\<And>y. y \<in> set ys \<Longrightarrow> can_push y s) \<Longrightarrow>
   length xs + length ys \<le> room \<Longrightarrow>
   \<exists>s'. push_list push ys s = Ret s' \<and> rel s' (xs @ ys)"
proof (induction ys arbitrary: s xs)
  case Nil
  then show ?case by simp
next
  case (Cons y ys)
  from Cons.prems have y: "can_push y s" "length xs < room" by simp_all
  with Cons.prems(1) obtain s1 where s1: "push y s = Ret s1" "rel s1 (xs @ [y])"
    using push_snoc by blast
  have "\<And>z. z \<in> set ys \<Longrightarrow> can_push z s1"
    using Cons.prems(2,3) push_keeps [OF Cons.prems(1) y _ _ s1(1)] by auto
  then have "\<exists>s'. push_list push ys s1 = Ret s' \<and> rel s' ((xs @ [y]) @ ys)"
    using Cons.IH [OF s1(2)] Cons.prems(2,4) by simp
  with s1 show ?case by simp
qed

text \<open>First in, first out: what is pushed on an empty queue comes out in the same order.\<close>

lemma push_list_pop_times:
  assumes "rel s []" and "distinct ys" and "\<And>y. y \<in> set ys \<Longrightarrow> can_push y s"
    and "length ys \<le> room"
  shows "\<exists>s'. pbind (push_list push ys s) (pop_times pop (length ys)) = Ret (map Some ys, s') \<and>
    rel s' []"
proof -
  obtain s1 where s1: "push_list push ys s = Ret s1" "rel s1 ys"
    using push_list_rel [OF assms(1-3)] assms(4) by auto
  with pop_times_rel [of s1 ys "[]"] show ?thesis by auto
qed

end

text \<open>
  The contract of whoever takes pieces of work and passes them on: \<open>dealt xs s q s' q'\<close> says
  what has become of the work \<open>xs\<close> between two states with their views \<open>q\<close> and \<open>q'\<close>.
\<close>

locale dealer =
  fixes ok :: "'s \<Rightarrow> 'q \<Rightarrow> bool" and ready :: "'s \<Rightarrow> 'a \<Rightarrow> bool"
    and commit :: "'a \<Rightarrow> 's \<Rightarrow> 's prog"
    and dealt :: "'a list \<Rightarrow> 's \<Rightarrow> 'q \<Rightarrow> 's \<Rightarrow> 'q \<Rightarrow> bool"
  assumes dealt_ok: "dealt xs s q s' q' \<Longrightarrow> ok s' q'"
    and dealt_Nil: "ok s q \<Longrightarrow> dealt [] s q s q"
    and dealt_trans: "ok s q \<Longrightarrow> dealt xs s q s1 q1 \<Longrightarrow> dealt ys s1 q1 s2 q2 \<Longrightarrow> dealt (xs @ ys) s q s2 q2"
    and commit: "ok s q \<Longrightarrow> ready s x \<Longrightarrow> \<exists>s' q'. commit x s = Ret s' \<and> dealt [x] s q s' q' \<and>
      (\<forall>y. ready s y \<longrightarrow> y \<noteq> x \<longrightarrow> ready s' y)"
begin

text \<open>Distinct work that is ready can be committed piece by piece, in any order.\<close>

lemma commit_list:
  "ok s q \<Longrightarrow> distinct xs \<Longrightarrow> \<forall>x \<in> set xs. ready s x \<Longrightarrow>
   \<exists>s' q'. push_list commit xs s = Ret s' \<and> dealt xs s q s' q'"
proof (induction xs arbitrary: s q)
  case Nil
  then show ?case using dealt_Nil by auto
next
  case (Cons x xs)
  obtain s1 q1 where s1: "commit x s = Ret s1" "dealt [x] s q s1 q1" "\<And>y. ready s y \<Longrightarrow> y \<noteq> x \<Longrightarrow> ready s1 y"
    using commit [OF Cons.prems(1), of x] Cons.prems(3) by auto
  have "\<forall>y \<in> set xs. ready s1 y" using Cons.prems(2,3) s1(3) by auto
  then obtain s2 q2 where "push_list commit xs s1 = Ret s2" "dealt xs s1 q1 s2 q2"
    using Cons.IH [OF dealt_ok [OF s1(2)]] Cons.prems(2) by auto
  with s1(1) dealt_trans [OF Cons.prems(1) s1(2)] show ?case by fastforce
qed

end

section \<open>Collections of facts\<close>

named_theorems code_defs \<open>definitions of straight-line code, unfolded to run it\<close>

end
