(* ===== verification/Task_Items.thy ===== *)
theory Task_Items
  imports Prelude
begin

text \<open>
  \<open>b_task.hh\<close> and \<open>b_task.cc\<close>: task items and the intrusive, doubly linked, two-mutex lists
  they hang in. The heap maps addresses to items and to lists; a null pointer is
  \<open>None\<close>. The invariant \<open>links_ok h Q\<close> says which sequence of items each list of the heap
  stands for, and every operation is shown to act on that sequence.
\<close>

section \<open>The heap of task items and task lists\<close>

type_synonym addr = nat
type_synonym laddr = nat
type_synonym rid = nat

text \<open>The functions whose addresses the program stores in a task item.\<close>

datatype funptr = pollPerpare_ptr | pollCallback_ptr | pollTimeout_ptr | CondTimeOutCallback_ptr

record TaskItem =
  ti_prev :: "addr option"
  ti_next :: "addr option"
  ti_owner :: "laddr option"
  perpareFuncPtr :: "funptr option"
  perpareFuncArgs :: "nat option"
  callbackFuncPtr :: "funptr option"
  callbackFunArgs :: "nat option"
  timeoutCallFunc :: "funptr option"
  timeoutCallFuncArgs :: "nat option"
  ti_self :: "rid option"
  bEpollEvent_events :: u32
  bEpollEvent_ptr :: "addr option"
  epollFd :: int
  IsTasktimeout :: bool

text \<open>A mutex is \<open>True\<close> while it is held.\<close>

record TaskItemsList =
  HeadMutex :: bool
  TailMutex :: bool
  tl_head :: "addr option"
  tl_tail :: "addr option"
  ItemCount :: u32

text \<open>
  \<open>calloc\<close> hands out a fresh address: \<open>item_brk\<close> and \<open>list_brk\<close> are past every address in
  use, and an address is not used again after \<open>free\<close>, so a dangling pointer stays one.
\<close>

record tmem =
  items :: "addr \<Rightarrow> TaskItem option"
  lists :: "laddr \<Rightarrow> TaskItemsList option"
  item_brk :: addr
  list_brk :: laddr

subsection \<open>Loads and stores\<close>

definition item_at :: "addr option \<Rightarrow> 'z tmem_scheme \<Rightarrow> TaskItem prog" where
  "item_at p h = (case p of None \<Rightarrow> Fail NullDeref
     | Some a \<Rightarrow> (case items h a of None \<Rightarrow> Fail BadAddress | Some t \<Rightarrow> Ret t))"

definition upd_item ::
    "addr option \<Rightarrow> (TaskItem \<Rightarrow> TaskItem) \<Rightarrow> 'z tmem_scheme \<Rightarrow> 'z tmem_scheme prog" where
  "upd_item p f h = (case p of None \<Rightarrow> Fail NullDeref
     | Some a \<Rightarrow> (case items h a of None \<Rightarrow> Fail BadAddress
        | Some t \<Rightarrow> Ret (h\<lparr>items := (items h)(a \<mapsto> f t)\<rparr>)))"

definition list_at :: "laddr \<Rightarrow> 'z tmem_scheme \<Rightarrow> TaskItemsList prog" where
  "list_at l h = (case lists h l of None \<Rightarrow> Fail BadAddress | Some q \<Rightarrow> Ret q)"

definition upd_list ::
    "laddr \<Rightarrow> (TaskItemsList \<Rightarrow> TaskItemsList) \<Rightarrow> 'z tmem_scheme \<Rightarrow> 'z tmem_scheme prog" where
  "upd_list l f h = (case lists h l of None \<Rightarrow> Fail BadAddress
     | Some q \<Rightarrow> Ret (h\<lparr>lists := (lists h)(l \<mapsto> f q)\<rparr>))"

lemma item_at_simps [simp]:
  "item_at None h = Fail NullDeref"
  "items h a = Some t \<Longrightarrow> item_at (Some a) h = Ret t"
  "items h a = None \<Longrightarrow> item_at (Some a) h = Fail BadAddress"
  by (simp_all add: item_at_def)

lemma upd_item_simps [simp]:
  "upd_item None f h = Fail NullDeref"
  "items h a = Some t \<Longrightarrow> upd_item (Some a) f h = Ret (h\<lparr>items := (items h)(a \<mapsto> f t)\<rparr>)"
  "items h a = None \<Longrightarrow> upd_item (Some a) f h = Fail BadAddress"
  by (simp_all add: upd_item_def)

lemma list_at_simps [simp]:
  "lists h l = Some q \<Longrightarrow> list_at l h = Ret q"
  "lists h l = None \<Longrightarrow> list_at l h = Fail BadAddress"
  by (simp_all add: list_at_def)

lemma upd_list_simps [simp]:
  "lists h l = Some q \<Longrightarrow> upd_list l f h = Ret (h\<lparr>lists := (lists h)(l \<mapsto> f q)\<rparr>)"
  "lists h l = None \<Longrightarrow> upd_list l f h = Fail BadAddress"
  by (simp_all add: upd_list_def)

subsection \<open>Mutexes\<close>

text \<open>
  The operations run without interruption here, so a mutex found held is held by the caller,
  and \<open>pthread_mutex_lock\<close> on it never returns.
\<close>

definition lock_head :: "laddr \<Rightarrow> 'z tmem_scheme \<Rightarrow> 'z tmem_scheme prog" where
  "lock_head l h = pbind (list_at l h) (\<lambda>q. if HeadMutex q then Fail SelfDeadlock
     else upd_list l (\<lambda>q. q\<lparr>HeadMutex := True\<rparr>) h)"

definition lock_tail :: "laddr \<Rightarrow> 'z tmem_scheme \<Rightarrow> 'z tmem_scheme prog" where
  "lock_tail l h = pbind (list_at l h) (\<lambda>q. if TailMutex q then Fail SelfDeadlock
     else upd_list l (\<lambda>q. q\<lparr>TailMutex := True\<rparr>) h)"

definition unlock_head :: "laddr \<Rightarrow> 'z tmem_scheme \<Rightarrow> 'z tmem_scheme prog" where
  "unlock_head l h = upd_list l (\<lambda>q. q\<lparr>HeadMutex := False\<rparr>) h"

definition unlock_tail :: "laddr \<Rightarrow> 'z tmem_scheme \<Rightarrow> 'z tmem_scheme prog" where
  "unlock_tail l h = upd_list l (\<lambda>q. q\<lparr>TailMutex := False\<rparr>) h"

section \<open>The operations of the code\<close>

definition TaskItem_zero :: TaskItem where
  "TaskItem_zero = \<lparr>ti_prev = None, ti_next = None, ti_owner = None,
     perpareFuncPtr = None, perpareFuncArgs = None, callbackFuncPtr = None,
     callbackFunArgs = None, timeoutCallFunc = None, timeoutCallFuncArgs = None,
     ti_self = None, bEpollEvent_events = 0, bEpollEvent_ptr = None, epollFd = 0,
     IsTasktimeout = False\<rparr>"

definition TaskItem_New :: "'z tmem_scheme \<Rightarrow> addr \<times> 'z tmem_scheme" where
  "TaskItem_New h =
     (item_brk h, h\<lparr>items := (items h)(item_brk h \<mapsto> TaskItem_zero), item_brk := item_brk h + 1\<rparr>)"

definition TaskItem_Delete :: "addr option \<Rightarrow> 'z tmem_scheme \<Rightarrow> 'z tmem_scheme prog" where
  "TaskItem_Delete i h = (case i of None \<Rightarrow> Ret h
     | Some a \<Rightarrow> (case items h a of None \<Rightarrow> Fail BadAddress
        | Some t \<Rightarrow> Ret (h\<lparr>items := (items h)(a := None)\<rparr>)))"

definition TaskItemsList_New :: "'z tmem_scheme \<Rightarrow> laddr \<times> 'z tmem_scheme" where
  "TaskItemsList_New h =
     (list_brk h, h\<lparr>lists := (lists h)(list_brk h \<mapsto>
         \<lparr>HeadMutex = False, TailMutex = False, tl_head = None, tl_tail = None, ItemCount = 0\<rparr>),
       list_brk := list_brk h + 1\<rparr>)"

text \<open>
  \<open>RemoveSelfFromOwnerlink\<close>: the branches and the stores in the order of the code, and the
  links it leaves alone in each branch.
\<close>

definition RemoveSelfFromOwnerlink ::
    "addr option \<Rightarrow> 'z tmem_scheme \<Rightarrow> (addr option \<times> 'z tmem_scheme) prog" where
  "RemoveSelfFromOwnerlink i h = (case i of None \<Rightarrow> Ret (None, h) | Some a \<Rightarrow>
     pbind (item_at i h) (\<lambda>t.
     case ti_owner t of None \<Rightarrow> Ret (None, h) | Some l \<Rightarrow>
     pbind (list_at l h) (\<lambda>q.
     if tl_head q = i then
       pbind (if tl_tail q = i then
                upd_list l (\<lambda>q. q\<lparr>tl_head := None, tl_tail := None\<rparr>) h
              else
                pbind (upd_item (ti_next t) (\<lambda>n. n\<lparr>ti_prev := None\<rparr>) h) (\<lambda>h.
                upd_list l (\<lambda>q. q\<lparr>tl_head := ti_next t\<rparr>) h)) (\<lambda>h.
       pbind (upd_item i (\<lambda>t. t\<lparr>ti_next := None\<rparr>) h) (\<lambda>h.
       pbind (upd_item i (\<lambda>t. t\<lparr>ti_owner := None\<rparr>) h) (\<lambda>h.
       Ret (i, h))))
     else if tl_tail q = i then
       pbind (upd_list l (\<lambda>q. q\<lparr>tl_tail := ti_prev t\<rparr>) h) (\<lambda>h.
       pbind (upd_item (ti_prev t) (\<lambda>p. p\<lparr>ti_next := None\<rparr>) h) (\<lambda>h.
       pbind (upd_item i (\<lambda>t. t\<lparr>ti_prev := None\<rparr>) h) (\<lambda>h.
       pbind (upd_item i (\<lambda>t. t\<lparr>ti_owner := None\<rparr>) h) (\<lambda>h.
       Ret (i, h)))))
     else
       pbind (upd_item i (\<lambda>t. t\<lparr>ti_owner := None\<rparr>) h) (\<lambda>h.
       pbind (upd_item (ti_prev t) (\<lambda>p. p\<lparr>ti_next := ti_next t\<rparr>) h) (\<lambda>h.
       pbind (upd_item (ti_next t) (\<lambda>n. n\<lparr>ti_prev := ti_prev t\<rparr>) h) (\<lambda>h.
       pbind (upd_item i (\<lambda>t. t\<lparr>ti_next := None\<rparr>) h) (\<lambda>h.
       pbind (upd_item i (\<lambda>t. t\<lparr>ti_prev := None\<rparr>) h) (\<lambda>h.
       Ret (i, h))))))))) "

text \<open>
  \<open>RemoveSelfFromOwnerlink_Save\<close>: \<open>LockGuard(i->owner->HeadMutex);\<close> builds a temporary, so
  each mutex is taken and given back before the removal.
\<close>

definition RemoveSelfFromOwnerlink_Save ::
    "addr option \<Rightarrow> 'z tmem_scheme \<Rightarrow> (addr option \<times> 'z tmem_scheme) prog" where
  "RemoveSelfFromOwnerlink_Save i h =
     pbind (item_at i h) (\<lambda>t.
     case ti_owner t of None \<Rightarrow> Fail NullDeref | Some l \<Rightarrow>
     pbind (lock_head l h) (\<lambda>h.
     pbind (unlock_head l h) (\<lambda>h.
     pbind (lock_tail l h) (\<lambda>h.
     pbind (unlock_tail l h) (\<lambda>h.
     RemoveSelfFromOwnerlink i h)))))"

definition pushBackUnsafe ::
    "laddr \<Rightarrow> addr option \<Rightarrow> 'z tmem_scheme \<Rightarrow> 'z tmem_scheme prog" where
  "pushBackUnsafe l i h = (case i of None \<Rightarrow> Ret h | Some a \<Rightarrow>
     pbind (upd_list l (\<lambda>q. q\<lparr>ItemCount := ItemCount q + 1\<rparr>) h) (\<lambda>h.
     pbind (list_at l h) (\<lambda>q.
     pbind (if tl_head q = None \<and> tl_tail q = None then
              upd_list l (\<lambda>q. q\<lparr>tl_head := i, tl_tail := i\<rparr>) h
            else
              pbind (upd_item (tl_tail q) (\<lambda>t. t\<lparr>ti_next := i\<rparr>) h) (\<lambda>h.
              pbind (upd_item i (\<lambda>t. t\<lparr>ti_prev := tl_tail q\<rparr>) h) (\<lambda>h.
              pbind (upd_list l (\<lambda>q. q\<lparr>tl_tail := i\<rparr>) h) (\<lambda>h.
              upd_item i (\<lambda>t. t\<lparr>ti_next := None\<rparr>) h)))) (\<lambda>h.
     upd_item i (\<lambda>t. t\<lparr>ti_owner := Some l\<rparr>) h))))"

definition popHeadUnsafe ::
    "laddr \<Rightarrow> 'z tmem_scheme \<Rightarrow> (addr option \<times> 'z tmem_scheme) prog" where
  "popHeadUnsafe l h =
     pbind (list_at l h) (\<lambda>q.
     if ItemCount q = 0 \<or> tl_tail q = None \<or> tl_head q = None then Ret (None, h)
     else
       pbind (upd_list l (\<lambda>q. q\<lparr>ItemCount := ItemCount q - 1\<rparr>) h) (\<lambda>h.
       RemoveSelfFromOwnerlink (tl_head q) h))"

text \<open>
  \<open>pushBack\<close>: short lists are locked at both ends. The loop is the \<open>goto retry\<close>, taken when
  the list got shorter while the tail mutex was waited for.
\<close>

partial_function (option) pushBack_retry ::
    "laddr \<Rightarrow> addr option \<Rightarrow> bool \<Rightarrow> 'z tmem_scheme \<Rightarrow> 'z tmem_scheme prog" where
  "pushBack_retry l i lockHead h =
     pbind (list_at l h) (\<lambda>q.
     pbind (if ItemCount q < 2 then pbind (lock_head l h) (\<lambda>h. Ret (True, h))
            else Ret (lockHead, h)) (\<lambda>r.
     pbind (lock_tail l (snd r)) (\<lambda>h.
     pbind (list_at l h) (\<lambda>q.
     if ItemCount q < 2 \<and> \<not> fst r then
       pbind (unlock_tail l h) (pushBack_retry l i (fst r))
     else
       pbind (pushBackUnsafe l i h) (\<lambda>h.
       pbind (if fst r then unlock_head l h else Ret h) (unlock_tail l))))))"

definition pushBack :: "laddr \<Rightarrow> addr option \<Rightarrow> 'z tmem_scheme \<Rightarrow> 'z tmem_scheme prog" where
  "pushBack l i h = pushBack_retry l i False h"

definition popHead :: "laddr \<Rightarrow> 'z tmem_scheme \<Rightarrow> (addr option \<times> 'z tmem_scheme) prog" where
  "popHead l h =
     pbind (list_at l h) (\<lambda>q.
     if ItemCount q = 0 then Ret (None, h)
     else
       pbind (lock_head l h) (\<lambda>h.
       pbind (list_at l h) (\<lambda>q.
       let lockTail = ItemCount q < 2 in
       pbind (if lockTail then lock_tail l h else Ret h) (\<lambda>h.
       pbind (popHeadUnsafe l h) (\<lambda>(item, h).
       pbind (unlock_head l h) (\<lambda>h.
       pbind (if lockTail then unlock_tail l h else Ret h) (\<lambda>h.
       Ret (item, h))))))))"

definition removeHead :: "laddr \<Rightarrow> 'z tmem_scheme \<Rightarrow> (addr option \<times> 'z tmem_scheme) prog" where
  "removeHead l h = pbind (list_at l h) (\<lambda>q. RemoveSelfFromOwnerlink (tl_head q) h)"

definition removeTail :: "laddr \<Rightarrow> 'z tmem_scheme \<Rightarrow> (addr option \<times> 'z tmem_scheme) prog" where
  "removeTail l h = pbind (list_at l h) (\<lambda>q. RemoveSelfFromOwnerlink (tl_tail q) h)"

text \<open>\<open>pushAll2\<close> moves everything to \<open>m\<close> under the four mutexes.\<close>

definition pushAll2_body ::
    "laddr \<Rightarrow> laddr \<Rightarrow> addr \<Rightarrow> 'z tmem_scheme \<Rightarrow> 'z tmem_scheme prog" where
  "pushAll2_body l m t h =
     pbind (upd_list l (\<lambda>q. q\<lparr>ItemCount := ItemCount q - 1\<rparr>) h) (pushBackUnsafe m (Some t))"

definition pushAll2 :: "laddr \<Rightarrow> laddr \<Rightarrow> 'z tmem_scheme \<Rightarrow> 'z tmem_scheme prog" where
  "pushAll2 l m h =
     pbind (lock_head l h) (\<lambda>h.
     pbind (lock_tail l h) (\<lambda>h.
     pbind (lock_head m h) (\<lambda>h.
     pbind (lock_tail m h) (\<lambda>h.
     pbind (drain (removeHead l) (pushAll2_body l m) h) (\<lambda>h.
     pbind (unlock_tail m h) (\<lambda>h.
     pbind (unlock_head m h) (\<lambda>h.
     pbind (unlock_tail l h) (\<lambda>h.
     unlock_head l h))))))))"

definition TaskItemsList_Delete :: "laddr \<Rightarrow> 'z tmem_scheme \<Rightarrow> 'z tmem_scheme prog" where
  "TaskItemsList_Delete l h =
     pbind (lock_head l h) (\<lambda>h.
     pbind (lock_tail l h) (\<lambda>h.
     pbind (unlock_tail l h) (\<lambda>h.
     pbind (unlock_head l h) (\<lambda>h.
     pbind (drain (removeTail l) (\<lambda>t. TaskItem_Delete (Some t)) h) (\<lambda>h.
     pbind (list_at l h) (\<lambda>q.
     pbind (TaskItem_Delete (tl_head q) h) (\<lambda>h.
     Ret (h\<lparr>lists := (lists h)(l := None)\<rparr>))))))))"

section \<open>What the links stand for\<close>

definition nxt :: "(addr \<Rightarrow> TaskItem option) \<Rightarrow> addr \<Rightarrow> addr option" where
  "nxt m a = Option.bind (m a) ti_next"

definition prv :: "(addr \<Rightarrow> TaskItem option) \<Rightarrow> addr \<Rightarrow> addr option" where
  "prv m a = Option.bind (m a) ti_prev"

definition own :: "(addr \<Rightarrow> TaskItem option) \<Rightarrow> addr \<Rightarrow> laddr option" where
  "own m a = Option.bind (m a) ti_owner"

lemma links_upd [simp]:
  "nxt (m(a \<mapsto> t)) = (nxt m)(a := ti_next t)"
  "prv (m(a \<mapsto> t)) = (prv m)(a := ti_prev t)"
  "own (m(a \<mapsto> t)) = (own m)(a := ti_owner t)"
  "nxt (m(a := None)) = (nxt m)(a := None)"
  "prv (m(a := None)) = (prv m)(a := None)"
  "own (m(a := None)) = (own m)(a := None)"
  by (auto simp: nxt_def prv_def own_def)

lemma links_Some [simp]:
  "m a = Some t \<Longrightarrow> nxt m a = ti_next t"
  "m a = Some t \<Longrightarrow> prv m a = ti_prev t"
  "m a = Some t \<Longrightarrow> own m a = ti_owner t"
  by (simp_all add: nxt_def prv_def own_def)

lemma own_SomeD: "own m a = Some l \<Longrightarrow> \<exists>t. m a = Some t \<and> ti_owner t = Some l"
  by (cases "m a") (auto simp: own_def)

text \<open>\<open>list_ok\<close>: the list \<open>l\<close>, with the fields \<open>q\<close>, is the doubly linked list of \<open>xs\<close>.\<close>

definition list_ok ::
    "(addr \<Rightarrow> TaskItem option) \<Rightarrow> laddr \<Rightarrow> TaskItemsList \<Rightarrow> addr list \<Rightarrow> bool" where
  "list_ok m l q xs \<longleftrightarrow> dseg (nxt m) (prv m) (tl_head q) None xs (tl_tail q) None \<and>
     distinct xs \<and> (\<forall>x \<in> set xs. own m x = Some l)"

definition detached :: "(addr \<Rightarrow> TaskItem option) \<Rightarrow> addr \<Rightarrow> bool" where
  "detached m a \<longleftrightarrow> own m a = None \<and> nxt m a = None \<and> prv m a = None"

text \<open>
  The invariant of the whole heap. \<open>Q\<close> gives each live list its items in order; an item is
  in the list it names as its owner and in no other, and an item without an owner has no
  links.
\<close>

definition links_ok :: "'z tmem_scheme \<Rightarrow> (laddr \<Rightarrow> addr list option) \<Rightarrow> bool" where
  "links_ok h Q \<longleftrightarrow>
     (\<forall>l. rel_option (\<lambda>q xs. list_ok (items h) l q xs) (lists h l) (Q l)) \<and>
     (\<forall>a l. own (items h) a = Some l \<longrightarrow> (\<exists>xs. Q l = Some xs \<and> a \<in> set xs)) \<and>
     (\<forall>a. own (items h) a = None \<longrightarrow> detached (items h) a)"

lemma list_ok_cong:
  "(\<And>x. x \<in> set xs \<Longrightarrow> m' x = m x) \<Longrightarrow> list_ok m' l q xs = list_ok m l q xs"
  unfolding list_ok_def
  by (intro conj_cong dseg_cong ball_cong) (auto simp: nxt_def prv_def own_def)

lemma list_ok_Nil [simp]: "list_ok m l q [] \<longleftrightarrow> tl_head q = None \<and> tl_tail q = None"
  by (simp add: list_ok_def)

lemma links_ok_rel: "links_ok h Q \<Longrightarrow> rel_option (list_ok (items h) l) (lists h l) (Q l)"
  unfolding links_ok_def by blast

lemma links_okI:
  assumes "\<And>l. rel_option (list_ok (items h) l) (lists h l) (Q l)"
    and "\<And>a l. own (items h) a = Some l \<Longrightarrow> \<exists>xs. Q l = Some xs \<and> a \<in> set xs"
    and "\<And>a. own (items h) a = None \<Longrightarrow> detached (items h) a"
  shows "links_ok h Q"
  using assms unfolding links_ok_def by blast

lemma links_ok_listD:
  assumes "links_ok h Q" and "Q l = Some xs"
  obtains q where "lists h l = Some q" and "list_ok (items h) l q xs"
  using assms unfolding links_ok_def by (metis option.rel_cases option.discI option.inject)

lemma links_ok_list_iff: "links_ok h Q \<Longrightarrow> lists h l = None \<longleftrightarrow> Q l = None"
  unfolding links_ok_def by (metis option.rel_distinct(1,2) not_Some_eq)

lemma links_ok_ownD:
  "links_ok h Q \<Longrightarrow> own (items h) a = Some l \<Longrightarrow> \<exists>xs. Q l = Some xs \<and> a \<in> set xs"
  unfolding links_ok_def by blast

lemma links_ok_own:
  "links_ok h Q \<Longrightarrow> Q l = Some xs \<Longrightarrow> x \<in> set xs \<Longrightarrow> own (items h) x = Some l"
  by (erule (1) links_ok_listD) (simp add: list_ok_def)

lemma links_ok_member:
  assumes "links_ok h Q" and "Q l = Some xs" and "x \<in> set xs"
  obtains t where "items h x = Some t" and "ti_owner t = Some l"
  using own_SomeD [OF links_ok_own [OF assms]] by blast

lemma links_ok_distinct: "links_ok h Q \<Longrightarrow> Q l = Some xs \<Longrightarrow> distinct xs"
  by (erule (1) links_ok_listD) (simp add: list_ok_def)

lemma links_ok_disjoint:
  "links_ok h Q \<Longrightarrow> Q l = Some xs \<Longrightarrow> Q l' = Some ys \<Longrightarrow> x \<in> set xs \<Longrightarrow> x \<in> set ys \<Longrightarrow> l = l'"
  by (metis links_ok_own option.inject)

lemma links_ok_detached: "links_ok h Q \<Longrightarrow> own (items h) a = None \<Longrightarrow> detached (items h) a"
  unfolding links_ok_def by blast

text \<open>The invariant reads the links, the heads and the tails and nothing else.\<close>

lemma links_ok_cong:
  assumes "items h' = items h"
    and "\<And>l. map_option (\<lambda>q. (tl_head q, tl_tail q)) (lists h' l) =
             map_option (\<lambda>q. (tl_head q, tl_tail q)) (lists h l)"
  shows "links_ok h' Q = links_ok h Q"
proof -
  have "rel_option (list_ok (items h) l) (lists h' l) (Q l) =
      rel_option (list_ok (items h) l) (lists h l) (Q l)" for l
    using assms(2) [of l] by (cases "lists h' l"; cases "lists h l"; cases "Q l")
      (auto simp: list_ok_def)
  then show ?thesis by (simp add: links_ok_def assms(1))
qed

text \<open>
  One operation on the list \<open>l\<close>: what it touches was in \<open>l\<close> or in no list, and is in \<open>l\<close>
  or detached afterwards.
\<close>

lemma links_ok_update:
  assumes ok: "links_ok h Q" and l: "lists h' = (lists h)(l \<mapsto> q')" and Ql: "Q l = Some xs"
    and ys: "list_ok (items h') l q' ys"
    and from_l: "\<And>x. items h' x \<noteq> items h x \<Longrightarrow> own (items h) x \<in> {None, Some l}"
    and to_l: "\<And>x. items h' x \<noteq> items h x \<Longrightarrow> x \<notin> set ys \<Longrightarrow> detached (items h') x"
    and keep: "\<And>x. x \<in> set xs \<Longrightarrow> x \<notin> set ys \<Longrightarrow> items h' x \<noteq> items h x"
  shows "links_ok h' (Q(l \<mapsto> ys))"
  unfolding links_ok_def
proof (intro conjI allI impI)
  fix l'
  show "rel_option (list_ok (items h') l') (lists h' l') ((Q(l \<mapsto> ys)) l')"
  proof (cases "l' = l")
    case True
    with l ys show ?thesis by simp
  next
    case False
    have "list_ok (items h') l' q zs = list_ok (items h) l' q zs" if "Q l' = Some zs" for q zs
      using from_l links_ok_own [OF ok that] False by (intro list_ok_cong) fastforce
    moreover have "rel_option (list_ok (items h) l') (lists h l') (Q l')"
      using ok unfolding links_ok_def by blast
    ultimately show ?thesis
      using False l by (cases "lists h l'"; cases "Q l'") auto
  qed
next
  fix a l' assume a: "own (items h') a = Some l'"
  show "\<exists>zs. (Q(l \<mapsto> ys)) l' = Some zs \<and> a \<in> set zs"
  proof (cases "a \<in> set ys")
    case True
    with ys a show ?thesis by (auto simp: list_ok_def)
  next
    case False
    then have "items h' a = items h a"
      using a to_l by (fastforce simp: detached_def)
    with a have "own (items h) a = Some l'" by (simp add: own_def)
    with links_ok_ownD [OF ok] Ql keep False \<open>items h' a = items h a\<close> show ?thesis by fastforce
  qed
next
  fix a assume a: "own (items h') a = None"
  then have "a \<notin> set ys" using ys by (auto simp: list_ok_def)
  then show "detached (items h') a"
    using a to_l links_ok_detached [OF ok]
    by (cases "items h' a = items h a") (auto simp: own_def detached_def nxt_def prv_def)
qed

subsection \<open>What an operation on lists leaves alone\<close>

definition strip :: "TaskItem \<Rightarrow> TaskItem" where
  "strip t = t\<lparr>ti_prev := None, ti_next := None, ti_owner := None\<rparr>"

text \<open>
  Nothing but links: no item appears or goes, no payload changes, no list appears or goes,
  the rest of the program's memory is the same.
\<close>

definition link_frame :: "'z tmem_scheme \<Rightarrow> 'z tmem_scheme \<Rightarrow> bool" where
  "link_frame h h' \<longleftrightarrow> (\<forall>a. map_option strip (items h' a) = map_option strip (items h a)) \<and>
     dom (lists h') = dom (lists h) \<and> item_brk h' = item_brk h \<and> list_brk h' = list_brk h \<and>
     tmem.more h' = tmem.more h"

lemma strip_upd [simp]:
  "strip (t\<lparr>ti_prev := x\<rparr>) = strip t"
  "strip (t\<lparr>ti_next := x\<rparr>) = strip t"
  "strip (t\<lparr>ti_owner := y\<rparr>) = strip t"
  by (simp_all add: strip_def)

lemma link_frame_refl [simp, intro]: "link_frame h h"
  by (simp add: link_frame_def)

lemma link_frame_trans [trans]: "link_frame h h' \<Longrightarrow> link_frame h' h'' \<Longrightarrow> link_frame h h''"
  by (simp add: link_frame_def)

definition count_of :: "'z tmem_scheme \<Rightarrow> laddr \<Rightarrow> u32" where
  "count_of h l = (case lists h l of None \<Rightarrow> 0 | Some q \<Rightarrow> ItemCount q)"

definition unlocked :: "'z tmem_scheme \<Rightarrow> bool" where
  "unlocked h \<longleftrightarrow> (\<forall>l q. lists h l = Some q \<longrightarrow> \<not> HeadMutex q \<and> \<not> TailMutex q)"

definition locks_of :: "'z tmem_scheme \<Rightarrow> laddr \<Rightarrow> (bool \<times> bool) option" where
  "locks_of h l = map_option (\<lambda>q. (HeadMutex q, TailMutex q)) (lists h l)"

lemma unlockedD:
  "unlocked h \<Longrightarrow> lists h l = Some q \<Longrightarrow> \<not> HeadMutex q"
  "unlocked h \<Longrightarrow> lists h l = Some q \<Longrightarrow> \<not> TailMutex q"
  by (auto simp: unlocked_def)

lemma unlocked_cong: "locks_of h' = locks_of h \<Longrightarrow> unlocked h' = unlocked h"
proof -
  have eq: "unlocked g \<longleftrightarrow> (\<forall>l b c. locks_of g l = Some (b, c) \<longrightarrow> \<not> b \<and> \<not> c)"
    for g :: "'z tmem_scheme"
    unfolding unlocked_def locks_of_def by fastforce
  show "locks_of h' = locks_of h \<Longrightarrow> unlocked h' = unlocked h"
    by (simp only: eq)
qed

section \<open>Removal\<close>

text \<open>The removed item leaves its list, wherever it stands in it, and comes out detached.\<close>

lemma RemoveSelf_detached:
  "items h a = Some t \<Longrightarrow> ti_owner t = None \<Longrightarrow> RemoveSelfFromOwnerlink (Some a) h = Ret (None, h)"
  by (simp add: RemoveSelfFromOwnerlink_def)

text \<open>The final heap of an operation on the list \<open>l\<close> that keeps its count and its mutexes.\<close>

lemma relink_frame:
  assumes "lists h l = Some q" and "h' = h\<lparr>items := m', lists := (lists h)(l \<mapsto> q')\<rparr>"
    and "ItemCount q' = ItemCount q" and "HeadMutex q' = HeadMutex q"
    and "TailMutex q' = TailMutex q"
    and "\<And>x. map_option strip (m' x) = map_option strip (items h x)"
  shows "count_of h' = count_of h" and "locks_of h' = locks_of h" and "link_frame h h'"
  using assms by (auto simp: count_of_def locks_of_def link_frame_def fun_eq_iff)

definition unlinked ::
    "laddr \<Rightarrow> addr list \<Rightarrow> addr \<Rightarrow> 'z tmem_scheme \<Rightarrow> (laddr \<Rightarrow> addr list option) \<Rightarrow> 'z tmem_scheme \<Rightarrow> bool" where
  "unlinked l xs a h Q h' \<longleftrightarrow> links_ok h' (Q(l \<mapsto> xs)) \<and> detached (items h') a \<and>
     count_of h' = count_of h \<and> locks_of h' = locks_of h \<and> link_frame h h'"

text \<open>What the branches have in common: the items stored and the two ends of the list.\<close>

lemma unlinkedI:
  assumes ok: "links_ok h Q" and Ql: "Q l = Some (ys @ a # zs)" and q: "lists h l = Some q"
    and lok: "list_ok m' l q' (ys @ zs)" and det: "detached m' a"
    and q': "ItemCount q' = ItemCount q" "HeadMutex q' = HeadMutex q" "TailMutex q' = TailMutex q"
    and touched: "\<And>x. x \<notin> set (ys @ a # zs) \<Longrightarrow> m' x = items h x"
    and strips: "\<And>x. map_option strip (m' x) = map_option strip (items h x)"
  shows "unlinked l (ys @ zs) a h Q (h\<lparr>items := m', lists := (lists h)(l \<mapsto> q')\<rparr>)"
proof -
  let ?h = "h\<lparr>items := m', lists := (lists h)(l \<mapsto> q')\<rparr>"
  obtain q0 where q0: "lists h l = Some q0" "list_ok (items h) l q0 (ys @ a # zs)"
    using ok Ql by (rule links_ok_listD)
  have owns: "own (items h) x = Some l" if "x \<in> set (ys @ a # zs)" for x
    using q0(2) that by (auto simp: list_ok_def)
  obtain t where t: "items h a = Some t" "ti_owner t = Some l" using own_SomeD [OF owns [of a]] by auto
  have "links_ok ?h (Q(l \<mapsto> ys @ zs))"
  proof (rule links_ok_update [OF ok _ Ql])
    show "items ?h x \<noteq> items h x" if "x \<in> set (ys @ a # zs)" "x \<notin> set (ys @ zs)" for x
      using that t det by (auto simp: detached_def own_def)
  qed (use lok det touched owns in \<open>auto, (metis set_append Un_iff list.set_intros)+\<close>)
  with det relink_frame [OF q refl q' strips] show ?thesis by (auto simp: unlinked_def)
qed

text \<open>An item of a list: its neighbours are in the list as well.\<close>

lemma links_ok_around:
  assumes ok: "links_ok h Q" and Ql: "Q l = Some (ys @ a # zs)"
  obtains q t where "lists h l = Some q" and "items h a = Some t" and "ti_owner t = Some l"
    and "dseg (nxt (items h)) (prv (items h)) (tl_head q) None (ys @ a # zs) (tl_tail q) None"
    and "distinct (ys @ a # zs)" and "\<And>x. x \<in> set (ys @ a # zs) \<Longrightarrow> own (items h) x = Some l"
    and "\<And>x. x \<in> set (ys @ a # zs) \<Longrightarrow> \<exists>t. items h x = Some t \<and> ti_owner t = Some l"
proof -
  obtain q where q: "lists h l = Some q" "list_ok (items h) l q (ys @ a # zs)"
    using ok Ql by (rule links_ok_listD)
  have owns: "own (items h) x = Some l" if "x \<in> set (ys @ a # zs)" for x
    using q(2) that by (auto simp: list_ok_def)
  obtain t where t: "items h a = Some t" "ti_owner t = Some l" using own_SomeD [OF owns [of a]] by auto
  show thesis
    by (rule that [OF q(1) t _ _ owns own_SomeD [OF owns]]) (use q(2) in \<open>auto simp: list_ok_def\<close>)
qed

lemma RemoveSelf_first:
  assumes ok: "links_ok h Q" and Ql: "Q l = Some (a # zs)"
  shows "\<exists>h'. RemoveSelfFromOwnerlink (Some a) h = Ret (Some a, h') \<and> unlinked l zs a h Q h'"
proof -
  have Ql': "Q l = Some ([] @ a # zs)" using Ql by simp
  obtain q t where q: "lists h l = Some q" and t: "items h a = Some t" "ti_owner t = Some l"
    and d: "dseg (nxt (items h)) (prv (items h)) (tl_head q) None (a # zs) (tl_tail q) None"
    and dist: "distinct (a # zs)" and owns: "\<And>x. x \<in> set (a # zs) \<Longrightarrow> own (items h) x = Some l"
    and mem: "\<And>x. x \<in> set (a # zs) \<Longrightarrow> \<exists>t. items h x = Some t \<and> ti_owner t = Some l"
    using links_ok_around [OF ok Ql'] by auto
  note U = unlinkedI [OF ok Ql' q, simplified append.simps]
  show ?thesis
  proof (cases zs)
    case Nil
    let ?h = "h\<lparr>items := (items h)(a \<mapsto> t\<lparr>ti_next := None, ti_owner := None\<rparr>),
        lists := (lists h)(l \<mapsto> q\<lparr>tl_head := None, tl_tail := None\<rparr>)\<rparr>"
    have "RemoveSelfFromOwnerlink (Some a) h = Ret (Some a, ?h)"
      using Nil d q t by (auto simp: RemoveSelfFromOwnerlink_def)
    moreover have "unlinked l zs a h Q ?h"
      by (rule U) (use Nil d t in \<open>auto simp: list_ok_def detached_def\<close>)
    ultimately show ?thesis by blast
  next
    case (Cons n zs')
    obtain tn where tn: "items h n = Some tn" "ti_owner tn = Some l" using mem [of n] Cons by auto
    let ?h = "\<lambda>n tn. h\<lparr>items := (items h)(n \<mapsto> tn\<lparr>ti_prev := None\<rparr>, a \<mapsto> t\<lparr>ti_next := None, ti_owner := None\<rparr>),
        lists := (lists h)(l \<mapsto> q\<lparr>tl_head := Some n\<rparr>)\<rparr>"
    have "tl_tail q \<noteq> Some a" using dseg_last [OF d] dist Cons by (auto split: if_splits)
    then have "RemoveSelfFromOwnerlink (Some a) h = Ret (Some a, ?h n tn)"
      using Cons d dist q t tn by (auto simp: RemoveSelfFromOwnerlink_def)
    moreover have "unlinked l zs a h Q (?h n tn)"
      by (rule U) (use Cons d dist t tn owns in \<open>auto simp: list_ok_def detached_def\<close>)
    ultimately show ?thesis by blast
  qed
qed

lemma RemoveSelf_later:
  assumes ok: "links_ok h Q" and Ql: "Q l = Some ((ys @ [p]) @ a # zs)"
  shows "\<exists>h'. RemoveSelfFromOwnerlink (Some a) h = Ret (Some a, h') \<and> unlinked l ((ys @ [p]) @ zs) a h Q h'"
proof -
  obtain q t where q: "lists h l = Some q" and t: "items h a = Some t" "ti_owner t = Some l"
    and d: "dseg (nxt (items h)) (prv (items h)) (tl_head q) None ((ys @ [p]) @ a # zs) (tl_tail q) None"
    and dist: "distinct ((ys @ [p]) @ a # zs)"
    and owns: "\<And>x. x \<in> set ((ys @ [p]) @ a # zs) \<Longrightarrow> own (items h) x = Some l"
    and mem: "\<And>x. x \<in> set ((ys @ [p]) @ a # zs) \<Longrightarrow> \<exists>t. items h x = Some t \<and> ti_owner t = Some l"
    using links_ok_around [OF ok Ql] by blast
  obtain tp where tp: "items h p = Some tp" "ti_owner tp = Some l" using mem [of p] by auto
  have ends: "tl_head q \<noteq> Some a" "a \<noteq> p" using dseg_first [OF d] dist by (cases ys; auto)+
  note U = unlinkedI [OF ok Ql q]
  show ?thesis
  proof (cases zs)
    case Nil
    let ?h = "h\<lparr>items := (items h)(p \<mapsto> tp\<lparr>ti_next := None\<rparr>, a \<mapsto> t\<lparr>ti_prev := None, ti_owner := None\<rparr>),
        lists := (lists h)(l \<mapsto> q\<lparr>tl_tail := Some p\<rparr>)\<rparr>"
    have "RemoveSelfFromOwnerlink (Some a) h = Ret (Some a, ?h)"
      using Nil d q t tp ends by (auto simp: RemoveSelfFromOwnerlink_def dseg_append)
    moreover have "unlinked l ((ys @ [p]) @ zs) a h Q ?h"
      by (rule U) (use Nil d dist t tp owns ends in \<open>auto simp: list_ok_def detached_def dseg_append\<close>)
    ultimately show ?thesis by blast
  next
    case (Cons n zs')
    obtain tn where tn: "items h n = Some tn" "ti_owner tn = Some l" using mem [of n] Cons by auto
    have ntail: "tl_tail q \<noteq> Some a" using dseg_last [OF d] dist Cons by (auto split: if_splits)
    have same: "h\<lparr>items := m, lists := (lists h)(l \<mapsto> q)\<rparr> = h\<lparr>items := m\<rparr>" for m
      using q by (intro tmem.equality) (simp_all add: fun_upd_idem)
    let ?h = "h\<lparr>items := (items h)(p \<mapsto> tp\<lparr>ti_next := Some n\<rparr>, n \<mapsto> tn\<lparr>ti_prev := Some p\<rparr>,
        a \<mapsto> t\<lparr>ti_owner := None, ti_next := None, ti_prev := None\<rparr>), lists := (lists h)(l \<mapsto> q)\<rparr>"
    have "RemoveSelfFromOwnerlink (Some a) h = Ret (Some a, ?h)"
      using Cons d dist q t tp tn ends ntail
      by (auto simp: RemoveSelfFromOwnerlink_def dseg_append fun_upd_twist same)
    moreover have "unlinked l ((ys @ [p]) @ zs) a h Q ?h"
      by (rule U) (use Cons d dist t tp tn owns ends in \<open>auto simp: list_ok_def detached_def dseg_append\<close>)
    ultimately show ?thesis by blast
  qed
qed

lemma RemoveSelf_links:
  assumes ok: "links_ok h Q" and Ql: "Q l = Some (ys @ a # zs)"
  shows "\<exists>h'. RemoveSelfFromOwnerlink (Some a) h = Ret (Some a, h') \<and>
    links_ok h' (Q(l \<mapsto> ys @ zs)) \<and> detached (items h') a \<and>
    count_of h' = count_of h \<and> locks_of h' = locks_of h \<and> link_frame h h'"
proof (cases ys rule: rev_cases)
  case Nil
  then show ?thesis using RemoveSelf_first [OF ok] Ql by (simp add: unlinked_def)
next
  case (snoc ys' p)
  show ?thesis using RemoveSelf_later [OF ok Ql [unfolded snoc]] by (simp add: unlinked_def snoc)
qed

lemma removeHead_Cons:
  assumes ok: "links_ok h Q" and Ql: "Q l = Some (a # zs)"
  shows "\<exists>h'. removeHead l h = Ret (Some a, h') \<and> links_ok h' (Q(l \<mapsto> zs)) \<and>
    detached (items h') a \<and> count_of h' = count_of h \<and> locks_of h' = locks_of h \<and> link_frame h h'"
proof -
  obtain q where q: "lists h l = Some q" "list_ok (items h) l q (a # zs)"
    using ok Ql by (rule links_ok_listD)
  then have "tl_head q = Some a" by (auto simp: list_ok_def)
  with RemoveSelf_links [OF ok, of l "[]" a zs] Ql q(1) show ?thesis
    by (simp add: removeHead_def)
qed

lemma removeTail_snoc:
  assumes ok: "links_ok h Q" and Ql: "Q l = Some (ys @ [a])"
  shows "\<exists>h'. removeTail l h = Ret (Some a, h') \<and> links_ok h' (Q(l \<mapsto> ys)) \<and>
    detached (items h') a \<and> count_of h' = count_of h \<and> locks_of h' = locks_of h \<and> link_frame h h'"
proof -
  obtain q where q: "lists h l = Some q" "list_ok (items h) l q (ys @ [a])"
    using ok Ql by (rule links_ok_listD)
  then have "tl_tail q = Some a" by (auto simp: list_ok_def dseg_snoc)
  with RemoveSelf_links [OF ok, of l ys a "[]"] Ql q(1) show ?thesis
    by (simp add: removeTail_def)
qed

lemma links_ok_Nil:
  assumes "links_ok h Q" and "Q l = Some []" and "lists h l = Some q"
  shows "tl_head q = None" and "tl_tail q = None"
  using links_ok_listD [OF assms(1,2)] assms(3) by (auto simp: list_ok_def)

lemma removeHead_Nil:
  assumes "links_ok h Q" and "Q l = Some []"
  shows "removeHead l h = Ret (None, h)" and "removeTail l h = Ret (None, h)"
proof -
  obtain q where "lists h l = Some q" using assms by (rule links_ok_listD)
  with links_ok_Nil [OF assms this]
  show "removeHead l h = Ret (None, h)" and "removeTail l h = Ret (None, h)"
    by (simp_all add: removeHead_def removeTail_def RemoveSelfFromOwnerlink_def)
qed

section \<open>Insertion\<close>

lemma pushBackUnsafe_links:
  assumes ok: "links_ok h Q" and Ql: "Q l = Some xs"
    and a: "items h a = Some t" and det: "detached (items h) a"
  shows "\<exists>h'. pushBackUnsafe l (Some a) h = Ret h' \<and> links_ok h' (Q(l \<mapsto> xs @ [a])) \<and>
    count_of h' = (count_of h)(l := count_of h l + 1) \<and> locks_of h' = locks_of h \<and> link_frame h h'"
proof -
  obtain q where q: "lists h l = Some q" "list_ok (items h) l q xs"
    using ok Ql by (rule links_ok_listD)
  from q(2) have d: "dseg (nxt (items h)) (prv (items h)) (tl_head q) None xs (tl_tail q) None"
    and dist: "distinct xs"
    and owns: "\<And>x. x \<in> set xs \<Longrightarrow> own (items h) x = Some l"
    by (auto simp: list_ok_def)
  from det a have t: "ti_next t = None" "ti_prev t = None" "ti_owner t = None"
    by (auto simp: detached_def)
  have anew: "a \<notin> set xs" using owns det by (auto simp: detached_def)
  have finish: ?thesis
    if run: "pushBackUnsafe l (Some a) h = Ret (h\<lparr>items := m', lists := (lists h)(l \<mapsto> q')\<rparr>)"
      and q': "ItemCount q' = ItemCount q + 1" "HeadMutex q' = HeadMutex q" "TailMutex q' = TailMutex q"
      and lok: "list_ok m' l q' (xs @ [a])"
      and touched: "\<And>x. x \<notin> set (xs @ [a]) \<Longrightarrow> m' x = items h x"
      and strips: "\<And>x. map_option strip (m' x) = map_option strip (items h x)" for m' q'
  proof -
    let ?h = "h\<lparr>items := m', lists := (lists h)(l \<mapsto> q')\<rparr>"
    have "links_ok ?h (Q(l \<mapsto> xs @ [a]))"
      using det lok owns touched
      by (intro links_ok_update [OF ok _ Ql, where q' = q'])
        (auto simp: detached_def, (metis Un_insert_right append_Nil2 insertE list.set(2) set_append)+)
    moreover have "count_of ?h = (count_of h)(l := count_of h l + 1)" "locks_of ?h = locks_of h"
      "link_frame h ?h"
      using q(1) q' strips by (auto simp: count_of_def locks_of_def link_frame_def fun_eq_iff)
    ultimately show ?thesis using run by auto
  qed
  show ?thesis
  proof (cases xs rule: rev_cases)
    case Nil
    with d q(1) a t show ?thesis
      by (intro finish [where m' = "(items h)(a \<mapsto> t\<lparr>ti_owner := Some l\<rparr>)"
            and q' = "q\<lparr>tl_head := Some a, tl_tail := Some a, ItemCount := ItemCount q + 1\<rparr>"])
        (auto simp: pushBackUnsafe_def list_ok_def intro!: tmem.equality)
  next
    case (snoc xs' p)
    then obtain tp where tp: "items h p = Some tp" "ti_owner tp = Some l"
      using own_SomeD [OF owns, of p] by auto
    from snoc d dist q(1) a t tp owns anew show ?thesis
      by (intro finish [where m' = "(items h)(p \<mapsto> tp\<lparr>ti_next := Some a\<rparr>,
              a \<mapsto> t\<lparr>ti_prev := Some p, ti_next := None, ti_owner := Some l\<rparr>)"
            and q' = "q\<lparr>tl_tail := Some a, ItemCount := ItemCount q + 1\<rparr>"])
        (auto simp: pushBackUnsafe_def list_ok_def dseg_append intro!: tmem.equality)
  qed
qed

section \<open>The locked operations\<close>

text \<open>A step that changes mutexes and nothing else.\<close>

definition relock ::
    "'z tmem_scheme \<Rightarrow> 'z tmem_scheme \<Rightarrow> (laddr \<Rightarrow> (bool \<times> bool) option) \<Rightarrow> bool" where
  "relock h h' L \<longleftrightarrow> locks_of h' = L \<and> items h' = items h \<and> count_of h' = count_of h \<and>
     link_frame h h' \<and> (\<forall>Q. links_ok h' Q = links_ok h Q)"

lemma relock_intro:
  assumes "lists h l = Some q" and "h' = h\<lparr>lists := (lists h)(l \<mapsto> q')\<rparr>"
    and "tl_head q' = tl_head q" and "tl_tail q' = tl_tail q" and "ItemCount q' = ItemCount q"
  shows "relock h h' ((locks_of h)(l \<mapsto> (HeadMutex q', TailMutex q')))"
proof -
  have "links_ok h' Q = links_ok h Q" for Q
    using assms by (intro links_ok_cong) auto
  with assms show ?thesis
    by (auto simp: relock_def locks_of_def count_of_def link_frame_def fun_eq_iff)
qed

lemma locks_of_SomeD:
  "locks_of h l = Some (b, c) \<Longrightarrow> \<exists>q. lists h l = Some q \<and> HeadMutex q = b \<and> TailMutex q = c"
  by (auto simp: locks_of_def)

lemma relock_ops:
  "locks_of h l = Some (False, c) \<Longrightarrow>
     \<exists>h'. lock_head l h = Ret h' \<and> relock h h' ((locks_of h)(l \<mapsto> (True, c)))"
  "locks_of h l = Some (b, False) \<Longrightarrow>
     \<exists>h'. lock_tail l h = Ret h' \<and> relock h h' ((locks_of h)(l \<mapsto> (b, True)))"
  "locks_of h l = Some (b, c) \<Longrightarrow>
     \<exists>h'. unlock_head l h = Ret h' \<and> relock h h' ((locks_of h)(l \<mapsto> (False, c)))"
  "locks_of h l = Some (b, c) \<Longrightarrow>
     \<exists>h'. unlock_tail l h = Ret h' \<and> relock h h' ((locks_of h)(l \<mapsto> (b, False)))"
proof -
  have upd: "\<exists>h'. upd_list l f h = Ret h' \<and> relock h h' ((locks_of h)(l \<mapsto> bc))"
    if "lists h l = Some q" and "tl_head (f q) = tl_head q" and "tl_tail (f q) = tl_tail q"
      and "ItemCount (f q) = ItemCount q" and "(HeadMutex (f q), TailMutex (f q)) = bc" for f q bc
    using that relock_intro [OF that(1) refl that(2,3,4)] by simp
  {
    assume "locks_of h l = Some (False, c)"
    then obtain q where "lists h l = Some q" "\<not> HeadMutex q" "TailMutex q = c"
      by (auto dest: locks_of_SomeD)
    then show "\<exists>h'. lock_head l h = Ret h' \<and> relock h h' ((locks_of h)(l \<mapsto> (True, c)))"
      using upd [of q "\<lambda>q. q\<lparr>HeadMutex := True\<rparr>"] by (simp add: lock_head_def)
  next
    assume "locks_of h l = Some (b, False)"
    then obtain q where "lists h l = Some q" "HeadMutex q = b" "\<not> TailMutex q"
      by (auto dest: locks_of_SomeD)
    then show "\<exists>h'. lock_tail l h = Ret h' \<and> relock h h' ((locks_of h)(l \<mapsto> (b, True)))"
      using upd [of q "\<lambda>q. q\<lparr>TailMutex := True\<rparr>"] by (simp add: lock_tail_def)
  next
    assume "locks_of h l = Some (b, c)"
    then obtain q where "lists h l = Some q" "HeadMutex q = b" "TailMutex q = c"
      by (auto dest: locks_of_SomeD)
    then show "\<exists>h'. unlock_head l h = Ret h' \<and> relock h h' ((locks_of h)(l \<mapsto> (False, c)))"
      and "\<exists>h'. unlock_tail l h = Ret h' \<and> relock h h' ((locks_of h)(l \<mapsto> (b, False)))"
      using upd [of q "\<lambda>q. q\<lparr>HeadMutex := False\<rparr>"] upd [of q "\<lambda>q. q\<lparr>TailMutex := False\<rparr>"]
      by (simp_all add: unlock_head_def unlock_tail_def)
  }
qed

lemma relock_trans: "relock h h' L \<Longrightarrow> relock h' h'' L' \<Longrightarrow> relock h h'' L'"
  by (auto simp: relock_def intro: link_frame_trans)

lemma relock_simps:
  assumes "relock h h' L"
  shows "locks_of h' = L" and "items h' = items h" and "count_of h' = count_of h"
    and "link_frame h h'" and "links_ok h' Q = links_ok h Q"
  using assms by (auto simp: relock_def)

text \<open>The state between calls: consistent links and no mutex held.\<close>

definition tasks_ok :: "'z tmem_scheme \<Rightarrow> (laddr \<Rightarrow> addr list option) \<Rightarrow> bool" where
  "tasks_ok h Q \<longleftrightarrow> links_ok h Q \<and> unlocked h"

lemma tasks_ok_links [dest]: "tasks_ok h Q \<Longrightarrow> links_ok h Q"
  by (simp add: tasks_ok_def)

lemma tasks_ok_locks: "tasks_ok h Q \<Longrightarrow> Q l = Some xs \<Longrightarrow> locks_of h l = Some (False, False)"
  by (auto simp: tasks_ok_def locks_of_def dest: unlockedD elim!: links_ok_listD)

lemma tasks_ok_count: "tasks_ok h Q \<Longrightarrow> Q l = Some xs \<Longrightarrow>
    \<exists>q. lists h l = Some q \<and> ItemCount q = count_of h l"
  by (auto simp: tasks_ok_def count_of_def elim!: links_ok_listD)

lemma list_at_count:
  "locks_of h l = Some bc \<Longrightarrow> \<exists>q. list_at l h = Ret q \<and> ItemCount q = count_of h l"
  by (auto simp: locks_of_def count_of_def)

text \<open>\<open>pushBack\<close> appends, whichever mutexes it takes, and gives them back.\<close>

lemma pushBack_tasks:
  assumes ok: "tasks_ok h Q" and Ql: "Q l = Some xs"
    and a: "items h a = Some t" and det: "detached (items h) a"
  shows "\<exists>h'. pushBack l (Some a) h = Ret h' \<and> tasks_ok h' (Q(l \<mapsto> xs @ [a])) \<and>
    count_of h' = (count_of h)(l := count_of h l + 1) \<and> link_frame h h'"
proof -
  let ?L = "locks_of h" and ?short = "count_of h l < 2"
  have L: "?L l = Some (False, False)" by (rule tasks_ok_locks [OF ok Ql])
  then obtain q where q: "list_at l h = Ret q" "ItemCount q = count_of h l"
    by (auto dest: list_at_count)
  obtain h1 where h1: "(if ?short then pbind (lock_head l h) (\<lambda>h. Ret (True, h)) else Ret (False, h)) =
      Ret (?short, h1)" "relock h h1 (?L(l \<mapsto> (?short, False)))"
    using relock_ops(1) [OF L] L by (cases ?short) (auto simp: relock_def fun_upd_idem)
  obtain h2 where h2: "lock_tail l h1 = Ret h2" "relock h1 h2 (?L(l \<mapsto> (?short, True)))"
    using relock_ops(2) [of h1 l] relock_simps(1) [OF h1(2)] by auto
  note r2 = relock_simps [OF relock_trans [OF h1(2) h2(2)]]
  obtain q2 where q2: "list_at l h2 = Ret q2" "ItemCount q2 = count_of h l"
    using list_at_count [of h2 l] r2(1,3) by auto
  obtain h3 where h3: "pushBackUnsafe l (Some a) h2 = Ret h3" "links_ok h3 (Q(l \<mapsto> xs @ [a]))"
    "count_of h3 = (count_of h)(l := count_of h l + 1)" "locks_of h3 = ?L(l \<mapsto> (?short, True))"
    "link_frame h2 h3"
    using pushBackUnsafe_links [of h2 Q l xs a t] ok Ql a det r2 by auto
  obtain h4 where h4: "(if ?short then unlock_head l h3 else Ret h3) = Ret h4"
    "relock h3 h4 (?L(l \<mapsto> (False, True)))"
    using relock_ops(3) [of h3 l ?short True] h3(4)
    by (cases ?short) (auto simp: relock_def)
  obtain h5 where h5: "unlock_tail l h4 = Ret h5" "relock h4 h5 ?L"
    using relock_ops(4) [of h4 l False True] relock_simps(1) [OF h4(2)] L
    by (auto simp: fun_upd_idem)
  note r5 = relock_simps [OF relock_trans [OF h4(2) h5(2)]]
  have "pushBack l (Some a) h = Ret h5"
    unfolding pushBack_def
    by (subst pushBack_retry.simps) (simp add: q h1(1) h2(1) q2 h3(1) h4(1) h5(1))
  moreover have "tasks_ok h5 (Q(l \<mapsto> xs @ [a]))"
    using h3(2) r5(1,5) ok by (simp add: tasks_ok_def unlocked_cong [of h5 h])
  moreover have "link_frame h h5"
    using r2(4) h3(5) r5(4) by (blast intro: link_frame_trans)
  ultimately show ?thesis using h3(3) r5(3) by auto
qed

lemma decr_count:
  assumes "lists h l = Some q"
  shows "\<exists>h'. upd_list l (\<lambda>q. q\<lparr>ItemCount := ItemCount q - 1\<rparr>) h = Ret h' \<and>
    links_ok h' Q = links_ok h Q \<and> items h' = items h \<and>
    count_of h' = (count_of h)(l := count_of h l - 1) \<and> locks_of h' = locks_of h \<and>
    link_frame h h' \<and> lists h' l = Some (q\<lparr>ItemCount := ItemCount q - 1\<rparr>)"
proof -
  let ?h = "h\<lparr>lists := (lists h)(l \<mapsto> q\<lparr>ItemCount := ItemCount q - 1\<rparr>)\<rparr>"
  have "links_ok ?h Q = links_ok h Q" using assms by (intro links_ok_cong) auto
  with assms show ?thesis
    by (auto simp: count_of_def locks_of_def link_frame_def fun_eq_iff)
qed

lemma popHeadUnsafe_Cons:
  assumes ok: "links_ok h Q" and Ql: "Q l = Some (a # zs)" and cnt: "count_of h l \<noteq> 0"
  shows "\<exists>h'. popHeadUnsafe l h = Ret (Some a, h') \<and> links_ok h' (Q(l \<mapsto> zs)) \<and>
    detached (items h') a \<and> count_of h' = (count_of h)(l := count_of h l - 1) \<and>
    locks_of h' = locks_of h \<and> link_frame h h'"
proof -
  obtain q where q: "lists h l = Some q" "list_ok (items h) l q (a # zs)"
    using ok Ql by (rule links_ok_listD)
  then have d: "dseg (nxt (items h)) (prv (items h)) (tl_head q) None (a # zs) (tl_tail q) None"
    by (simp add: list_ok_def)
  have ends: "tl_head q = Some a" "tl_tail q \<noteq> None"
    using d dseg_last [OF d] by auto
  obtain h1 where h1: "upd_list l (\<lambda>q. q\<lparr>ItemCount := ItemCount q - 1\<rparr>) h = Ret h1"
    "links_ok h1 Q" "items h1 = items h" "count_of h1 = (count_of h)(l := count_of h l - 1)"
    "locks_of h1 = locks_of h" "link_frame h h1"
    using decr_count [OF q(1), of Q] ok by auto
  obtain h2 where h2: "RemoveSelfFromOwnerlink (Some a) h1 = Ret (Some a, h2)"
    "links_ok h2 (Q(l \<mapsto> zs))" "detached (items h2) a" "count_of h2 = count_of h1"
    "locks_of h2 = locks_of h1" "link_frame h1 h2"
    using RemoveSelf_links [OF h1(2), of l "[]" a zs] Ql by auto
  have "popHeadUnsafe l h = Ret (Some a, h2)"
    using q(1) ends cnt h1(1) h2(1) by (simp add: popHeadUnsafe_def count_of_def)
  with h1 h2 show ?thesis by (auto intro: link_frame_trans)
qed

lemma popHeadUnsafe_Nil:
  assumes ok: "links_ok h Q" and Ql: "Q l = Some []"
  shows "popHeadUnsafe l h = Ret (None, h)"
proof -
  obtain q where "lists h l = Some q" using ok Ql by (rule links_ok_listD)
  with links_ok_Nil [OF ok Ql this] show ?thesis by (simp add: popHeadUnsafe_def)
qed

text \<open>
  \<open>popHead\<close>, when the count is not zero: the mutexes it takes and gives back around
  \<open>popHeadUnsafe\<close>, whose effect is given.
\<close>

lemma popHead_run:
  fixes h :: "'z tmem_scheme"
  assumes ok: "tasks_ok h Q" and Ql: "Q l = Some xs" and cnt: "count_of h l \<noteq> 0"
    and unsafe: "\<And>h2 :: 'z tmem_scheme. links_ok h2 Q \<Longrightarrow> items h2 = items h \<Longrightarrow> count_of h2 = count_of h \<Longrightarrow>
      \<exists>h3. popHeadUnsafe l h2 = Ret (r, h3) \<and> links_ok h3 Q' \<and> count_of h3 = C \<and>
        locks_of h3 = locks_of h2 \<and> link_frame h2 h3 \<and> P (items h3)"
  shows "\<exists>h'. popHead l h = Ret (r, h') \<and> tasks_ok h' Q' \<and> count_of h' = C \<and> link_frame h h' \<and>
    P (items h')"
proof -
  let ?L = "locks_of h" and ?short = "count_of h l < 2"
  have L: "?L l = Some (False, False)" by (rule tasks_ok_locks [OF ok Ql])
  then obtain q where q: "list_at l h = Ret q" "ItemCount q = count_of h l"
    by (auto dest: list_at_count)
  obtain h1 where h1: "lock_head l h = Ret h1" "relock h h1 (?L(l \<mapsto> (True, False)))"
    using relock_ops(1) [OF L] by auto
  obtain q1 where q1: "list_at l h1 = Ret q1" "ItemCount q1 = count_of h l"
    using list_at_count [of h1 l] relock_simps(1,3) [OF h1(2)] by auto
  obtain h2 where h2: "(if ?short then lock_tail l h1 else Ret h1) = Ret h2"
    "relock h1 h2 (?L(l \<mapsto> (True, ?short)))"
    using relock_ops(2) [of h1 l True] relock_simps(1) [OF h1(2)]
    by (cases ?short) (auto simp: relock_def)
  note r2 = relock_simps [OF relock_trans [OF h1(2) h2(2)]]
  obtain h3 where h3: "popHeadUnsafe l h2 = Ret (r, h3)" "links_ok h3 Q'" "count_of h3 = C"
    "locks_of h3 = ?L(l \<mapsto> (True, ?short))" "link_frame h2 h3" "P (items h3)"
    using unsafe [of h2] ok r2 by auto
  obtain h4 where h4: "unlock_head l h3 = Ret h4" "relock h3 h4 (?L(l \<mapsto> (False, ?short)))"
    using relock_ops(3) [of h3 l True ?short] h3(4) by auto
  obtain h5 where h5: "(if ?short then unlock_tail l h4 else Ret h4) = Ret h5" "relock h4 h5 ?L"
    using relock_ops(4) [of h4 l False ?short] relock_simps(1) [OF h4(2)] L
    by (cases ?short) (auto simp: relock_def fun_upd_idem)
  note r5 = relock_simps [OF relock_trans [OF h4(2) h5(2)]]
  have "popHead l h = Ret (r, h5)"
    using q cnt q1 h1(1) h2(1) h3(1) h4(1) h5(1) by (simp add: popHead_def)
  moreover have "tasks_ok h5 Q'"
    using h3(2) r5(1,5) ok by (simp add: tasks_ok_def unlocked_cong [of h5 h])
  moreover have "link_frame h h5"
    using r2(4) h3(5) r5(4) by (blast intro: link_frame_trans)
  ultimately show ?thesis using h3(3,6) r5(2,3) by auto
qed

lemma popHead_Cons:
  fixes h :: "'z tmem_scheme"
  assumes "tasks_ok h Q" and "Q l = Some (a # zs)" and "count_of h l \<noteq> 0"
  shows "\<exists>h'. popHead l h = Ret (Some a, h') \<and> tasks_ok h' (Q(l \<mapsto> zs)) \<and>
    count_of h' = (count_of h)(l := count_of h l - 1) \<and> link_frame h h' \<and> detached (items h') a"
proof (rule popHead_run [OF assms])
  fix h2 :: "'z tmem_scheme"
  assume "links_ok h2 Q" and "items h2 = items h" and "count_of h2 = count_of h"
  then show "\<exists>h3. popHeadUnsafe l h2 = Ret (Some a, h3) \<and> links_ok h3 (Q(l \<mapsto> zs)) \<and>
      count_of h3 = (count_of h)(l := count_of h l - 1) \<and> locks_of h3 = locks_of h2 \<and>
      link_frame h2 h3 \<and> detached (items h3) a"
    using popHeadUnsafe_Cons [of h2 Q l a zs] assms(2,3) by auto
qed

lemma popHead_Nil:
  assumes ok: "tasks_ok h Q" and Ql: "Q l = Some []"
  shows "\<exists>h'. popHead l h = Ret (None, h') \<and> tasks_ok h' Q \<and> count_of h' = count_of h \<and>
    link_frame h h' \<and> items h' = items h"
proof (cases "count_of h l = 0")
  case True
  then show ?thesis
    using tasks_ok_count [OF ok Ql] ok by (auto simp: popHead_def)
next
  case False
  show ?thesis
    by (rule popHead_run [OF ok Ql False]) (use popHeadUnsafe_Nil Ql in fastforce)
qed

section \<open>Whole lists\<close>

text \<open>
  \<open>pushAll2\<close> moves the items in order. \<open>ItemCount\<close> of the source goes down once per item
  moved, from wherever it was.
\<close>

interpretation head_src: fifo_source
  "\<lambda>(h :: 'z tmem_scheme) xs. \<exists>Q. links_ok h Q \<and> Q l = Some xs" "removeHead l" for l
proof
  fix h :: "'z tmem_scheme" and x xs
  show "\<exists>Q. links_ok h Q \<and> Q l = Some [] \<Longrightarrow>
      \<exists>s'. removeHead l h = Ret (None, s') \<and> (\<exists>Q. links_ok s' Q \<and> Q l = Some [])"
    using removeHead_Nil(1) by blast
  show "\<exists>Q. links_ok h Q \<and> Q l = Some (x # xs) \<Longrightarrow>
      \<exists>s'. removeHead l h = Ret (Some x, s') \<and> (\<exists>Q. links_ok s' Q \<and> Q l = Some xs)"
    using removeHead_Cons by (metis fun_upd_same)
qed

lemma link_frame_Some:
  "link_frame h h' \<Longrightarrow> items h a = Some t \<Longrightarrow> \<exists>t'. items h' a = Some t' \<and> strip t' = strip t"
  unfolding link_frame_def by (erule conjE, erule allE [where x = a]) auto

lemma link_frame_None: "link_frame h h' \<Longrightarrow> items h a = None \<longleftrightarrow> items h' a = None"
  unfolding link_frame_def by (erule conjE, erule allE [where x = a]) auto

text \<open>One turn of the loop of \<open>pushAll2\<close>.\<close>

lemma pushAll2_step:
  assumes ok: "links_ok h Q" and lm: "l \<noteq> m" and Ql: "Q l = Some (x # zs)" and Qm: "Q m = Some ms"
    and pop: "removeHead l h = Ret (Some x, h1)"
  shows "\<exists>h'. pushAll2_body l m x h1 = Ret h' \<and> links_ok h' (Q(l \<mapsto> zs, m \<mapsto> ms @ [x])) \<and>
    count_of h' = (count_of h)(l := count_of h l - 1, m := count_of h m + 1) \<and>
    locks_of h' = locks_of h \<and> link_frame h h'"
proof -
  have h1: "links_ok h1 (Q(l \<mapsto> zs))" "detached (items h1) x" "count_of h1 = count_of h"
    "locks_of h1 = locks_of h" "link_frame h h1"
    using removeHead_Cons [OF ok Ql] pop by auto
  obtain q1 where "lists h1 l = Some q1"
    using links_ok_listD [OF h1(1), of l zs] by auto
  from decr_count [OF this, of "Q(l \<mapsto> zs)"]
  obtain h2 where h2: "upd_list l (\<lambda>q. q\<lparr>ItemCount := ItemCount q - 1\<rparr>) h1 = Ret h2"
    "links_ok h2 (Q(l \<mapsto> zs))" "items h2 = items h1"
    "count_of h2 = (count_of h)(l := count_of h l - 1)" "locks_of h2 = locks_of h" "link_frame h1 h2"
    using h1 by auto
  have fr: "link_frame h h2" using h1(5) h2(6) by (rule link_frame_trans)
  obtain t where "items h2 x = Some t"
    using links_ok_member [OF ok Ql, of x] link_frame_Some [OF fr] by (metis list.set_intros(1))
  then obtain h3 where "pushBackUnsafe m (Some x) h2 = Ret h3"
    "links_ok h3 (Q(l \<mapsto> zs, m \<mapsto> ms @ [x]))" "count_of h3 = (count_of h2)(m := count_of h2 m + 1)"
    "locks_of h3 = locks_of h2" "link_frame h2 h3"
    using pushBackUnsafe_links [OF h2(2), of m ms x t] Qm lm h1(2) h2(3) by auto
  with h2 fr lm show ?thesis
    by (auto simp: pushAll2_body_def intro: link_frame_trans)
qed

lemma pushAll2_loop:
  fixes h :: "'z tmem_scheme"
  assumes ok: "links_ok h Q" and lm: "l \<noteq> m" and Ql: "Q l = Some xs" and Qm: "Q m = Some ms"
  shows "\<exists>h'. drain (removeHead l) (pushAll2_body l m) h = Ret h' \<and>
    links_ok h' (Q(l \<mapsto> [], m \<mapsto> ms @ xs)) \<and>
    count_of h' = (count_of h)(l := count_of h l - of_nat (length xs),
                               m := count_of h m + of_nat (length xs)) \<and>
    locks_of h' = locks_of h \<and> link_frame h h'"
proof -
  define J where "J ys s \<longleftrightarrow> links_ok s (Q(l \<mapsto> drop (length ys) xs, m \<mapsto> ms @ ys)) \<and>
    count_of s = (count_of h)(l := count_of h l - of_nat (length ys),
                              m := count_of h m + of_nat (length ys)) \<and>
    locks_of s = locks_of h \<and> link_frame h s" for ys and s :: "'z tmem_scheme"
  have "\<exists>h'. drain (removeHead l) (pushAll2_body l m) h = Ret h' \<and>
      (\<exists>Q. links_ok h' Q \<and> Q l = Some []) \<and> J xs h'"
  proof (rule head_src.drain_rule [where ys = "[]" and zs = xs])
    show "J [] h" using ok Ql Qm by (simp add: J_def fun_upd_idem)
  next
    fix ys x zs and s s1 :: "'z tmem_scheme"
    assume xs: "xs = ys @ x # zs" and J: "J ys s" and pop: "removeHead l s = Ret (Some x, s1)"
    let ?Q = "Q(l \<mapsto> x # zs, m \<mapsto> ms @ ys)"
    have s: "links_ok s ?Q" "link_frame h s" using J xs by (simp_all add: J_def)
    have "?Q l = Some (x # zs)" "?Q m = Some (ms @ ys)" using lm by simp_all
    from pushAll2_step [OF s(1) lm this pop] obtain s' where s':
      "pushAll2_body l m x s1 = Ret s'" "links_ok s' (?Q(l \<mapsto> zs, m \<mapsto> (ms @ ys) @ [x]))"
      "count_of s' = (count_of s)(l := count_of s l - 1, m := count_of s m + 1)"
      "locks_of s' = locks_of s" "link_frame s s'" by blast
    moreover have "?Q(l \<mapsto> zs, m \<mapsto> (ms @ ys) @ [x]) = Q(l \<mapsto> zs, m \<mapsto> ms @ (ys @ [x]))"
      using lm by (simp add: fun_upd_twist)
    ultimately have "J (ys @ [x]) s'"
      using J xs lm s(2) unfolding J_def
      by (auto simp: fun_eq_iff intro: link_frame_trans)
    moreover have "\<exists>Q. links_ok s' Q \<and> Q l = Some zs"
      using s'(2) lm by (intro exI conjI) (assumption, simp)
    ultimately show "\<exists>s'. pushAll2_body l m x s1 = Ret s' \<and>
        (\<exists>Q. links_ok s' Q \<and> Q l = Some zs) \<and> J (ys @ [x]) s'"
      using s'(1) by blast
  next
    fix s s1 :: "'z tmem_scheme"
    assume "\<exists>Q. links_ok s Q \<and> Q l = Some []" and J: "J xs s" and pop: "removeHead l s = Ret (None, s1)"
    then have "s1 = s" using removeHead_Nil(1) by fastforce
    with J show "J xs s1" by simp
  qed (use ok Ql in auto)
  then show ?thesis by (auto simp: J_def)
qed

lemma pushAll2_tasks:
  fixes h :: "'z tmem_scheme"
  assumes ok: "tasks_ok h Q" and lm: "l \<noteq> m" and Ql: "Q l = Some xs" and Qm: "Q m = Some ms"
  shows "\<exists>h'. pushAll2 l m h = Ret h' \<and> tasks_ok h' (Q(l \<mapsto> [], m \<mapsto> ms @ xs)) \<and>
    count_of h' = (count_of h)(l := count_of h l - of_nat (length xs),
                               m := count_of h m + of_nat (length xs)) \<and> link_frame h h'"
proof -
  let ?L = "locks_of h"
  have L: "?L l = Some (False, False)" "?L m = Some (False, False)"
    using tasks_ok_locks [OF ok] Ql Qm by auto
  obtain h1 where h1: "lock_head l h = Ret h1" "relock h h1 (?L(l \<mapsto> (True, False)))"
    using relock_ops(1) [OF L(1)] by auto
  obtain h2 where h2: "lock_tail l h1 = Ret h2" "relock h1 h2 (?L(l \<mapsto> (True, True)))"
    using relock_ops(2) [of h1 l True] relock_simps(1) [OF h1(2)] by auto
  obtain h3 where h3: "lock_head m h2 = Ret h3"
    "relock h2 h3 (?L(l \<mapsto> (True, True), m \<mapsto> (True, False)))"
    using relock_ops(1) [of h2 m False] relock_simps(1) [OF h2(2)] L lm by auto
  obtain h4 where h4: "lock_tail m h3 = Ret h4"
    "relock h3 h4 (?L(l \<mapsto> (True, True), m \<mapsto> (True, True)))"
    using relock_ops(2) [of h3 m True] relock_simps(1) [OF h3(2)] by auto
  note r4 = relock_simps [OF relock_trans [OF relock_trans [OF relock_trans [OF h1(2) h2(2)] h3(2)] h4(2)]]
  have ok4: "links_ok h4 Q" using ok r4(5) by auto
  obtain h5 where h5: "drain (removeHead l) (pushAll2_body l m) h4 = Ret h5"
    "links_ok h5 (Q(l \<mapsto> [], m \<mapsto> ms @ xs))"
    "count_of h5 = (count_of h)(l := count_of h l - of_nat (length xs),
                               m := count_of h m + of_nat (length xs))"
    "locks_of h5 = ?L(l \<mapsto> (True, True), m \<mapsto> (True, True))" "link_frame h4 h5"
    using pushAll2_loop [OF ok4 lm Ql Qm] r4 by auto
  obtain h6 where h6: "unlock_tail m h5 = Ret h6"
    "relock h5 h6 (?L(l \<mapsto> (True, True), m \<mapsto> (True, False)))"
    using relock_ops(4) [of h5 m True True] h5(4) by auto
  obtain h7 where h7: "unlock_head m h6 = Ret h7" "relock h6 h7 (?L(l \<mapsto> (True, True)))"
    using relock_ops(3) [of h6 m True False] relock_simps(1) [OF h6(2)] L(2) lm
    by (auto simp: fun_upd_idem fun_upd_twist)
  obtain h8 where h8: "unlock_tail l h7 = Ret h8" "relock h7 h8 (?L(l \<mapsto> (True, False)))"
    using relock_ops(4) [of h7 l True True] relock_simps(1) [OF h7(2)] by auto
  obtain h9 where h9: "unlock_head l h8 = Ret h9" "relock h8 h9 ?L"
    using relock_ops(3) [of h8 l True False] relock_simps(1) [OF h8(2)] L(1)
    by (auto simp: fun_upd_idem)
  note r9 = relock_simps [OF relock_trans [OF relock_trans [OF relock_trans [OF h6(2) h7(2)] h8(2)] h9(2)]]
  have "pushAll2 l m h = Ret h9"
    by (simp add: pushAll2_def h1(1) h2(1) h3(1) h4(1) h5(1) h6(1) h7(1) h8(1) h9(1))
  moreover have "tasks_ok h9 (Q(l \<mapsto> [], m \<mapsto> ms @ xs))"
    using h5(2) r9(1,5) ok by (simp add: tasks_ok_def unlocked_cong [of h9 h])
  moreover have "link_frame h h9"
    using r4(4) h5(5) r9(4) by (blast intro: link_frame_trans)
  ultimately show ?thesis using h5(3) r9(3) by auto
qed

text \<open>Moving a list into itself stops at its own mutex.\<close>

lemma pushAll2_self: "lists h l = Some q \<Longrightarrow> \<not> HeadMutex q \<Longrightarrow> \<not> TailMutex q \<Longrightarrow>
    pushAll2 l l h = Fail SelfDeadlock"
  by (simp add: pushAll2_def lock_head_def lock_tail_def)

text \<open>A list as a first-in first-out queue: its count is its length.\<close>

definition queue_rel :: "laddr \<Rightarrow> 'z tmem_scheme \<Rightarrow> addr list \<Rightarrow> bool" where
  "queue_rel l h xs \<longleftrightarrow> (\<exists>Q. tasks_ok h Q \<and> Q l = Some xs) \<and>
     count_of h l = of_nat (length xs) \<and> length xs < 2 ^ 32"

definition loose :: "addr \<Rightarrow> 'z tmem_scheme \<Rightarrow> bool" where
  "loose a h \<longleftrightarrow> items h a \<noteq> None \<and> detached (items h) a"

lemma links_ok_loose:
  "links_ok h Q \<Longrightarrow> items h a \<noteq> None \<Longrightarrow> (\<And>l xs. Q l = Some xs \<Longrightarrow> a \<notin> set xs) \<Longrightarrow> loose a h"
  unfolding loose_def by (meson links_ok_detached links_ok_ownD not_Some_eq)

lemma loose_not_in: "links_ok h Q \<Longrightarrow> loose a h \<Longrightarrow> Q l = Some xs \<Longrightarrow> a \<notin> set xs"
  by (auto simp: loose_def detached_def dest: links_ok_own)

lemma of_nat_u32_eq_0: "n < 2 ^ 32 \<Longrightarrow> (of_nat n :: u32) = 0 \<longleftrightarrow> n = 0"
  by (simp add: word_of_nat_eq_0_iff) (auto dest: dvd_imp_le)

interpretation tl: fifo "queue_rel l" "popHead l" loose "\<lambda>a. pushBack l (Some a)" "2 ^ 32 - 1" for l
proof
  fix h :: "'z tmem_scheme" and x xs
  assume rel: "queue_rel l h (x # xs)"
  then obtain Q where Q: "tasks_ok h Q" "Q l = Some (x # xs)" by (auto simp: queue_rel_def)
  have cnt: "count_of h l = of_nat (length (x # xs))" "length (x # xs) < 2 ^ 32"
    using rel by (auto simp: queue_rel_def)
  then have "count_of h l \<noteq> 0" using of_nat_u32_eq_0 [of "length (x # xs)"] by simp
  from popHead_Cons [OF Q this] obtain h' where h': "popHead l h = Ret (Some x, h')"
    "tasks_ok h' (Q(l \<mapsto> xs))" "count_of h' = (count_of h)(l := count_of h l - 1)" by blast
  then have "queue_rel l h' xs"
    using cnt by (auto simp: queue_rel_def intro!: exI [where x = "Q(l \<mapsto> xs)"])
  with h' show "\<exists>h'. popHead l h = Ret (Some x, h') \<and> queue_rel l h' xs" by blast
next
  fix h :: "'z tmem_scheme"
  assume rel: "queue_rel l h []"
  then obtain Q where Q: "tasks_ok h Q" "Q l = Some []" by (auto simp: queue_rel_def)
  from popHead_Nil [OF this] obtain h' where "popHead l h = Ret (None, h')" "tasks_ok h' Q"
    "count_of h' = count_of h" by blast
  with rel Q(2) show "\<exists>h'. popHead l h = Ret (None, h') \<and> queue_rel l h' []"
    by (auto simp: queue_rel_def)
next
  fix h :: "'z tmem_scheme" and x xs
  assume rel: "queue_rel l h xs" and x: "loose x h" and room: "length xs < 2 ^ 32 - 1"
  then obtain Q where Q: "tasks_ok h Q" "Q l = Some xs" by (auto simp: queue_rel_def)
  obtain t where t: "items h x = Some t" "detached (items h) x" using x by (auto simp: loose_def)
  from pushBack_tasks [OF Q t] obtain h' where h': "pushBack l (Some x) h = Ret h'"
    "tasks_ok h' (Q(l \<mapsto> xs @ [x]))" "count_of h' = (count_of h)(l := count_of h l + 1)" by blast
  then have "queue_rel l h' (xs @ [x])"
    using rel room
    by (auto simp: queue_rel_def algebra_simps intro!: exI [where x = "Q(l \<mapsto> xs @ [x])"])
  with h' show "\<exists>h'. pushBack l (Some x) h = Ret h' \<and> queue_rel l h' (xs @ [x])" by blast
next
  fix h h' :: "'z tmem_scheme" and x y xs
  assume rel: "queue_rel l h xs" and x: "loose x h" and y: "loose y h" and xy: "x \<noteq> y"
    and push: "pushBack l (Some x) h = Ret h'"
  then obtain Q where Q: "tasks_ok h Q" "Q l = Some xs" by (auto simp: queue_rel_def)
  obtain t where t: "items h x = Some t" "detached (items h) x" using x by (auto simp: loose_def)
  from pushBack_tasks [OF Q t] push have h': "tasks_ok h' (Q(l \<mapsto> xs @ [x]))" "link_frame h h'"
    by auto
  have "items h' y \<noteq> None" using y link_frame_None [OF h'(2)] by (auto simp: loose_def)
  then show "loose y h'"
    using h'(1) loose_not_in [OF tasks_ok_links [OF Q(1)] y] xy Q(2)
    by (auto intro!: links_ok_loose [of h' "Q(l \<mapsto> xs @ [x])"] split: if_splits)
qed

section \<open>Allocation and deletion\<close>

definition brk_ok :: "'z tmem_scheme \<Rightarrow> bool" where
  "brk_ok h \<longleftrightarrow> (\<forall>a \<ge> item_brk h. items h a = None) \<and> (\<forall>l \<ge> list_brk h. lists h l = None)"

lemma brk_ok_frame: "link_frame h h' \<Longrightarrow> brk_ok h \<Longrightarrow> brk_ok h'"
  unfolding brk_ok_def by (auto simp: link_frame_None [symmetric]) (auto simp: link_frame_def)

lemma TaskItem_New_tasks:
  assumes ok: "tasks_ok h Q" and brk: "brk_ok h" and new: "TaskItem_New h = (a, h')"
  shows "tasks_ok h' Q" and "brk_ok h'" and "items h a = None" and "items h' = (items h)(a \<mapsto> TaskItem_zero)"
    and "lists h' = lists h" and "tmem.more h' = tmem.more h" and "loose a h'" and "count_of h' = count_of h"
proof -
  have a: "a = item_brk h" and h': "h' = h\<lparr>items := (items h)(a \<mapsto> TaskItem_zero), item_brk := item_brk h + 1\<rparr>"
    using new by (auto simp: TaskItem_New_def)
  show fresh: "items h a = None" using a brk by (simp add: brk_ok_def)
  then have own_a: "own (items h) a = None" by (simp add: own_def)
  show its: "items h' = (items h)(a \<mapsto> TaskItem_zero)" and ls: "lists h' = lists h"
    and "tmem.more h' = tmem.more h" and "count_of h' = count_of h"
    by (simp_all add: h' count_of_def fun_eq_iff)
  show "loose a h'" by (simp add: loose_def its detached_def TaskItem_zero_def)
  have "list_ok (items h') l q xs = list_ok (items h) l q xs" if "Q l = Some xs" for l q xs
    using links_ok_own [OF tasks_ok_links [OF ok] that] own_a its by (intro list_ok_cong) auto
  then have "rel_option (list_ok (items h') l) (lists h' l) (Q l)" for l
    using ok ls by (auto simp: tasks_ok_def links_ok_def elim!: option.rel_cases [of _ "lists h l" "Q l"] dest!: spec [where x = l])
  moreover have "detached (items h') x" if "own (items h') x = None" for x
    using that its tasks_ok_links [OF ok] by (auto simp: links_ok_def detached_def TaskItem_zero_def)
  moreover have "\<exists>xs. Q l = Some xs \<and> x \<in> set xs" if "own (items h') x = Some l" for x l
    using that its links_ok_ownD [OF tasks_ok_links [OF ok]] by (auto simp: TaskItem_zero_def split: if_splits)
  ultimately show "tasks_ok h' Q"
    using ok ls by (auto simp: tasks_ok_def links_ok_def unlocked_def)
  show "brk_ok h'" using brk by (auto simp: brk_ok_def h' a)
qed

lemma TaskItemsList_New_tasks:
  assumes ok: "tasks_ok h Q" and brk: "brk_ok h" and new: "TaskItemsList_New h = (l, h')"
  shows "tasks_ok h' (Q(l \<mapsto> []))" and "brk_ok h'" and "lists h l = None" and "Q l = None"
    and "items h' = items h" and "count_of h' = count_of h" and "tmem.more h' = tmem.more h"
    and "dom (lists h') = insert l (dom (lists h))"
proof -
  let ?q = "\<lparr>HeadMutex = False, TailMutex = False, tl_head = None, tl_tail = None, ItemCount = 0\<rparr>"
  have l: "l = list_brk h" and h': "h' = h\<lparr>lists := (lists h)(l \<mapsto> ?q), list_brk := list_brk h + 1\<rparr>"
    using new by (auto simp: TaskItemsList_New_def)
  show fresh: "lists h l = None" using l brk by (simp add: brk_ok_def)
  show Ql: "Q l = None" using links_ok_list_iff [OF tasks_ok_links [OF ok]] fresh by blast
  show "items h' = items h" and "tmem.more h' = tmem.more h" and "count_of h' = count_of h"
    and "dom (lists h') = insert l (dom (lists h))"
    using fresh by (simp_all add: h' count_of_def fun_eq_iff)
  have "links_ok h' (Q(l \<mapsto> []))"
  proof (rule links_okI)
    show "rel_option (list_ok (items h') k) (lists h' k) ((Q(l \<mapsto> [])) k)" for k
      using links_ok_rel [OF tasks_ok_links [OF ok], of k] by (simp add: h')
    show "\<exists>xs. (Q(l \<mapsto> [])) k = Some xs \<and> a \<in> set xs" if own: "own (items h') a = Some k" for a k
    proof -
      obtain xs where "Q k = Some xs" "a \<in> set xs"
        using links_ok_ownD [OF tasks_ok_links [OF ok], of a k] own by (auto simp: h')
      with Ql show ?thesis by auto
    qed
    show "detached (items h') a" if "own (items h') a = None" for a
      using links_ok_detached [OF tasks_ok_links [OF ok]] that by (simp add: h')
  qed
  then show "tasks_ok h' (Q(l \<mapsto> []))"
    using ok by (auto simp: tasks_ok_def unlocked_def h')
  show "brk_ok h'" using brk by (auto simp: brk_ok_def h' l)
qed

lemma TaskItem_Delete_links:
  assumes ok: "links_ok h Q" and a: "loose a h"
  shows "\<exists>h'. TaskItem_Delete (Some a) h = Ret h' \<and> links_ok h' Q \<and>
    items h' = (items h)(a := None) \<and> lists h' = lists h \<and> item_brk h' = item_brk h \<and>
    list_brk h' = list_brk h \<and> tmem.more h' = tmem.more h"
proof -
  let ?h = "h\<lparr>items := (items h)(a := None)\<rparr>"
  have "list_ok (items ?h) l q xs = list_ok (items h) l q xs" if "Q l = Some xs" for l q xs
    using loose_not_in [OF ok a that] by (intro list_ok_cong) auto
  then have "rel_option (list_ok (items ?h) l) (lists ?h l) (Q l)" for l
    using ok by (auto simp: links_ok_def elim!: option.rel_cases [of _ "lists h l" "Q l"] dest!: spec [where x = l])
  moreover have "detached (items ?h) x" if "own (items ?h) x = None" for x
    using that ok by (auto simp: links_ok_def detached_def)
  ultimately have "links_ok ?h Q"
    using links_ok_ownD [OF ok] by (auto simp: links_ok_def split: if_splits)
  moreover have "TaskItem_Delete (Some a) h = Ret ?h"
    using a by (auto simp: TaskItem_Delete_def loose_def)
  ultimately show ?thesis by auto
qed

lemma links_ok_drop_list:
  assumes ok: "links_ok h Q" and Ql: "Q l = Some []"
  shows "links_ok (h\<lparr>lists := (lists h)(l := None)\<rparr>) (Q(l := None))"
proof (rule links_okI)
  show "rel_option (list_ok (items (h\<lparr>lists := (lists h)(l := None)\<rparr>)) k)
      (lists (h\<lparr>lists := (lists h)(l := None)\<rparr>) k) ((Q(l := None)) k)" for k
    using links_ok_rel [OF ok, of k] by simp
  show "\<exists>xs. (Q(l := None)) k = Some xs \<and> a \<in> set xs"
    if own: "own (items (h\<lparr>lists := (lists h)(l := None)\<rparr>)) a = Some k" for a k
  proof -
    obtain xs where "Q k = Some xs" "a \<in> set xs"
      using links_ok_ownD [OF ok, of a k] own by auto
    with Ql show ?thesis by auto
  qed
qed (use links_ok_detached [OF ok] in simp)

text \<open>Deleting an empty list, as \<open>Deal\<close> does: only the list goes.\<close>

lemma TaskItemsList_Delete_Nil:
  assumes ok: "tasks_ok h Q" and Ql: "Q l = Some []"
  shows "\<exists>h'. TaskItemsList_Delete l h = Ret h' \<and> tasks_ok h' (Q(l := None)) \<and>
    items h' = items h \<and> tmem.more h' = tmem.more h \<and>
    item_brk h' = item_brk h \<and> list_brk h' = list_brk h \<and>
    dom (lists h') = dom (lists h) - {l} \<and> count_of h' = (count_of h)(l := 0)"
proof -
  let ?L = "locks_of h"
  have L: "?L l = Some (False, False)" by (rule tasks_ok_locks [OF ok Ql])
  obtain h1 where h1: "lock_head l h = Ret h1" "relock h h1 (?L(l \<mapsto> (True, False)))"
    using relock_ops(1) [OF L] by auto
  obtain h2 where h2: "lock_tail l h1 = Ret h2" "relock h1 h2 (?L(l \<mapsto> (True, True)))"
    using relock_ops(2) [of h1 l True] relock_simps(1) [OF h1(2)] by auto
  obtain h3 where h3: "unlock_tail l h2 = Ret h3" "relock h2 h3 (?L(l \<mapsto> (True, False)))"
    using relock_ops(4) [of h2 l True True] relock_simps(1) [OF h2(2)] by auto
  obtain h4 where h4: "unlock_head l h3 = Ret h4" "relock h3 h4 ?L"
    using relock_ops(3) [of h3 l True False] relock_simps(1) [OF h3(2)] L
    by (auto simp: fun_upd_idem)
  note r4 = relock_simps [OF relock_trans [OF relock_trans [OF relock_trans [OF h1(2) h2(2)] h3(2)] h4(2)]]
  have ok4: "links_ok h4 Q" using ok r4(5) by auto
  obtain q where q: "lists h4 l = Some q" using ok4 Ql by (rule links_ok_listD)
  have "drain (removeTail l) (\<lambda>t. TaskItem_Delete (Some t)) h4 = Ret h4"
    using removeHead_Nil(2) [OF ok4 Ql] by (simp add: drain.simps)
  then have "TaskItemsList_Delete l h = Ret (h4\<lparr>lists := (lists h4)(l := None)\<rparr>)"
    using h1(1) h2(1) h3(1) h4(1) q links_ok_Nil [OF ok4 Ql q]
    by (simp add: TaskItemsList_Delete_def TaskItem_Delete_def)
  moreover have "links_ok (h4\<lparr>lists := (lists h4)(l := None)\<rparr>) (Q(l := None))"
    using ok4 Ql by (rule links_ok_drop_list)
  moreover have "unlocked h4" using ok r4(1) unlocked_cong [of h4 h] by (simp add: tasks_ok_def)
  moreover have "count_of (h4\<lparr>lists := (lists h4)(l := None)\<rparr>) = (count_of h)(l := 0)"
    using r4(3) by (auto simp: count_of_def fun_eq_iff)
  moreover have "dom (lists h4) = dom (lists h)" "item_brk h4 = item_brk h"
    "list_brk h4 = list_brk h" "tmem.more h4 = tmem.more h"
    using r4(4) by (simp_all add: link_frame_def)
  ultimately show ?thesis using r4(2)
    by (intro exI [where x = "h4\<lparr>lists := (lists h4)(l := None)\<rparr>"])
      (simp add: tasks_ok_def unlocked_def)
qed

lemma RemoveSelf_Save_tasks:
  assumes ok: "tasks_ok h Q" and Ql: "Q l = Some (ys @ a # zs)"
  shows "\<exists>h'. RemoveSelfFromOwnerlink_Save (Some a) h = Ret (Some a, h') \<and>
    tasks_ok h' (Q(l \<mapsto> ys @ zs)) \<and> loose a h' \<and> count_of h' = count_of h \<and> link_frame h h'"
proof -
  let ?L = "locks_of h"
  have L: "?L l = Some (False, False)" by (rule tasks_ok_locks [OF ok Ql])
  obtain t where t: "items h a = Some t" "ti_owner t = Some l"
    using links_ok_member [OF tasks_ok_links [OF ok] Ql, of a] by auto
  obtain h1 where h1: "lock_head l h = Ret h1" "relock h h1 (?L(l \<mapsto> (True, False)))"
    using relock_ops(1) [OF L] by auto
  obtain h2 where h2: "unlock_head l h1 = Ret h2" "relock h1 h2 ?L"
    using relock_ops(3) [of h1 l True False] relock_simps(1) [OF h1(2)] L by (auto simp: fun_upd_idem)
  obtain h3 where h3: "lock_tail l h2 = Ret h3" "relock h2 h3 (?L(l \<mapsto> (False, True)))"
    using relock_ops(2) [of h2 l False] relock_simps(1) [OF h2(2)] L by auto
  obtain h4 where h4: "unlock_tail l h3 = Ret h4" "relock h3 h4 ?L"
    using relock_ops(4) [of h3 l False True] relock_simps(1) [OF h3(2)] L by (auto simp: fun_upd_idem)
  note r4 = relock_simps [OF relock_trans [OF relock_trans [OF relock_trans [OF h1(2) h2(2)] h3(2)] h4(2)]]
  have ok4: "links_ok h4 Q" using ok r4(5) by auto
  obtain h5 where h5: "RemoveSelfFromOwnerlink (Some a) h4 = Ret (Some a, h5)"
    "links_ok h5 (Q(l \<mapsto> ys @ zs))" "detached (items h5) a" "count_of h5 = count_of h"
    "locks_of h5 = ?L" "link_frame h4 h5"
    using RemoveSelf_links [OF ok4 Ql] r4 by auto
  have "RemoveSelfFromOwnerlink_Save (Some a) h = Ret (Some a, h5)"
    using t h1(1) h2(1) h3(1) h4(1) h5(1) by (simp add: RemoveSelfFromOwnerlink_Save_def)
  moreover have fr: "link_frame h h5" using r4(4) h5(6) by (rule link_frame_trans)
  moreover have "items h5 a \<noteq> None" using t link_frame_None [OF fr, of a] by auto
  ultimately show ?thesis
    using h5 ok by (simp add: tasks_ok_def unlocked_cong [of h5 h] loose_def)
qed

section \<open>A concrete heap\<close>

text \<open>
  The list 0 holds the items 10, 11 and 12; the list 1 is empty; the items 13 and 14 are in
  no list. The witnesses below run on it.
\<close>

definition ex_item :: "addr option \<Rightarrow> addr option \<Rightarrow> laddr option \<Rightarrow> rid \<Rightarrow> TaskItem" where
  "ex_item p n l r = TaskItem_zero\<lparr>ti_prev := p, ti_next := n, ti_owner := l, ti_self := Some r\<rparr>"

definition ex_list :: "addr option \<Rightarrow> addr option \<Rightarrow> u32 \<Rightarrow> TaskItemsList" where
  "ex_list f b n = \<lparr>HeadMutex = False, TailMutex = False, tl_head = f, tl_tail = b, ItemCount = n\<rparr>"

definition ex_heap :: tmem where
  "ex_heap = \<lparr>items = [10 \<mapsto> ex_item None (Some 11) (Some 0) 1,
      11 \<mapsto> ex_item (Some 10) (Some 12) (Some 0) 2, 12 \<mapsto> ex_item (Some 11) None (Some 0) 3,
      13 \<mapsto> ex_item None None None 4, 14 \<mapsto> ex_item None None None 5],
    lists = [0 \<mapsto> ex_list (Some 10) (Some 12) 3, 1 \<mapsto> ex_list None None 0],
    item_brk = 15, list_brk = 2\<rparr>"

definition ex_Q :: "laddr \<Rightarrow> addr list option" where
  "ex_Q = [0 \<mapsto> [10, 11, 12], 1 \<mapsto> []]"

lemma ex_items_simps [simp]:
  "ti_prev (ex_item p n l r) = p" "ti_next (ex_item p n l r) = n" "ti_owner (ex_item p n l r) = l"
  "ti_self (ex_item p n l r) = Some r"
  "tl_head (ex_list a b c) = a" "tl_tail (ex_list a b c) = b" "ItemCount (ex_list a b c) = c"
  "\<not> HeadMutex (ex_list a b c)" "\<not> TailMutex (ex_list a b c)"
  by (simp_all add: ex_item_def ex_list_def)

lemma links_empty [simp]: "nxt Map.empty = Map.empty" "prv Map.empty = Map.empty" "own Map.empty = Map.empty"
  by (auto simp: nxt_def prv_def own_def)

lemma ex_heap_ok: "tasks_ok ex_heap ex_Q"
proof -
  have "links_ok ex_heap ex_Q"
    by (rule links_okI)
      (auto simp: ex_heap_def ex_Q_def list_ok_def detached_def split: if_splits)
  moreover have "unlocked ex_heap" by (auto simp: unlocked_def ex_heap_def split: if_splits)
  ultimately show ?thesis by (simp add: tasks_ok_def)
qed

lemma ex_heap_loose: "loose 13 ex_heap" "loose 14 ex_heap"
  by (simp_all add: loose_def detached_def ex_heap_def)

lemma ex_heap_count: "count_of ex_heap 0 = 3" "count_of ex_heap 1 = 0"
  by (simp_all add: count_of_def ex_heap_def)

section \<open>Properties\<close>

text \<open>
  C14: a task list is a first-in first-out queue. Pushing detached items with \<open>pushBack\<close> on an
  empty list and popping as many with \<open>popHead\<close> returns them in the order they were pushed,
  and leaves the list empty with its count at zero and its mutexes free.
\<close>

theorem task_list_fifo:
  assumes "queue_rel l h []" and "distinct as" and "\<And>a. a \<in> set as \<Longrightarrow> loose a h"
    and "length as \<le> 2 ^ 32 - 1"
  shows "\<exists>h'. pbind (push_list (\<lambda>a. pushBack l (Some a)) as h) (pop_times (popHead l) (length as)) =
    Ret (map Some as, h') \<and> queue_rel l h' []"
  using assms by (rule tl.push_list_pop_times)

theorem task_list_fifo_witness:
  "\<exists>h'. pbind (push_list (\<lambda>a. pushBack 1 (Some a)) [14, 13] ex_heap)
      (pop_times (popHead 1) (length [14, 13 :: nat])) = Ret (map Some [14, 13], h') \<and> queue_rel 1 h' []"
proof (rule task_list_fifo)
  show "queue_rel 1 ex_heap []"
    using ex_heap_ok ex_heap_count by (auto simp: queue_rel_def ex_Q_def)
qed (use ex_heap_loose in auto)

text \<open>
  C15: \<open>RemoveSelfFromOwnerlink\<close> takes an item out of its list at any position (only item,
  head, tail, inner): the others keep their order, the item comes out detached, every other
  list, every payload, every count and every mutex stays as it was.
\<close>

theorem remove_at_any_position:
  assumes "tasks_ok h Q" and "Q l = Some (ys @ a # zs)"
  shows "\<exists>h'. RemoveSelfFromOwnerlink (Some a) h = Ret (Some a, h') \<and>
    tasks_ok h' (Q(l \<mapsto> ys @ zs)) \<and> loose a h' \<and> count_of h' = count_of h \<and> link_frame h h'"
proof -
  obtain t where t: "items h a = Some t"
    using links_ok_member [OF tasks_ok_links [OF assms(1)] assms(2), of a] by auto
  obtain h' where h': "RemoveSelfFromOwnerlink (Some a) h = Ret (Some a, h')"
    "links_ok h' (Q(l \<mapsto> ys @ zs))" "detached (items h') a" "count_of h' = count_of h"
    "locks_of h' = locks_of h" "link_frame h h'"
    using RemoveSelf_links [OF tasks_ok_links [OF assms(1)] assms(2)] by blast
  moreover have "items h' a \<noteq> None" using t link_frame_None [OF h'(6), of a] by auto
  ultimately show ?thesis
    using assms(1) by (simp add: tasks_ok_def unlocked_cong [of h' h] loose_def)
qed

theorem remove_at_any_position_witness:
  "\<exists>h'. RemoveSelfFromOwnerlink (Some 11) ex_heap = Ret (Some 11, h') \<and>
    tasks_ok h' (ex_Q(0 \<mapsto> [10] @ [12])) \<and> loose 11 h' \<and> count_of h' = count_of ex_heap \<and>
    link_frame ex_heap h'"
  by (rule remove_at_any_position [OF ex_heap_ok]) (simp add: ex_Q_def)

text \<open>
  C16: \<open>pushAll2\<close> returns, and moves the whole content of one list, in order, behind the
  content of the other; nothing else changes.
\<close>

theorem pushAll2_moves_all:
  fixes h :: "'z tmem_scheme"
  assumes "tasks_ok h Q" and "l \<noteq> m" and "Q l = Some xs" and "Q m = Some ms"
  shows "\<exists>h'. pushAll2 l m h = Ret h' \<and> tasks_ok h' (Q(l \<mapsto> [], m \<mapsto> ms @ xs)) \<and>
    count_of h' = (count_of h)(l := count_of h l - of_nat (length xs),
                               m := count_of h m + of_nat (length xs)) \<and> link_frame h h'"
  using assms by (rule pushAll2_tasks)

theorem pushAll2_moves_all_witness:
  "\<exists>h'. pushAll2 0 1 ex_heap = Ret h' \<and> tasks_ok h' (ex_Q(0 \<mapsto> [], 1 \<mapsto> [] @ [10, 11, 12])) \<and>
    count_of h' = (count_of ex_heap)(0 := count_of ex_heap 0 - of_nat (length [10::nat, 11, 12]),
      1 := count_of ex_heap 1 + of_nat (length [10::nat, 11, 12])) \<and> link_frame ex_heap h'"
  by (rule pushAll2_moves_all [OF ex_heap_ok]) (simp_all add: ex_Q_def)

text \<open>
  \<open>RemoveSelfFromOwnerlink_Save\<close> unlinks the item but leaves \<open>ItemCount\<close> alone: a list
  whose count was its length is left with a count one too high.
\<close>

theorem save_removal_overcounts:
  assumes "tasks_ok h Q" and "Q l = Some (ys @ a # zs)"
    and "count_of h l = of_nat (length (ys @ a # zs))"
  shows "\<exists>h'. RemoveSelfFromOwnerlink_Save (Some a) h = Ret (Some a, h') \<and>
    tasks_ok h' (Q(l \<mapsto> ys @ zs)) \<and> count_of h' l = of_nat (length (ys @ zs)) + 1"
  using RemoveSelf_Save_tasks [OF assms(1,2)] assms(3) by (auto simp: algebra_simps)

theorem save_removal_overcounts_witness:
  "\<exists>h'. RemoveSelfFromOwnerlink_Save (Some 12) ex_heap = Ret (Some 12, h') \<and>
    tasks_ok h' (ex_Q(0 \<mapsto> [10, 11] @ [])) \<and> count_of h' 0 = of_nat (length ([10, 11] @ [] :: nat list)) + 1"
  by (rule save_removal_overcounts [OF ex_heap_ok]) (simp_all add: ex_Q_def ex_heap_count)

end
