(* ===== verification/Ep_Timer.thy ===== *)
theory Ep_Timer
  imports Task_Items
begin

text \<open>
  The timer wheel of \<open>b_epoll.h\<close> and \<open>b_epoll.cc\<close>: an array of task lists, one per
  millisecond. \<open>getBucket\<close> picks the list of a timeout and \<open>NewMergeUpdate2Now\<close> collects
  what has come due. The wheel is 64-bit arithmetic throughout.
\<close>

section \<open>The wheel\<close>

definition TIMEWAITSECONDS_S :: nat where
  "TIMEWAITSECONDS_S = 30"

record bEpTimer =
  TaskItemBucket :: "laddr list"
  TaskItemBucketSize :: u64
  LastCheckTime :: u64
  BucketPosNow :: u64

text \<open>The loop that fills the array, and the constructor at the time \<open>now\<close>.\<close>

fun new_buckets :: "nat \<Rightarrow> 'z tmem_scheme \<Rightarrow> laddr list \<times> 'z tmem_scheme" where
  "new_buckets 0 h = ([], h)"
| "new_buckets (Suc n) h =
     (let (l, h) = TaskItemsList_New h; (ls, h) = new_buckets n h in (l # ls, h))"

definition bEpTimer_New :: "u64 \<Rightarrow> 'z tmem_scheme \<Rightarrow> bEpTimer \<times> 'z tmem_scheme" where
  "bEpTimer_New now h =
     (let (bs, h) = new_buckets (1000 * TIMEWAITSECONDS_S) h in
      (\<lparr>TaskItemBucket = bs, TaskItemBucketSize = of_nat (1000 * TIMEWAITSECONDS_S),
        LastCheckTime = now, BucketPosNow = 0\<rparr>, h))"

definition getBucket :: "u64 \<Rightarrow> bEpTimer \<Rightarrow> laddr prog" where
  "getBucket ms_want t =
     (let ms_want = (if ms_want > TaskItemBucketSize t then TaskItemBucketSize t else ms_want) in
      if TaskItemBucketSize t = 0 then Fail DivByZero
      else nth_at (TaskItemBucket t)
             (unat ((BucketPosNow t + ms_want) mod TaskItemBucketSize t)))"

text \<open>
  The scan \<open>for (i = BucketPosNow + 1; i <= target_pos; i = (i + 1) % TaskItemBucketSize)\<close>.
\<close>

partial_function (option) merge_loop ::
    "bEpTimer \<Rightarrow> u64 \<Rightarrow> laddr \<Rightarrow> u64 \<Rightarrow> 'z tmem_scheme \<Rightarrow> 'z tmem_scheme prog" where
  "merge_loop t target_pos result i h =
     (if i \<le> target_pos then
        pbind (nth_at (TaskItemBucket t) (unat i)) (\<lambda>b.
        pbind (pushAll2 b result h) (\<lambda>h.
        merge_loop t target_pos result ((i + 1) mod TaskItemBucketSize t) h))
      else Ret h)"

definition target_pos :: "u64 \<Rightarrow> bEpTimer \<Rightarrow> u64" where
  "target_pos now t = (now - LastCheckTime t + BucketPosNow t) mod TaskItemBucketSize t"

definition NewMergeUpdate2Now ::
    "u64 \<Rightarrow> bEpTimer \<Rightarrow> 'z tmem_scheme \<Rightarrow> (laddr \<times> bEpTimer \<times> 'z tmem_scheme) prog" where
  "NewMergeUpdate2Now now t h =
     (let (result, h) = TaskItemsList_New h in
      if TaskItemBucketSize t = 0 then Fail DivByZero
      else
        pbind (merge_loop t (target_pos now t) result (BucketPosNow t + 1) h) (\<lambda>h.
        Ret (result, t\<lparr>BucketPosNow := target_pos now t, LastCheckTime := now\<rparr>, h)))"

section \<open>Well-formed wheels\<close>

definition timer_ok :: "bEpTimer \<Rightarrow> (laddr \<Rightarrow> addr list option) \<Rightarrow> bool" where
  "timer_ok t Q \<longleftrightarrow> length (TaskItemBucket t) = unat (TaskItemBucketSize t) \<and>
     BucketPosNow t < TaskItemBucketSize t \<and> unat (TaskItemBucketSize t) < 2 ^ 63 \<and>
     distinct (TaskItemBucket t) \<and> (\<forall>b \<in> set (TaskItemBucket t). Q b \<noteq> None)"

abbreviation wheel_size :: "bEpTimer \<Rightarrow> nat" where
  "wheel_size t \<equiv> unat (TaskItemBucketSize t)"

abbreviation wheel_pos :: "bEpTimer \<Rightarrow> nat" where
  "wheel_pos t \<equiv> unat (BucketPosNow t)"

lemma timer_ok_size: "timer_ok t Q \<Longrightarrow> wheel_pos t < wheel_size t"
  by (simp add: timer_ok_def word_less_nat_alt)

lemma timer_ok_nz: "timer_ok t Q \<Longrightarrow> TaskItemBucketSize t \<noteq> 0"
  by (auto simp: timer_ok_def)

lemma unat_succ: "unat (i :: u64) < n \<Longrightarrow> n < 2 ^ 63 \<Longrightarrow> unat (i + 1) = unat i + 1"
  by (simp add: unat_word_ariths)

lemma target_pos_less: "timer_ok t Q \<Longrightarrow> unat (target_pos now t) < wheel_size t"
  using timer_ok_nz [of t Q] by (simp add: target_pos_def unat_mod_distrib unat_gt_0)

subsection \<open>Choosing a bucket\<close>

lemma getBucket_index:
  assumes "timer_ok t Q"
  shows "getBucket ms t = Ret (TaskItemBucket t !
    ((wheel_pos t + min (unat ms) (wheel_size t)) mod wheel_size t))"
proof -
  let ?m = "if ms > TaskItemBucketSize t then TaskItemBucketSize t else ms"
  have m: "unat ?m = min (unat ms) (wheel_size t)"
    by (auto simp: word_less_nat_alt)
  have sz: "wheel_pos t < wheel_size t" "wheel_size t < 2 ^ 63" "length (TaskItemBucket t) = wheel_size t"
    using assms timer_ok_size by (auto simp: timer_ok_def)
  then have "unat (BucketPosNow t + ?m) = wheel_pos t + unat ?m"
    unfolding m by (simp add: unat_word_ariths m)
  then have "unat ((BucketPosNow t + ?m) mod TaskItemBucketSize t) =
      (wheel_pos t + min (unat ms) (wheel_size t)) mod wheel_size t"
    by (simp only: unat_mod_distrib m)
  with sz timer_ok_nz [OF assms] show ?thesis
    by (simp add: getBucket_def Let_def)
qed

section \<open>What a scan collects\<close>

text \<open>Moving the buckets \<open>bs\<close> behind the list \<open>r\<close>, on the sequences the lists stand for.\<close>

definition move_bucket ::
    "laddr \<Rightarrow> laddr \<Rightarrow> (laddr \<Rightarrow> addr list option) \<Rightarrow> (laddr \<Rightarrow> addr list option)" where
  "move_bucket r b Q = Q(b \<mapsto> [], r \<mapsto> the (Q r) @ the (Q b))"

definition move_buckets ::
    "laddr \<Rightarrow> laddr list \<Rightarrow> (laddr \<Rightarrow> addr list option) \<Rightarrow> (laddr \<Rightarrow> addr list option)" where
  "move_buckets r bs Q = fold (move_bucket r) bs Q"

lemma move_buckets_simps [simp]:
  "move_buckets r [] Q = Q"
  "move_buckets r (b # bs) Q = move_buckets r bs (move_bucket r b Q)"
  by (simp_all add: move_buckets_def)

lemma move_buckets_apply:
  assumes "r \<notin> set bs" and "distinct bs" and "Q r = Some ms"
  shows "move_buckets r bs Q r = Some (ms @ concat (map (\<lambda>b. the (Q b)) bs)) \<and>
    (\<forall>b. b \<noteq> r \<longrightarrow> move_buckets r bs Q b = (if b \<in> set bs then Some [] else Q b))"
  using assms
proof (induction bs arbitrary: Q ms)
  case Nil
  then show ?case by simp
next
  case (Cons c bs)
  let ?Q = "move_bucket r c Q"
  have "?Q r = Some (ms @ the (Q c))" using Cons.prems(3) by (simp add: move_bucket_def)
  from Cons.IH [of ?Q, OF _ _ this] Cons.prems(1,2)
  have IH: "move_buckets r bs ?Q r = Some ((ms @ the (Q c)) @ concat (map (\<lambda>b. the (?Q b)) bs))"
    "\<And>b. b \<noteq> r \<Longrightarrow> move_buckets r bs ?Q b = (if b \<in> set bs then Some [] else ?Q b)" by auto
  moreover have "map (\<lambda>b. the (?Q b)) bs = map (\<lambda>b. the (Q b)) bs"
    using Cons.prems(1,2) by (auto simp: move_bucket_def)
  moreover have "?Q b = (if b = c then Some [] else Q b)" if "b \<noteq> r" for b
    using that by (simp add: move_bucket_def)
  ultimately show ?case by simp
qed

lemma move_buckets_Some: "Q b = Some xs \<Longrightarrow> \<exists>ys. move_buckets r bs Q b = Some ys"
proof (induction bs arbitrary: Q xs)
  case (Cons c bs)
  have "\<exists>ys. move_bucket r c Q b = Some ys" using Cons.prems by (simp add: move_bucket_def)
  with Cons.IH show ?case by auto
qed simp

lemma timer_ok_move: "timer_ok t Q \<Longrightarrow> timer_ok t (move_buckets r bs Q)"
  unfolding timer_ok_def using move_buckets_Some [of Q _ _ r bs] by (metis not_None_eq)

text \<open>One turn of the scan.\<close>

lemma scan_bucket:
  assumes ok: "tasks_ok h Q" and t: "timer_ok t Q" and r: "r \<notin> set (TaskItemBucket t)"
    and Qr: "Q r = Some ms" and i: "unat i < wheel_size t"
  shows "\<exists>h'. nth_at (TaskItemBucket t) (unat i) = Ret (TaskItemBucket t ! unat i) \<and>
    pushAll2 (TaskItemBucket t ! unat i) r h = Ret h' \<and>
    tasks_ok h' (move_bucket r (TaskItemBucket t ! unat i) Q) \<and> link_frame h h' \<and>
    count_of h' r = count_of h r + of_nat (length (the (Q (TaskItemBucket t ! unat i)))) \<and>
    (\<forall>l. l \<notin> set (TaskItemBucket t) \<longrightarrow> l \<noteq> r \<longrightarrow> count_of h' l = count_of h l)"
proof -
  let ?b = "TaskItemBucket t ! unat i"
  have i': "unat i < length (TaskItemBucket t)" using i t by (simp add: timer_ok_def)
  then have mem: "?b \<in> set (TaskItemBucket t)" by (rule nth_mem)
  then obtain xs where xs: "Q ?b = Some xs" using t by (auto simp: timer_ok_def)
  have "?b \<noteq> r" using mem r by auto
  from pushAll2_tasks [OF ok this xs Qr] i' xs Qr mem show ?thesis by (auto simp: move_bucket_def)
qed

lemma merge_loop_stop: "\<not> i \<le> T \<Longrightarrow> merge_loop t T r i h = Ret h"
  by (subst merge_loop.simps) simp

lemma merge_loop_step:
  assumes "i \<le> T" and "nth_at (TaskItemBucket t) (unat i) = Ret b" and "pushAll2 b r h = Ret h'"
  shows "merge_loop t T r i h = merge_loop t T r ((i + 1) mod TaskItemBucketSize t) h'"
  using assms by (subst merge_loop.simps) simp

lemma succ_mod:
  assumes "timer_ok t Q" and "unat i + 1 < wheel_size t"
  shows "unat ((i + 1) mod TaskItemBucketSize t) = unat i + 1"
  using assms unat_succ [of i "wheel_size t"] by (simp add: unat_mod_distrib timer_ok_def)

text \<open>Below the last bucket the scan visits every bucket up to the target once, and returns.\<close>

lemma merge_loop_run:
  fixes h :: "'z tmem_scheme"
  assumes "tasks_ok h Q" and "timer_ok t Q" and "r \<notin> set (TaskItemBucket t)" and "Q r = Some ms"
    and "unat i + k = unat T + 1" and "unat T + 1 < wheel_size t"
  shows "\<exists>h'. merge_loop t T r i h = Ret h' \<and> link_frame h h' \<and>
    tasks_ok h' (move_buckets r (map ((!) (TaskItemBucket t)) [unat i ..< unat T + 1]) Q) \<and>
    (count_of h r = of_nat (length ms) \<longrightarrow> count_of h' r = of_nat (length
      (the (move_buckets r (map ((!) (TaskItemBucket t)) [unat i ..< unat T + 1]) Q r)))) \<and>
    (\<forall>l. l \<notin> set (TaskItemBucket t) \<longrightarrow> l \<noteq> r \<longrightarrow> count_of h' l = count_of h l)"
  using assms
proof (induction k arbitrary: i h Q ms)
  case 0
  then have "\<not> i \<le> T" by (simp add: word_le_nat_alt)
  with 0 show ?case by (simp add: merge_loop_stop)
next
  case (Suc k)
  let ?b = "TaskItemBucket t ! unat i" and ?i = "(i + 1) mod TaskItemBucketSize t"
  have le: "i \<le> T" and i: "unat i < wheel_size t" and i1: "unat ?i = unat i + 1"
    using Suc.prems succ_mod [OF Suc.prems(2), of i] by (simp_all add: word_le_nat_alt)
  obtain h1 where h1: "nth_at (TaskItemBucket t) (unat i) = Ret ?b" "pushAll2 ?b r h = Ret h1"
    "tasks_ok h1 (move_bucket r ?b Q)" "link_frame h h1"
    "count_of h1 r = count_of h r + of_nat (length (the (Q ?b)))"
    "\<And>l. l \<notin> set (TaskItemBucket t) \<Longrightarrow> l \<noteq> r \<Longrightarrow> count_of h1 l = count_of h l"
    using scan_bucket [OF Suc.prems(1-4) i] by blast
  have t1: "timer_ok t (move_bucket r ?b Q)"
    using timer_ok_move [OF Suc.prems(2), of r "[?b]"] by simp
  have r1: "move_bucket r ?b Q r = Some (ms @ the (Q ?b))"
    using Suc.prems(4) by (simp add: move_bucket_def)
  have "\<exists>h'. merge_loop t T r ?i h1 = Ret h' \<and> link_frame h1 h' \<and>
      tasks_ok h' (move_buckets r (map ((!) (TaskItemBucket t)) [unat ?i ..< unat T + 1])
        (move_bucket r ?b Q)) \<and>
      (count_of h1 r = of_nat (length (ms @ the (Q ?b))) \<longrightarrow> count_of h' r = of_nat (length
        (the (move_buckets r (map ((!) (TaskItemBucket t)) [unat ?i ..< unat T + 1]) (move_bucket r ?b Q) r)))) \<and>
      (\<forall>l. l \<notin> set (TaskItemBucket t) \<longrightarrow> l \<noteq> r \<longrightarrow> count_of h' l = count_of h1 l)"
    using Suc.prems(5,6) by (intro Suc.IH [OF h1(3) t1 Suc.prems(3) r1]) (simp_all add: i1)
  moreover have "[unat i ..< unat T + 1] = unat i # [unat ?i ..< unat T + 1]"
    using le by (simp add: i1 upt_conv_Cons word_le_nat_alt)
  ultimately show ?case
    using merge_loop_step [OF le h1(1,2)] h1(4-6) by (auto intro: link_frame_trans)
qed

text \<open>
  With the target at the last bucket the index wraps to zero behind it and is at most the
  target for ever: the scan does not return.
\<close>

definition scan_stuck :: "bEpTimer \<Rightarrow> u64 \<Rightarrow> laddr \<Rightarrow> u64 \<Rightarrow> 'z tmem_scheme \<Rightarrow> bool" where
  "scan_stuck t T r i h \<longleftrightarrow> unat T + 1 = wheel_size t \<and> unat i < wheel_size t \<and>
     r \<notin> set (TaskItemBucket t) \<and> (\<exists>Q ms. tasks_ok h Q \<and> timer_ok t Q \<and> Q r = Some ms)"

lemma scan_stuck_step:
  fixes h :: "'z tmem_scheme"
  assumes "scan_stuck t T r i h"
  shows "i \<le> T \<and> (\<exists>b h'. nth_at (TaskItemBucket t) (unat i) = Ret b \<and> pushAll2 b r h = Ret h' \<and>
    scan_stuck t T r ((i + 1) mod TaskItemBucketSize t) h')"
proof -
  obtain Q ms where ok: "tasks_ok h Q" "timer_ok t Q" "r \<notin> set (TaskItemBucket t)" "Q r = Some ms"
    and i: "unat i < wheel_size t" and T: "unat T + 1 = wheel_size t"
    using assms by (auto simp: scan_stuck_def)
  let ?b = "TaskItemBucket t ! unat i"
  obtain h1 where h1: "nth_at (TaskItemBucket t) (unat i) = Ret ?b" "pushAll2 ?b r h = Ret h1"
    "tasks_ok h1 (move_bucket r ?b Q)"
    using scan_bucket [OF ok i] by blast
  have "timer_ok t (move_bucket r ?b Q)"
    using timer_ok_move [OF ok(2), of r "[?b]"] by simp
  moreover have "move_bucket r ?b Q r = Some (ms @ the (Q ?b))"
    using ok(4) by (simp add: move_bucket_def)
  moreover have "unat ((i + 1) mod TaskItemBucketSize t) < wheel_size t"
    using i by (simp add: unat_mod_distrib)
  ultimately have "scan_stuck t T r ((i + 1) mod TaskItemBucketSize t) h1"
    using h1(3) ok(3) T unfolding scan_stuck_def by blast
  moreover have "i \<le> T" using i T by (simp add: word_le_nat_alt)
  ultimately show ?thesis using h1 by blast
qed

lemma merge_loop_diverges:
  fixes h :: "'z tmem_scheme"
  assumes "scan_stuck t T r i h"
  shows "merge_loop t T r i h = None"
proof (rule ccontr)
  assume "merge_loop t T r i h \<noteq> None"
  then obtain y where y: "merge_loop t T r i h = Some y" by blast
  have "\<not> scan_stuck t T r i h"
  proof (rule merge_loop.raw_induct
      [where P = "\<lambda>t T r i (h :: 'z tmem_scheme) y. \<not> scan_stuck t T r i h", OF _ y])
    fix f t T r i y and h :: "'z tmem_scheme"
    assume IH: "\<And>t T r i (h :: 'z tmem_scheme) y. f t T r i h = Some y \<Longrightarrow> \<not> scan_stuck t T r i h"
      and eq: "(if i \<le> T then pbind (nth_at (TaskItemBucket t) (unat i)) (\<lambda>b.
          pbind (pushAll2 b r h) (f t T r ((i + 1) mod TaskItemBucketSize t))) else Ret h) = Some y"
    show "\<not> scan_stuck t T r i h"
    proof
      assume "scan_stuck t T r i h"
      from scan_stuck_step [OF this] eq IH show False by fastforce
    qed
  qed
  with assms show False by simp
qed

section \<open>The whole call\<close>

lemma New_result:
  assumes "tasks_ok h Q" and "brk_ok h" and "timer_ok t Q" and "TaskItemsList_New h = (r, h1)"
  shows "tasks_ok h1 (Q(r \<mapsto> []))" and "timer_ok t (Q(r \<mapsto> []))" and "r \<notin> set (TaskItemBucket t)"
    and "(Q(r \<mapsto> [])) r = Some []" and "Q r = None"
  using TaskItemsList_New_tasks(1,4) [OF assms(1,2,4)] assms(3) by (auto simp: timer_ok_def)

text \<open>The buckets a call with these positions scans.\<close>

definition due_buckets :: "bEpTimer \<Rightarrow> u64 \<Rightarrow> laddr list" where
  "due_buckets t now =
     map ((!) (TaskItemBucket t)) [wheel_pos t + 1 ..< unat (target_pos now t) + 1]"

lemma merge_returns:
  fixes h :: "'z tmem_scheme"
  assumes ok: "tasks_ok h Q" "brk_ok h" "timer_ok t Q"
    and ret: "unat (target_pos now t) \<le> wheel_pos t \<or> unat (target_pos now t) + 1 < wheel_size t"
  shows "\<exists>r h'. NewMergeUpdate2Now now t h =
      Ret (r, t\<lparr>BucketPosNow := target_pos now t, LastCheckTime := now\<rparr>, h') \<and> Q r = None \<and>
      tasks_ok h' (move_buckets r (due_buckets t now) (Q(r \<mapsto> []))) \<and>
      r \<notin> set (TaskItemBucket t) \<and> (\<forall>a. map_option strip (items h' a) = map_option strip (items h a)) \<and>
      tmem.more h' = tmem.more h \<and> brk_ok h' \<and>
      count_of h' r = of_nat (length (the (move_buckets r (due_buckets t now) (Q(r \<mapsto> [])) r))) \<and>
      (\<forall>l. l \<notin> set (TaskItemBucket t) \<longrightarrow> l \<noteq> r \<longrightarrow> count_of h' l = count_of h l)"
proof -
  obtain r h1 where new: "TaskItemsList_New h = (r, h1)" by fastforce
  note N = New_result [OF ok new] and N' = TaskItemsList_New_tasks [OF ok(1,2) new]
  let ?T = "target_pos now t" and ?i = "BucketPosNow t + 1"
  have i: "unat ?i = wheel_pos t + 1"
    using ok(3) timer_ok_size [OF ok(3)] by (intro unat_succ) (auto simp: timer_ok_def)
  have cnt: "count_of h1 r = of_nat (length ([] :: addr list))"
    using N'(3,6) by (simp add: count_of_def [of h])
  have "\<exists>h'. merge_loop t ?T r ?i h1 = Ret h' \<and> link_frame h1 h' \<and>
      tasks_ok h' (move_buckets r (due_buckets t now) (Q(r \<mapsto> []))) \<and>
      count_of h' r = of_nat (length (the (move_buckets r (due_buckets t now) (Q(r \<mapsto> [])) r))) \<and>
      (\<forall>l. l \<notin> set (TaskItemBucket t) \<longrightarrow> l \<noteq> r \<longrightarrow> count_of h' l = count_of h1 l)"
  proof (cases "wheel_pos t < unat ?T")
    case True
    then have "unat ?i + (unat ?T - wheel_pos t) = unat ?T + 1" "unat ?T + 1 < wheel_size t"
      using i ret by simp_all
    from merge_loop_run [OF N(1-4) this] cnt show ?thesis unfolding due_buckets_def i by blast
  next
    case False
    then have "\<not> ?i \<le> ?T" by (simp add: word_le_nat_alt i)
    with False N(1) cnt show ?thesis by (simp add: merge_loop_stop due_buckets_def)
  qed
  then obtain h' where h': "merge_loop t ?T r ?i h1 = Ret h'" "link_frame h1 h'"
    "tasks_ok h' (move_buckets r (due_buckets t now) (Q(r \<mapsto> [])))"
    "count_of h' r = of_nat (length (the (move_buckets r (due_buckets t now) (Q(r \<mapsto> [])) r)))"
    "\<forall>l. l \<notin> set (TaskItemBucket t) \<longrightarrow> l \<noteq> r \<longrightarrow> count_of h' l = count_of h1 l" by blast
  moreover have "brk_ok h'" using h'(2) N'(2) by (rule brk_ok_frame)
  moreover have "\<forall>a. map_option strip (items h' a) = map_option strip (items h a)"
    "tmem.more h' = tmem.more h"
    using h'(2) N'(5,7) by (simp_all add: link_frame_def)
  ultimately show ?thesis
    using new timer_ok_nz [OF ok(3)] N(3,5) N'(6) by (simp add: NewMergeUpdate2Now_def)
qed

lemma merge_diverges:
  fixes h :: "'z tmem_scheme"
  assumes ok: "tasks_ok h Q" "brk_ok h" "timer_ok t Q"
    and T: "wheel_pos t < unat (target_pos now t)" "unat (target_pos now t) + 1 = wheel_size t"
  shows "NewMergeUpdate2Now now t h = None"
proof -
  obtain r h1 where new: "TaskItemsList_New h = (r, h1)" by fastforce
  note N = New_result [OF ok new]
  have "unat (BucketPosNow t + 1) = wheel_pos t + 1"
    using ok(3) timer_ok_size [OF ok(3)] by (intro unat_succ) (auto simp: timer_ok_def)
  then have "scan_stuck t (target_pos now t) r (BucketPosNow t + 1) h1"
    unfolding scan_stuck_def using N T by auto
  from merge_loop_diverges [OF this] new timer_ok_nz [OF ok(3)] show ?thesis
    by (simp add: NewMergeUpdate2Now_def)
qed

lemma due_buckets_mem:
  assumes "timer_ok t Q"
  shows "distinct (due_buckets t now)" and "set (due_buckets t now) \<subseteq> set (TaskItemBucket t)"
proof -
  have le: "unat (target_pos now t) < length (TaskItemBucket t)"
    using target_pos_less [OF assms] assms by (simp add: timer_ok_def)
  then show "set (due_buckets t now) \<subseteq> set (TaskItemBucket t)"
    by (auto simp: due_buckets_def)
  show "distinct (due_buckets t now)"
    using assms le by (auto simp: due_buckets_def distinct_map inj_on_def timer_ok_def nth_eq_iff_index_eq)
qed

text \<open>The sequences after a scan that returns: what is due is in the result, in wheel order.\<close>

definition after_scan ::
    "bEpTimer \<Rightarrow> u64 \<Rightarrow> laddr \<Rightarrow> (laddr \<Rightarrow> addr list option) \<Rightarrow> (laddr \<Rightarrow> addr list option)" where
  "after_scan t now r Q = (\<lambda>l. if l = r then Some (concat (map (\<lambda>b. the (Q b)) (due_buckets t now)))
     else if l \<in> set (due_buckets t now) then Some [] else Q l)"

lemma after_scan_eq:
  assumes "timer_ok t Q" and "Q r = None"
  shows "move_buckets r (due_buckets t now) (Q(r \<mapsto> [])) = after_scan t now r Q"
proof
  fix l
  have r: "r \<notin> set (TaskItemBucket t)" using assms by (auto simp: timer_ok_def)
  then have rd: "r \<notin> set (due_buckets t now)" using due_buckets_mem(2) [OF assms(1)] by blast
  have eq: "map (\<lambda>b. the ((Q(r \<mapsto> [])) b)) (due_buckets t now) = map (\<lambda>b. the (Q b)) (due_buckets t now)"
    using rd by auto
  note M = move_buckets_apply [OF rd due_buckets_mem(1) [OF assms(1)], of "Q(r \<mapsto> [])" "[]"]
  have "move_buckets r (due_buckets t now) (Q(r \<mapsto> [])) r =
      Some (concat (map (\<lambda>b. the (Q b)) (due_buckets t now)))"
    using M unfolding eq by simp
  moreover have "move_buckets r (due_buckets t now) (Q(r \<mapsto> [])) l =
      (if l \<in> set (due_buckets t now) then Some [] else Q l)" if "l \<noteq> r"
    using M that by simp
  ultimately show "move_buckets r (due_buckets t now) (Q(r \<mapsto> [])) l = after_scan t now r Q l"
    by (simp add: after_scan_def)
qed

lemma in_due_buckets:
  assumes "timer_ok t Q" and "k < wheel_size t"
  shows "TaskItemBucket t ! k \<in> set (due_buckets t now) \<longleftrightarrow>
    wheel_pos t < k \<and> k \<le> unat (target_pos now t)"
proof -
  have "unat (target_pos now t) < length (TaskItemBucket t)"
    using target_pos_less [OF assms(1)] assms(1) by (simp add: timer_ok_def)
  with assms show ?thesis
    by (auto simp: due_buckets_def timer_ok_def nth_eq_iff_index_eq)
qed

text \<open>The target without wrap-around, in milliseconds.\<close>

lemma target_pos_nowrap:
  assumes t: "timer_ok t Q" and el: "unat (now - LastCheckTime t) = d"
    and lt: "wheel_pos t + d < wheel_size t"
  shows "unat (target_pos now t) = wheel_pos t + d"
proof -
  have "unat (now - LastCheckTime t + BucketPosNow t) = d + wheel_pos t"
    using t el lt by (simp add: unat_word_ariths timer_ok_def)
  with lt show ?thesis by (simp add: target_pos_def unat_mod_distrib)
qed

lemma timer_ok_after:
  assumes "timer_ok t Q" and "r \<notin> set (TaskItemBucket t)"
  shows "timer_ok (t\<lparr>BucketPosNow := target_pos now t, LastCheckTime := now\<rparr>) (after_scan t now r Q)"
  using assms target_pos_less [OF assms(1), of now]
  by (auto simp: timer_ok_def after_scan_def word_less_nat_alt)

text \<open>The whole call, when it returns, in one statement.\<close>

lemma merge_collects:
  fixes h :: "'z tmem_scheme"
  assumes ok: "tasks_ok h Q" "brk_ok h" "timer_ok t Q"
    and ret: "unat (target_pos now t) \<le> wheel_pos t \<or> unat (target_pos now t) + 1 < wheel_size t"
  shows "\<exists>r h'. NewMergeUpdate2Now now t h =
      Ret (r, t\<lparr>BucketPosNow := target_pos now t, LastCheckTime := now\<rparr>, h') \<and> Q r = None \<and>
      tasks_ok h' (after_scan t now r Q) \<and> r \<notin> set (TaskItemBucket t) \<and>
      (\<forall>a. map_option strip (items h' a) = map_option strip (items h a)) \<and>
      tmem.more h' = tmem.more h \<and> brk_ok h' \<and> count_of h' r = of_nat (length (the (after_scan t now r Q r))) \<and>
      (\<forall>l. l \<notin> set (TaskItemBucket t) \<longrightarrow> l \<noteq> r \<longrightarrow> count_of h' l = count_of h l)"
  using merge_returns [OF assms] after_scan_eq [OF ok(3)] by metis

lemma merge_cases:
  fixes h :: "'z tmem_scheme"
  assumes ok: "tasks_ok h Q" "brk_ok h" "timer_ok t Q"
  shows "NewMergeUpdate2Now now t h = None \<longleftrightarrow>
    wheel_pos t < unat (target_pos now t) \<and> unat (target_pos now t) + 1 = wheel_size t"
proof (cases "wheel_pos t < unat (target_pos now t) \<and> unat (target_pos now t) + 1 = wheel_size t")
  case True
  with merge_diverges [OF ok] show ?thesis by blast
next
  case False
  then have "unat (target_pos now t) \<le> wheel_pos t \<or> unat (target_pos now t) + 1 < wheel_size t"
    using target_pos_less [OF ok(3), of now] by auto
  from merge_collects [OF ok this] False show ?thesis by auto
qed

lemma merge_Ret_collects:
  fixes h :: "'z tmem_scheme"
  assumes ok: "tasks_ok h Q" "brk_ok h" "timer_ok t Q"
    and ret: "NewMergeUpdate2Now now t h = Ret (r, t', h')"
  shows "t' = t\<lparr>BucketPosNow := target_pos now t, LastCheckTime := now\<rparr>" and "Q r = None"
    and "tasks_ok h' (after_scan t now r Q)" and "r \<notin> set (TaskItemBucket t)"
proof -
  have "unat (target_pos now t) \<le> wheel_pos t \<or> unat (target_pos now t) + 1 < wheel_size t"
    using merge_cases [OF ok, of now] ret target_pos_less [OF ok(3), of now] by auto
  from merge_collects [OF ok this] ret
  show "t' = t\<lparr>BucketPosNow := target_pos now t, LastCheckTime := now\<rparr>" and "Q r = None"
    and "tasks_ok h' (after_scan t now r Q)" and "r \<notin> set (TaskItemBucket t)"
    by auto
qed

section \<open>Scanning again and again\<close>

text \<open>Scans that follow one another after the given elapsed times.\<close>

fun scan_each :: "u64 list \<Rightarrow> bEpTimer \<Rightarrow> 'z tmem_scheme \<Rightarrow> (bEpTimer \<times> 'z tmem_scheme) prog" where
  "scan_each [] t h = Ret (t, h)"
| "scan_each (d # ds) t h =
     pbind (NewMergeUpdate2Now (LastCheckTime t + d) t h) (\<lambda>(r, t, h). scan_each ds t h)"

lemma scan_each_diverges:
  fixes h :: "'z tmem_scheme"
  assumes "tasks_ok h Q" and "brk_ok h" and "timer_ok t Q" and "ds \<noteq> []"
    and "\<forall>d \<in> set ds. 0 < unat d" and "wheel_pos t + sum_list (map unat ds) + 1 = wheel_size t"
  shows "scan_each ds t h = None"
  using assms
proof (induction ds arbitrary: t h Q)
  case Nil
  then show ?case by simp
next
  case (Cons d ds)
  let ?now = "LastCheckTime t + d"
  have T: "unat (target_pos ?now t) = wheel_pos t + unat d"
    by (rule target_pos_nowrap [OF Cons.prems(3)]) (use Cons.prems(6) in simp_all)
  show ?case
  proof (cases "ds = []")
    case True
    with Cons.prems(5,6) T have "NewMergeUpdate2Now ?now t h = None"
      by (intro merge_diverges [OF Cons.prems(1-3)]) simp_all
    then show ?thesis by simp
  next
    case False
    then have "0 < sum_list (map unat ds)"
      using Cons.prems(5) by (cases ds) auto
    then have "unat (target_pos ?now t) + 1 < wheel_size t"
      using T Cons.prems(6) by simp
    then obtain r h' where M: "NewMergeUpdate2Now ?now t h =
        Ret (r, t\<lparr>BucketPosNow := target_pos ?now t, LastCheckTime := ?now\<rparr>, h')"
      "tasks_ok h' (after_scan t ?now r Q)" "r \<notin> set (TaskItemBucket t)" "brk_ok h'"
      using merge_collects [OF Cons.prems(1-3)] by blast
    have "scan_each ds (t\<lparr>BucketPosNow := target_pos ?now t, LastCheckTime := ?now\<rparr>) h' = None"
      using Cons.prems(5,6) T
      by (intro Cons.IH [OF M(2,4) timer_ok_after [OF Cons.prems(3) M(3)] False]) simp_all
    with M(1) show ?thesis by simp
  qed
qed

section \<open>The constructor\<close>

lemma new_buckets_tasks:
  "tasks_ok h Q \<Longrightarrow> brk_ok h \<Longrightarrow> new_buckets n h = (ls, h') \<Longrightarrow>
   \<exists>Q'. tasks_ok h' Q' \<and> brk_ok h' \<and> length ls = n \<and> distinct ls \<and>
     (\<forall>l \<in> set ls. Q l = None \<and> Q' l = Some []) \<and> (\<forall>l. l \<notin> set ls \<longrightarrow> Q' l = Q l) \<and> items h' = items h"
proof (induction n arbitrary: h Q ls)
  case 0
  then show ?case by auto
next
  case (Suc n)
  obtain l h1 where new: "TaskItemsList_New h = (l, h1)" by fastforce
  obtain ks where ks: "new_buckets n h1 = (ks, h')" and ls: "ls = l # ks"
    using Suc.prems(3) new by (auto simp: Let_def split: prod.splits)
  note N = TaskItemsList_New_tasks [OF Suc.prems(1,2) new]
  from Suc.IH [OF N(1,2) ks] obtain Q' where Q': "tasks_ok h' Q'" "brk_ok h'" "length ks = n"
    "distinct ks" "\<forall>k \<in> set ks. (Q(l \<mapsto> [])) k = None \<and> Q' k = Some []"
    "\<forall>k. k \<notin> set ks \<longrightarrow> Q' k = (Q(l \<mapsto> [])) k" "items h' = items h1"
    by blast
  have "l \<notin> set ks" using Q'(5) by auto
  with Q' N(4,5) ls show ?case
    by (intro exI [where x = Q']) (auto split: if_splits)
qed

section \<open>A small wheel\<close>

text \<open>Four buckets, the lists 0 to 3; the wheel stands at 0, last scanned at time 1000.\<close>

definition ex_wheel :: bEpTimer where
  "ex_wheel = \<lparr>TaskItemBucket = [0, 1, 2, 3], TaskItemBucketSize = 4, LastCheckTime = 1000,
     BucketPosNow = 0\<rparr>"

definition ex_wheel_heap :: tmem where
  "ex_wheel_heap = \<lparr>items = [10 \<mapsto> ex_item None None (Some 1) 1,
      11 \<mapsto> ex_item None (Some 12) (Some 2) 2, 12 \<mapsto> ex_item (Some 11) None (Some 2) 3,
      13 \<mapsto> ex_item None None (Some 0) 4],
    lists = [0 \<mapsto> ex_list (Some 13) (Some 13) 1, 1 \<mapsto> ex_list (Some 10) (Some 10) 1,
      2 \<mapsto> ex_list (Some 11) (Some 12) 2, 3 \<mapsto> ex_list None None 0],
    item_brk = 14, list_brk = 4\<rparr>"

definition ex_wheel_Q :: "laddr \<Rightarrow> addr list option" where
  "ex_wheel_Q = [0 \<mapsto> [13], 1 \<mapsto> [10], 2 \<mapsto> [11, 12], 3 \<mapsto> []]"

lemma ex_wheel_ok:
  "tasks_ok ex_wheel_heap ex_wheel_Q" "brk_ok ex_wheel_heap" "timer_ok ex_wheel ex_wheel_Q"
proof -
  have "links_ok ex_wheel_heap ex_wheel_Q"
    by (rule links_okI)
      (auto simp: ex_wheel_heap_def ex_wheel_Q_def list_ok_def detached_def split: if_splits)
  moreover have "unlocked ex_wheel_heap"
    by (auto simp: unlocked_def ex_wheel_heap_def split: if_splits)
  ultimately show "tasks_ok ex_wheel_heap ex_wheel_Q" by (simp add: tasks_ok_def)
  show "brk_ok ex_wheel_heap" by (auto simp: brk_ok_def ex_wheel_heap_def)
  show "timer_ok ex_wheel ex_wheel_Q" by (simp add: timer_ok_def ex_wheel_def ex_wheel_Q_def)
qed

lemma ex_wheel_simps [simp]:
  "TaskItemBucket ex_wheel = [0, 1, 2, 3]" "TaskItemBucketSize ex_wheel = 4"
  "LastCheckTime ex_wheel = 1000" "BucketPosNow ex_wheel = 0"
  by (simp_all add: ex_wheel_def)

section \<open>Properties\<close>

text \<open>
  C8: exactly when a scan does not return. On a well-formed wheel \<open>NewMergeUpdate2Now\<close> runs
  for ever if the position it moves to is the last bucket and it is not there already;
  otherwise it returns.
\<close>

theorem timer_scan_termination:
  fixes h :: "'z tmem_scheme"
  assumes "tasks_ok h Q" and "brk_ok h" and "timer_ok t Q"
  shows "NewMergeUpdate2Now now t h = None \<longleftrightarrow>
    wheel_pos t < unat (target_pos now t) \<and> unat (target_pos now t) + 1 = wheel_size t"
  using assms by (rule merge_cases)

theorem timer_scan_termination_witness: "NewMergeUpdate2Now 1003 ex_wheel ex_wheel_heap = None"
  using timer_scan_termination [OF ex_wheel_ok, of 1003] by (simp add: target_pos_def)

text \<open>
  the hang is met in normal running. Scans at any intervals whose elapsed times add up to
  the distance to the last bucket never come to an end; on the wheel of the program, scanned
  every millisecond, this is the scan at 29999 milliseconds.
\<close>

theorem timer_hangs_at_last_bucket:
  fixes h :: "'z tmem_scheme"
  assumes "tasks_ok h Q" and "brk_ok h" and "timer_ok t Q" and "ds \<noteq> []"
    and "\<forall>d \<in> set ds. 0 < unat d" and "wheel_pos t + sum_list (map unat ds) + 1 = wheel_size t"
  shows "scan_each ds t h = None"
  using assms by (rule scan_each_diverges)

theorem timer_hangs_at_last_bucket_witness:
  "scan_each [1, 1, 1] ex_wheel ex_wheel_heap = None \<and>
   (\<exists>t h. bEpTimer_New 0 ex_heap = (t, h) \<and> scan_each (replicate 29999 1) t h = None)"
proof
  show "scan_each [1, 1, 1] ex_wheel ex_wheel_heap = None"
    by (rule timer_hangs_at_last_bucket [OF ex_wheel_ok]) simp_all
  obtain bs h' where bs: "new_buckets 30000 ex_heap = (bs, h')" by fastforce
  have "brk_ok ex_heap" by (auto simp: brk_ok_def ex_heap_def)
  then obtain Q' where Q': "tasks_ok h' Q'" "brk_ok h'" "length bs = 30000" "distinct bs"
    "\<forall>l \<in> set bs. ex_Q l = None \<and> Q' l = Some []"
    using new_buckets_tasks [OF ex_heap_ok _ bs] by blast
  let ?t = "\<lparr>TaskItemBucket = bs, TaskItemBucketSize = 30000, LastCheckTime = 0, BucketPosNow = 0\<rparr>"
  have t: "timer_ok ?t Q'" using Q'(3-5) by (simp add: timer_ok_def word_less_nat_alt)
  have "scan_each (replicate 29999 1) ?t h' = None"
    by (rule timer_hangs_at_last_bucket [OF Q'(1,2) t]) (simp_all add: map_replicate sum_list_replicate)
  moreover have "bEpTimer_New 0 ex_heap = (?t, h')"
    by (simp add: bEpTimer_New_def TIMEWAITSECONDS_S_def bs)
  ultimately show "\<exists>t h. bEpTimer_New 0 ex_heap = (t, h) \<and> scan_each (replicate 29999 1) t h = None"
    by blast
qed

text \<open>
  C10: what a scan collects when less time has passed than is left before the last bucket. It
  returns a new list that holds the items of the buckets of the elapsed milliseconds, in wheel
  order; those buckets are empty afterwards, every other list is as before, no payload
  changes, and the wheel stands at the new position, well-formed.
\<close>

theorem timer_scan_collects_due:
  fixes h :: "'z tmem_scheme"
  assumes "tasks_ok h Q" and "brk_ok h" and "timer_ok t Q"
    and "unat (now - LastCheckTime t) = d" and "wheel_pos t + d + 1 < wheel_size t"
  shows "\<exists>r t' h' Q'. NewMergeUpdate2Now now t h = Ret (r, t', h') \<and> tasks_ok h' Q' \<and>
    brk_ok h' \<and> timer_ok t' Q' \<and> wheel_pos t' = wheel_pos t + d \<and> LastCheckTime t' = now \<and>
    Q' r = Some (concat (map (\<lambda>k. the (Q (TaskItemBucket t ! k)))
      [wheel_pos t + 1 ..< wheel_pos t + d + 1])) \<and>
    (\<forall>k < wheel_size t. Q' (TaskItemBucket t ! k) =
      (if wheel_pos t < k \<and> k \<le> wheel_pos t + d then Some [] else Q (TaskItemBucket t ! k))) \<and>
    (\<forall>l. l \<noteq> r \<longrightarrow> l \<notin> set (TaskItemBucket t) \<longrightarrow> Q' l = Q l) \<and>
    (\<forall>a. map_option strip (items h' a) = map_option strip (items h a))"
proof -
  have T: "unat (target_pos now t) = wheel_pos t + d"
    using target_pos_nowrap [OF assms(3,4)] assms(5) by simp
  with assms(5) obtain r h' where M: "NewMergeUpdate2Now now t h =
      Ret (r, t\<lparr>BucketPosNow := target_pos now t, LastCheckTime := now\<rparr>, h')"
    "tasks_ok h' (after_scan t now r Q)" "r \<notin> set (TaskItemBucket t)"
    "\<forall>a. map_option strip (items h' a) = map_option strip (items h a)" "brk_ok h'"
    using merge_collects [OF assms(1-3), of now] by auto
  have r: "TaskItemBucket t ! k \<noteq> r" if "k < wheel_size t" for k
    using M(3) that assms(3) by (auto simp: timer_ok_def)
  have "after_scan t now r Q (TaskItemBucket t ! k) =
      (if wheel_pos t < k \<and> k \<le> wheel_pos t + d then Some [] else Q (TaskItemBucket t ! k))"
    if "k < wheel_size t" for k
    using in_due_buckets [OF assms(3) that, of now] r [OF that] T by (simp add: after_scan_def)
  moreover have "after_scan t now r Q l = Q l" if "l \<noteq> r" "l \<notin> set (TaskItemBucket t)" for l
    using that due_buckets_mem(2) [OF assms(3), of now] by (auto simp: after_scan_def)
  moreover have "after_scan t now r Q r = Some (concat (map (\<lambda>k. the (Q (TaskItemBucket t ! k)))
      [wheel_pos t + 1 ..< wheel_pos t + d + 1]))"
    by (simp add: after_scan_def due_buckets_def T comp_def del: upt_Suc)
  ultimately show ?thesis
    using M T timer_ok_after [OF assms(3) M(3)] by (intro exI conjI) (assumption | simp)+
qed

theorem timer_scan_collects_due_witness:
  "\<exists>r t' h' Q'. NewMergeUpdate2Now 1002 ex_wheel ex_wheel_heap = Ret (r, t', h') \<and>
    tasks_ok h' Q' \<and> wheel_pos t' = 2 \<and> Q' r = Some [10, 11, 12]"
proof -
  obtain r t' h' Q' where M: "NewMergeUpdate2Now 1002 ex_wheel ex_wheel_heap = Ret (r, t', h')"
    "tasks_ok h' Q'" "wheel_pos t' = wheel_pos ex_wheel + 2"
    "Q' r = Some (concat (map (\<lambda>k. the (ex_wheel_Q (TaskItemBucket ex_wheel ! k)))
      [wheel_pos ex_wheel + 1 ..< wheel_pos ex_wheel + 2 + 1]))"
    using timer_scan_collects_due [OF ex_wheel_ok, of 1002 2] by auto
  then have "wheel_pos t' = 2" "Q' r = Some [10, 11, 12]"
    by (simp_all add: ex_wheel_Q_def upt_rec)
  with M(1,2) show ?thesis by blast
qed

text \<open>
  C17: what a scan misses. If the elapsed time carries the position past the end of the wheel,
  the call returns an empty list and takes nothing from any bucket, though the position moves
  on: the timeouts of the buckets that were passed over are lost until a later revolution.
\<close>

theorem timer_scan_wrap_skips:
  fixes h :: "'z tmem_scheme"
  assumes "tasks_ok h Q" and "brk_ok h" and "timer_ok t Q"
    and "unat (now - LastCheckTime t) = d" and "d < wheel_size t" and "wheel_size t \<le> wheel_pos t + d"
  shows "\<exists>r t' h'. NewMergeUpdate2Now now t h = Ret (r, t', h') \<and> tasks_ok h' (Q(r \<mapsto> [])) \<and>
    Q r = None \<and> wheel_pos t' = wheel_pos t + d - wheel_size t"
proof -
  have pos: "wheel_pos t < wheel_size t" by (rule timer_ok_size [OF assms(3)])
  have "unat (now - LastCheckTime t + BucketPosNow t) = d + wheel_pos t"
    using assms(3-5) pos by (simp add: unat_word_ariths timer_ok_def)
  then have T: "unat (target_pos now t) = wheel_pos t + d - wheel_size t"
    using assms(5,6) pos by (simp add: target_pos_def unat_mod_distrib le_mod_geq add.commute)
  then have le: "unat (target_pos now t) \<le> wheel_pos t" using assms(5) by simp
  then have "due_buckets t now = []" by (simp add: due_buckets_def)
  then have "after_scan t now r Q = Q(r \<mapsto> [])" for r by (simp add: after_scan_def fun_eq_iff)
  with merge_collects [OF assms(1-3), of now] le T show ?thesis by fastforce
qed

text \<open>One step past the end, from the last bucket to the first, where an item is due.\<close>

theorem timer_scan_wrap_skips_witness:
  "\<exists>r t' h'. NewMergeUpdate2Now 1001 (ex_wheel\<lparr>BucketPosNow := 3\<rparr>) ex_wheel_heap = Ret (r, t', h') \<and>
    tasks_ok h' (ex_wheel_Q(r \<mapsto> [])) \<and> ex_wheel_Q r = None \<and> wheel_pos t' = 0"
proof -
  have t: "timer_ok (ex_wheel\<lparr>BucketPosNow := 3\<rparr>) ex_wheel_Q"
    using ex_wheel_ok(3) by (simp add: timer_ok_def)
  show ?thesis
    using timer_scan_wrap_skips [OF ex_wheel_ok(1,2) t, of 1001 1] by simp
qed

text \<open>
  no scan that returns ever takes anything from the first bucket: a timeout put there is
  never delivered.
\<close>

theorem timer_bucket_zero_never_collected:
  fixes h :: "'z tmem_scheme"
  assumes "tasks_ok h Q" and "brk_ok h" and "timer_ok t Q"
    and "NewMergeUpdate2Now now t h = Ret (r, t', h')"
  shows "\<exists>Q'. tasks_ok h' Q' \<and> timer_ok t' Q' \<and>
    Q' (TaskItemBucket t ! 0) = Q (TaskItemBucket t ! 0)"
proof -
  note M = merge_Ret_collects [OF assms]
  have z: "0 < wheel_size t" using timer_ok_size [OF assms(3)] by simp
  then have "TaskItemBucket t ! 0 \<noteq> r" using M(4) assms(3) by (auto simp: timer_ok_def)
  with in_due_buckets [OF assms(3) z, of now]
  have "after_scan t now r Q (TaskItemBucket t ! 0) = Q (TaskItemBucket t ! 0)"
    by (simp add: after_scan_def)
  with M timer_ok_after [OF assms(3) M(4)] show ?thesis by blast
qed

theorem timer_bucket_zero_never_collected_witness:
  "\<exists>r t' h' Q'. NewMergeUpdate2Now 1002 ex_wheel ex_wheel_heap = Ret (r, t', h') \<and>
    tasks_ok h' Q' \<and> Q' 0 = Some [13]"
proof -
  have "unat (target_pos 1002 ex_wheel) = 2" by (simp add: target_pos_def)
  then obtain r t' h' where M: "NewMergeUpdate2Now 1002 ex_wheel ex_wheel_heap = Ret (r, t', h')"
    using merge_collects [OF ex_wheel_ok, of 1002] by auto
  from timer_bucket_zero_never_collected [OF ex_wheel_ok M] M show ?thesis
    by (auto simp: ex_wheel_Q_def)
qed

text \<open>
  C9: a timeout of \<open>ms\<close> milliseconds, registered at the last scan, is delivered by the first
  scan at least \<open>ms\<close> milliseconds later and by none before, as long as the wheel does not
  reach its last bucket.
\<close>

theorem timer_delivers_on_time:
  fixes h :: "'z tmem_scheme"
  assumes "tasks_ok h Q" and "brk_ok h" and "timer_ok t Q"
    and "getBucket ms t = Ret b" and "Q b = Some xs"
    and "0 < unat ms" and "wheel_pos t + unat ms < wheel_size t"
    and "unat (now - LastCheckTime t) = d" and "wheel_pos t + d + 1 < wheel_size t"
  shows "\<exists>r t' h' Q'. NewMergeUpdate2Now now t h = Ret (r, t', h') \<and> tasks_ok h' Q' \<and>
    (if unat ms \<le> d then set xs \<subseteq> set (the (Q' r)) \<and> Q' b = Some []
     else Q' b = Some xs \<and> set xs \<inter> set (the (Q' r)) = {})"
proof -
  let ?k = "wheel_pos t + unat ms"
  have b: "b = TaskItemBucket t ! ?k"
    using getBucket_index [OF assms(3), of ms] assms(4,7) by simp
  have T: "unat (target_pos now t) = wheel_pos t + d"
    using target_pos_nowrap [OF assms(3,8)] assms(9) by simp
  with assms(9) obtain r t' h' where M: "NewMergeUpdate2Now now t h = Ret (r, t', h')"
    using merge_collects [OF assms(1-3), of now] by auto
  note C = merge_Ret_collects [OF assms(1-3) M]
  have br: "b \<noteq> r" using C(2) assms(5) by auto
  have due: "b \<in> set (due_buckets t now) \<longleftrightarrow> unat ms \<le> d"
    using in_due_buckets [OF assms(3,7), of now] T b assms(6) by auto
  have "set xs \<subseteq> set (the (after_scan t now r Q r)) \<and> after_scan t now r Q b = Some []"
    if "unat ms \<le> d"
    using due that br assms(5) by (auto simp: after_scan_def intro!: bexI [where x = b])
  moreover have "after_scan t now r Q b = Some xs \<and> set xs \<inter> set (the (after_scan t now r Q r)) = {}"
    if "\<not> unat ms \<le> d"
  proof -
    have eq: "after_scan t now r Q b = Some xs" using due that br assms(5) by (simp add: after_scan_def)
    moreover have "after_scan t now r Q r = Some (the (after_scan t now r Q r))"
      by (simp add: after_scan_def)
    ultimately show ?thesis
      using links_ok_disjoint [OF tasks_ok_links [OF C(3)] eq] br by blast
  qed
  ultimately show ?thesis using M C(3)
    by (intro exI [where x = r] exI [where x = t'] exI [where x = h']
        exI [where x = "after_scan t now r Q"]) simp
qed

theorem timer_delivers_on_time_witness:
  "(\<exists>r t' h' Q'. NewMergeUpdate2Now 1002 ex_wheel ex_wheel_heap = Ret (r, t', h') \<and> tasks_ok h' Q' \<and>
      {11, 12} \<subseteq> set (the (Q' r))) \<and>
   (\<exists>r t' h' Q'. NewMergeUpdate2Now 1001 ex_wheel ex_wheel_heap = Ret (r, t', h') \<and> tasks_ok h' Q' \<and>
      Q' 2 = Some [11, 12])"
proof -
  have b: "getBucket 2 ex_wheel = Ret 2" by (simp add: getBucket_def word_less_nat_alt)
  have Q: "ex_wheel_Q 2 = Some [11, 12]" by (simp add: ex_wheel_Q_def)
  note D = timer_delivers_on_time [OF ex_wheel_ok b Q]
  have "\<exists>r t' h' Q'. NewMergeUpdate2Now 1002 ex_wheel ex_wheel_heap = Ret (r, t', h') \<and>
      tasks_ok h' Q' \<and> {11, 12} \<subseteq> set (the (Q' r))"
    using D [of 1002 2] by fastforce
  moreover have "\<exists>r t' h' Q'. NewMergeUpdate2Now 1001 ex_wheel ex_wheel_heap = Ret (r, t', h') \<and>
      tasks_ok h' Q' \<and> Q' 2 = Some [11, 12]"
    using D [of 1001 1] by fastforce
  ultimately show ?thesis by blast
qed

text \<open>
  timeouts the wheel cannot hold. A timeout of zero, and every timeout of a revolution or
  more (an infinite wait among them), goes to the bucket the wheel stands at, and no scan
  that returns takes anything from that bucket.
\<close>

theorem timer_zero_and_long_timeouts:
  fixes h :: "'z tmem_scheme"
  assumes "tasks_ok h Q" and "brk_ok h" and "timer_ok t Q"
    and "ms = 0 \<or> TaskItemBucketSize t \<le> ms"
    and "NewMergeUpdate2Now now t h = Ret (r, t', h')"
  shows "\<exists>b Q'. getBucket ms t = Ret b \<and> b = TaskItemBucket t ! wheel_pos t \<and>
    tasks_ok h' Q' \<and> Q' b = Q b"
proof -
  note M = merge_Ret_collects [OF assms(1-3,5)]
  let ?b = "TaskItemBucket t ! wheel_pos t"
  have z: "wheel_pos t < wheel_size t" by (rule timer_ok_size [OF assms(3)])
  have "min (unat ms) (wheel_size t) \<in> {0, wheel_size t}"
    using assms(4) by (auto simp: word_le_nat_alt)
  then have "getBucket ms t = Ret ?b"
    using getBucket_index [OF assms(3), of ms] z by auto
  moreover have "?b \<noteq> r" using M(4) assms(3) z by (auto simp: timer_ok_def)
  ultimately show ?thesis
    using M(3) in_due_buckets [OF assms(3) z, of now]
    by (intro exI [where x = ?b] exI [where x = "after_scan t now r Q"]) (simp add: after_scan_def)
qed

theorem timer_zero_and_long_timeouts_witness:
  "\<exists>r t' h' Q'. NewMergeUpdate2Now 1002 ex_wheel ex_wheel_heap = Ret (r, t', h') \<and>
    getBucket (- 1) ex_wheel = Ret 0 \<and> Q' 0 = ex_wheel_Q 0 \<and> tasks_ok h' Q'"
proof -
  have "unat (target_pos 1002 ex_wheel) = 2" by (simp add: target_pos_def)
  then obtain r t' h' where M: "NewMergeUpdate2Now 1002 ex_wheel ex_wheel_heap = Ret (r, t', h')"
    using merge_collects [OF ex_wheel_ok, of 1002] by auto
  from timer_zero_and_long_timeouts [OF ex_wheel_ok _ M, of "- 1"] M show ?thesis
    by auto
qed

text \<open>
  the constructor builds a well-formed wheel of 30000 different empty lists, standing at
  the first, and disturbs no list that was there.
\<close>

theorem timer_new_wheel:
  assumes "tasks_ok h Q" and "brk_ok h"
  shows "\<exists>t h' Q'. bEpTimer_New now h = (t, h') \<and> tasks_ok h' Q' \<and> brk_ok h' \<and> timer_ok t Q' \<and>
    wheel_size t = 30000 \<and> wheel_pos t = 0 \<and> LastCheckTime t = now \<and>
    (\<forall>b \<in> set (TaskItemBucket t). Q b = None \<and> Q' b = Some []) \<and>
    (\<forall>l. Q l \<noteq> None \<longrightarrow> Q' l = Q l)"
proof -
  obtain bs h' where bs: "new_buckets 30000 h = (bs, h')" by fastforce
  let ?t = "\<lparr>TaskItemBucket = bs, TaskItemBucketSize = 30000, LastCheckTime = now, BucketPosNow = 0\<rparr>"
  obtain Q' where Q': "tasks_ok h' Q'" "brk_ok h'" "length bs = 30000" "distinct bs"
    "\<forall>l \<in> set bs. Q l = None \<and> Q' l = Some []" "\<forall>l. l \<notin> set bs \<longrightarrow> Q' l = Q l"
    using new_buckets_tasks [OF assms bs] by blast
  have "bEpTimer_New now h = (?t, h')"
    by (simp add: bEpTimer_New_def TIMEWAITSECONDS_S_def bs)
  moreover have "timer_ok ?t Q'" using Q'(3-5) by (simp add: timer_ok_def word_less_nat_alt)
  moreover have "Q' l = Q l" if "Q l \<noteq> None" for l
    using Q'(5,6) that by (cases "l \<in> set bs") auto
  ultimately show ?thesis using Q'
    by (intro exI [where x = ?t] exI [where x = h'] exI [where x = Q']) simp
qed

theorem timer_new_wheel_witness:
  "\<exists>t h' Q'. bEpTimer_New 1000 ex_heap = (t, h') \<and> tasks_ok h' Q' \<and> timer_ok t Q' \<and> wheel_size t = 30000"
proof -
  have "brk_ok ex_heap" by (auto simp: brk_ok_def ex_heap_def)
  from timer_new_wheel [OF ex_heap_ok this, of 1000] show ?thesis by blast
qed

end
