(* ===== verification/Stacks.thy ===== *)
theory Stacks
  imports Prelude
begin

unbundle bit_operations_syntax

text \<open>
  Stacks and contexts: \<open>b_stack.h\<close>, \<open>b_stack.cc\<close> (guarded stack memory), \<open>b_context.h\<close>,
  \<open>b_context.cc\<close> (the initial register image) and \<open>b_swap.S\<close> (the context switch).
  \<open>mmap\<close>, \<open>mprotect\<close> and \<open>getpagesize\<close> are parameters.
\<close>

section \<open>Stack memory\<close>

definition MiniStackSize :: nat where "MiniStackSize = 128"
definition MediumStackSize :: nat where "MediumStackSize = 1024"
definition LargeStackSize :: nat where "LargeStackSize = 4096"

definition MiniStack :: int where "MiniStack = 1"
definition MediumStack :: int where "MediumStack = 2"
definition LargeStack :: int where "LargeStack = 3"

record bRoutineStack =
  StackPtr :: u64
  StackSize :: u64

text \<open>
  \<open>mmap len\<close> is \<open>None\<close> for \<open>MAP_FAILED\<close>; \<open>mprotect a len\<close> says whether the call returned 0.
  \<open>2 * GetPageSize_b()\<close> is 32-bit arithmetic.
\<close>

definition allocateStackMemory ::
    "(u64 \<Rightarrow> u64 option) \<Rightarrow> (u64 \<Rightarrow> u64 \<Rightarrow> bool) \<Rightarrow> u32 \<Rightarrow> u64 \<Rightarrow> u64 prog" where
  "allocateStackMemory mmap mprotect page size_Kb =
     (let size_Kb = (if size_Kb < of_nat MiniStackSize then of_nat MiniStackSize else size_Kb) in
      case mmap (size_Kb * 1024 + ucast (2 * page)) of
        None \<Rightarrow> Fail (Throw ''Mmap SysCall Failed'')
      | Some mem \<Rightarrow>
          if \<not> mprotect mem (ucast page) \<or>
             \<not> mprotect (mem + size_Kb * 1024 + ucast page) (ucast page)
          then Fail (Throw ''Mmap SysCall Failed'')
          else Ret mem)"

text \<open>\<open>std::to_string\<close> on an integer.\<close>

fun digits :: "nat \<Rightarrow> string" where
  "digits n = (if n < 10 then [char_of (48 + n)] else digits (n div 10) @ [char_of (48 + n mod 10)])"

declare digits.simps [simp del]

definition to_string :: "int \<Rightarrow> string" where
  "to_string i = (if i < 0 then CHR ''-'' # digits (nat (- i)) else digits (nat i))"

definition bRoutineStack_New ::
    "(u64 \<Rightarrow> u64 option) \<Rightarrow> (u64 \<Rightarrow> u64 \<Rightarrow> bool) \<Rightarrow> u32 \<Rightarrow> int \<Rightarrow> bRoutineStack prog" where
  "bRoutineStack_New mmap mprotect page sizeLevel =
     (let alloc = (\<lambda>kb. pbind (allocateStackMemory mmap mprotect page (of_nat kb)) (\<lambda>p.
            Ret \<lparr>StackPtr = p, StackSize = of_nat (kb * 1024)\<rparr>)) in
      if sizeLevel = MiniStack then alloc MiniStackSize
      else if sizeLevel = MediumStack then alloc MediumStackSize
      else if sizeLevel = LargeStack then alloc LargeStackSize
      else Fail (Throw (''Undefined stack size'' @ to_string sizeLevel)))"

text \<open>The range \<open>Stack::Del\<close> unmaps: the address and the length it passes to \<open>munmap\<close>.\<close>

definition Stack_Del_range :: "u32 \<Rightarrow> bRoutineStack \<Rightarrow> u64 \<times> u64" where
  "Stack_Del_range page i = (StackPtr i, StackSize i + ucast (2 * page))"

section \<open>Contexts\<close>

text \<open>The slots of \<open>regs\<close>, as the comment of \<open>b_context.h\<close> and the switch lay them out.\<close>

definition kRDI :: nat where "kRDI = 7"
definition kRSI :: nat where "kRSI = 8"
definition kRETAddr :: nat where "kRETAddr = 9"
definition kRSP :: nat where "kRSP = 13"

record bContext =
  regs :: "nat \<Rightarrow> u64"
  ctx_stackSize :: u64
  ctx_stackPtr :: u64

definition bContext_New :: bContext where
  "bContext_New = \<lparr>regs = (\<lambda>_. 0), ctx_stackSize = 0, ctx_stackPtr = 0\<rparr>"

definition bContext_init :: "u32 \<Rightarrow> u64 \<Rightarrow> u64 \<Rightarrow> bRoutineStack \<Rightarrow> bContext \<Rightarrow> bContext" where
  "bContext_init page RoutineBegin_addr self stack c =
     (let c = c\<lparr>ctx_stackSize := StackSize stack, ctx_stackPtr := StackPtr stack\<rparr>;
          sp = ctx_stackPtr c + ucast page + ctx_stackSize c - 1;
          sp = sp AND (- 16)
      in c\<lparr>regs := (regs c)(kRSP := sp, kRDI := self, kRSI := 0, kRETAddr := RoutineBegin_addr)\<rparr>)"

section \<open>The context switch\<close>

datatype reg = RAX | RBX | RCX | RDX | RSI | RDI | RBP | RSP | R8 | R9 | R12 | R13 | R14 | R15 | RIP

text \<open>
  The machine: registers, the contexts by their address, and the stack memory in 8-byte
  cells. Contexts and stacks are different memory.
\<close>

record machine =
  rg :: "reg \<Rightarrow> u64"
  ctxs :: "u64 \<Rightarrow> nat \<Rightarrow> u64"
  stk :: "u64 \<Rightarrow> u64"

definition store_ctx :: "reg \<Rightarrow> nat \<Rightarrow> machine \<Rightarrow> machine" where
  "store_ctx r k m = m\<lparr>ctxs := (ctxs m)(rg m RDI := (ctxs m (rg m RDI))(k := rg m r))\<rparr>"

definition load_ctx :: "nat \<Rightarrow> reg \<Rightarrow> machine \<Rightarrow> machine" where
  "load_ctx k r m = m\<lparr>rg := (rg m)(r := ctxs m (rg m RSI) k)\<rparr>"

definition set_reg :: "reg \<Rightarrow> u64 \<Rightarrow> machine \<Rightarrow> machine" where
  "set_reg r x m = m\<lparr>rg := (rg m)(r := x)\<rparr>"

definition pushq :: "u64 \<Rightarrow> machine \<Rightarrow> machine" where
  "pushq x m = (let sp = rg m RSP - 8 in m\<lparr>rg := (rg m)(RSP := sp), stk := (stk m)(sp := x)\<rparr>)"

definition retq :: "machine \<Rightarrow> machine" where
  "retq m = m\<lparr>rg := (rg m)(RIP := stk m (rg m RSP), RSP := rg m RSP + 8)\<rparr>"

text \<open>The instructions of \<open>bSwap\<close>, in order; the slot is the offset divided by 8.\<close>

definition bSwap_save :: "machine \<Rightarrow> machine" where
  "bSwap_save m =
     (let m = set_reg RAX (rg m RSP) m;
          m = store_ctx RAX 13 m;
          m = store_ctx RBX 12 m;
          m = store_ctx RCX 11 m;
          m = store_ctx RDX 10 m;
          m = set_reg RAX (stk m (rg m RAX)) m;
          m = store_ctx RAX 9 m;
          m = store_ctx RSI 8 m;
          m = store_ctx RDI 7 m;
          m = store_ctx RBP 6 m;
          m = store_ctx R8 5 m;
          m = store_ctx R9 4 m;
          m = store_ctx R12 3 m;
          m = store_ctx R13 2 m;
          m = store_ctx R14 1 m;
          m = store_ctx R15 0 m
      in set_reg RAX 0 m)"

definition bSwap_load :: "machine \<Rightarrow> machine" where
  "bSwap_load m =
     (let m = load_ctx 6 RBP m;
          m = load_ctx 13 RSP m;
          m = load_ctx 0 R15 m;
          m = load_ctx 1 R14 m;
          m = load_ctx 2 R13 m;
          m = load_ctx 3 R12 m;
          m = load_ctx 4 R9 m;
          m = load_ctx 5 R8 m;
          m = load_ctx 7 RDI m;
          m = load_ctx 10 RDX m;
          m = load_ctx 11 RCX m;
          m = load_ctx 12 RBX m;
          m = set_reg RSP (rg m RSP + 8) m;
          m = pushq (ctxs m (rg m RSI) 9) m;
          m = load_ctx 8 RSI m
      in retq m)"

definition bSwap :: "machine \<Rightarrow> machine" where
  "bSwap m = bSwap_load (bSwap_save m)"

section \<open>Facts about the switch\<close>

lemmas instr_defs = store_ctx_def load_ctx_def set_reg_def pushq_def retq_def Let_def

text \<open>Everything a switch saves, in the context the first argument points to.\<close>

definition saved_image :: "machine \<Rightarrow> nat \<Rightarrow> u64" where
  "saved_image m = (ctxs m (rg m RDI))(13 := rg m RSP, 12 := rg m RBX, 11 := rg m RCX,
     10 := rg m RDX, 9 := stk m (rg m RSP), 8 := rg m RSI, 7 := rg m RDI, 6 := rg m RBP,
     5 := rg m R8, 4 := rg m R9, 3 := rg m R12, 2 := rg m R13, 1 := rg m R14, 0 := rg m R15)"

lemma bSwap_save_eq:
  "bSwap_save m = m\<lparr>rg := (rg m)(RAX := 0), ctxs := (ctxs m)(rg m RDI := saved_image m)\<rparr>"
  by (simp add: bSwap_save_def instr_defs saved_image_def)

lemma bSwap_load_regs:
  fixes m :: machine
  defines "c \<equiv> ctxs m (rg m RSI)"
  shows "rg (bSwap_load m) = (rg m)(RBP := c 6, R15 := c 0, R14 := c 1, R13 := c 2, R12 := c 3,
      R9 := c 4, R8 := c 5, RDI := c 7, RDX := c 10, RCX := c 11, RBX := c 12, RSI := c 8,
      RSP := c 13 + 8, RIP := c 9)"
    and "ctxs (bSwap_load m) = ctxs m"
    and "stk (bSwap_load m) = (stk m)(c 13 := c 9)"
  by (auto simp: bSwap_load_def instr_defs c_def fun_eq_iff)

section \<open>Facts about the stack layout\<close>

lemma and_minus_16: "unat ((x :: u64) AND - 16) = unat x - unat x mod 16"
proof -
  have "(- 16 :: u64) = NOT (mask 4)" by (simp add: mask_eq_exp_minus_1 not_eq_complement)
  then have "x AND - 16 = push_bit 4 (drop_bit 4 x)"
    by (auto simp: bit_eq_iff bit_simps)
  then have "(x AND - 16) + take_bit 4 x = x" by (simp add: bits_ident)
  then have "x AND - 16 = x - take_bit 4 x" by (simp add: eq_diff_eq)
  moreover have "unat (take_bit 4 x) = unat x mod 16"
    by (simp add: unsigned_take_bit_eq take_bit_eq_mod unat_mod_distrib)
  ultimately show ?thesis
    by (simp add: unat_sub_if' mod_less_eq_dividend)
qed

text \<open>A stack region: guard page, usable memory, guard page, without wrap-around.\<close>

definition stack_fits :: "u32 \<Rightarrow> bRoutineStack \<Rightarrow> bool" where
  "stack_fits page s \<longleftrightarrow> unat (StackPtr s) + 2 * unat page + unat (StackSize s) < 2 ^ 64 \<and>
     16 dvd unat (StackPtr s) + unat page + unat (StackSize s) \<and> 16 \<le> unat (StackSize s)"

lemma unat_page: "unat (ucast (page :: u32) :: u64) = unat page"
proof -
  have "unat page < 2 ^ LENGTH(32)" by (rule unsigned_less)
  then show ?thesis by (simp add: unsigned_ucast_eq take_bit_nat_eq_self)
qed

lemma bContext_init_sp:
  assumes "stack_fits page s"
  shows "unat (regs (bContext_init page rb self s c) kRSP) =
    unat (StackPtr s) + unat page + unat (StackSize s) - 16"
proof -
  let ?top = "unat (StackPtr s) + unat page + unat (StackSize s)"
  let ?x = "StackPtr s + ucast page + StackSize s - 1"
  have fit: "?top < 2 ^ 64" "16 dvd ?top" "16 \<le> ?top"
    using assms by (auto simp: stack_fits_def)
  have pg: "unat (ucast page :: u64) = unat page"
    by (rule unat_page)
  have "unat (StackPtr s + ucast page) = unat (StackPtr s) + unat page"
    using fit(1) by (simp add: unat_word_ariths pg)
  then have "unat (StackPtr s + ucast page + StackSize s) = ?top"
    using fit(1) by (simp add: unat_word_ariths)
  then have x: "unat ?x = ?top - 1"
    using fit(3) by (simp add: unat_sub_if' unat_gt_0)
  obtain k where k: "?top = 16 * k" using fit(2) by (auto simp: dvd_def)
  have "unat (?x AND - 16) = ?top - 1 - (?top - 1) mod 16"
    by (simp only: and_minus_16 x)
  also have "\<dots> = ?top - 16"
    using fit(3) unfolding k by (cases k) (auto simp: algebra_simps)
  finally show ?thesis
    by (simp add: bContext_init_def kRSP_def kRDI_def kRSI_def kRETAddr_def)
qed

text \<open>What the code relies on: \<open>mmap\<close> returns page-aligned ranges that fit the address space.\<close>

definition mmap_spec :: "u32 \<Rightarrow> (u64 \<Rightarrow> u64 option) \<Rightarrow> bool" where
  "mmap_spec page mmap \<longleftrightarrow>
     (\<forall>len a. mmap len = Some a \<longrightarrow> unat a + unat len < 2 ^ 64 \<and> unat page dvd unat a)"

definition page_ok :: "u32 \<Rightarrow> bool" where
  "page_ok page \<longleftrightarrow> 16 dvd unat page \<and> unat page < 2 ^ 31"

definition stack_bytes :: "int \<Rightarrow> nat" where
  "stack_bytes level = 1024 * (if level = MiniStack then MiniStackSize
     else if level = MediumStack then MediumStackSize else LargeStackSize)"

lemma unat_two_pages: "unat page < 2 ^ 31 \<Longrightarrow> unat (ucast (2 * page :: u32) :: u64) = 2 * unat page"
  by (simp add: unat_page unat_word_ariths)

lemma stack_total:
  assumes "page_ok page" and "sz = of_nat (stack_bytes level)"
  shows "unat (sz + ucast (2 * page) :: u64) = stack_bytes level + 2 * unat page"
    and "unat sz = stack_bytes level" and "16 dvd stack_bytes level" and "16 \<le> stack_bytes level"
proof -
  have b: "stack_bytes level \<le> 4194304" "16 dvd stack_bytes level" "16 \<le> stack_bytes level"
    by (auto simp: stack_bytes_def MiniStackSize_def MediumStackSize_def LargeStackSize_def)
  then show sz: "unat sz = stack_bytes level"
    by (simp add: assms(2) unat_of_nat)
  show "unat (sz + ucast (2 * page) :: u64) = stack_bytes level + 2 * unat page"
    using assms(1) b(1) unfolding page_ok_def
    by (simp add: unat_word_ariths(1) unat_two_pages sz)
  show "16 dvd stack_bytes level" "16 \<le> stack_bytes level" by (fact b)+
qed

lemma allocate_Ret:
  assumes "bRoutineStack_New mmap mprotect page level = Ret s"
  shows "level \<in> {MiniStack, MediumStack, LargeStack}"
    and "StackSize s = of_nat (stack_bytes level)"
    and "mmap (StackSize s + ucast (2 * page)) = Some (StackPtr s)"
    and "mprotect (StackPtr s) (ucast page)"
    and "mprotect (StackPtr s + StackSize s + ucast page) (ucast page)"
  using assms
  by (auto simp: bRoutineStack_New_def allocateStackMemory_def stack_bytes_def Let_def
      MiniStackSize_def MediumStackSize_def LargeStackSize_def
      split: if_splits option.splits)

section \<open>Properties\<close>

text \<open>
  C20: stack allocation. A stack that \<open>bRoutineStack::New\<close> returns has the size of its level,
  lies in one mapping between two protected pages, \<open>Stack::Del\<close> unmaps exactly the mapped range,
  and the region is fit for \<open>bContext::init\<close> (no wrap-around, aligned top).
\<close>

theorem stack_layout:
  assumes "bRoutineStack_New mmap mprotect page level = Ret s"
    and "mmap_spec page mmap" and "page_ok page"
  shows "unat (StackSize s) = stack_bytes level \<and> mprotect (StackPtr s) (ucast page) \<and>
    mprotect (StackPtr s + StackSize s + ucast page) (ucast page) \<and>
    (case Stack_Del_range page s of (a, len) \<Rightarrow> mmap len = Some a) \<and> stack_fits page s"
proof -
  note A = allocate_Ret [OF assms(1)]
  note T = stack_total [OF assms(3) A(2)]
  have "unat (StackPtr s) + (stack_bytes level + 2 * unat page) < 2 ^ 64"
    and "unat page dvd unat (StackPtr s)"
    using assms(2) A(3) T(1) unfolding mmap_spec_def by metis+
  moreover have "16 dvd unat (StackPtr s)"
    using calculation(2) assms(3) unfolding page_ok_def by (blast intro: dvd_trans)
  ultimately show ?thesis
    using A T assms(3) by (simp add: Stack_Del_range_def stack_fits_def page_ok_def)
qed

text \<open>The example: page size 4096, one mapping at \<open>0x10000\<close> whatever the length up to 8 MB.\<close>

definition ex_mmap :: "u64 \<Rightarrow> u64 option" where
  "ex_mmap len = (if len \<le> 8388608 then Some 65536 else None)"

lemma ex_mmap_spec: "mmap_spec 4096 ex_mmap"
  by (auto simp: mmap_spec_def ex_mmap_def word_le_nat_alt split: if_splits)

theorem stack_layout_witness:
  "unat (StackSize \<lparr>StackPtr = 65536, StackSize = 131072\<rparr>) = stack_bytes 1 \<and>
   stack_fits 4096 \<lparr>StackPtr = 65536, StackSize = 131072\<rparr>"
proof -
  have n: "bRoutineStack_New ex_mmap (\<lambda>_ _. True) 4096 1 =
      Ret \<lparr>StackPtr = 65536, StackSize = 131072\<rparr>"
    by (simp add: bRoutineStack_New_def allocateStackMemory_def MiniStack_def MiniStackSize_def
        ex_mmap_def Let_def)
  have pg: "page_ok 4096" by (simp add: page_ok_def)
  show ?thesis using stack_layout [OF n ex_mmap_spec pg] by blast
qed

text \<open>
  C19: the first switch to a new routine. It jumps to \<open>RoutineBegin\<close> with the routine as its
  argument, the stack pointer 8 below a 16-byte boundary as the ABI wants at a function's entry,
  8 bytes below the usable top; the one cell it writes is in the usable memory, off both guard pages.
\<close>

theorem first_switch_enters_RoutineBegin:
  assumes "stack_fits page s" and "rg m RDI \<noteq> rg m RSI"
    and "ctxs m (rg m RSI) = regs (bContext_init page rb self s c)"
  shows "rg (bSwap m) RIP = rb \<and> rg (bSwap m) RDI = self \<and>
    unat (rg (bSwap m) RSP) = unat (StackPtr s) + unat page + unat (StackSize s) - 8 \<and>
    unat (rg (bSwap m) RSP) mod 16 = 8 \<and>
    (\<exists>a. stk (bSwap m) = (stk m)(a := rb) \<and> unat (StackPtr s) + unat page \<le> unat a \<and>
         unat a + 8 \<le> unat (StackPtr s) + unat page + unat (StackSize s))"
proof -
  let ?top = "unat (StackPtr s) + unat page + unat (StackSize s)"
  let ?sp = "regs (bContext_init page rb self s c) kRSP"
  have fit: "?top < 2 ^ 64" "16 dvd ?top" "16 \<le> unat (StackSize s)"
    using assms(1) by (auto simp: stack_fits_def)
  have sp: "unat ?sp = ?top - 16" by (rule bContext_init_sp [OF assms(1)])
  have slot: "regs (bContext_init page rb self s c) 9 = rb"
    "regs (bContext_init page rb self s c) 7 = self"
    "?sp = regs (bContext_init page rb self s c) 13"
    by (simp_all add: bContext_init_def kRSP_def kRDI_def kRSI_def kRETAddr_def Let_def)
  have cx: "rg (bSwap_save m) RSI = rg m RSI"
    "ctxs (bSwap_save m) (rg m RSI) = regs (bContext_init page rb self s c)"
    "stk (bSwap_save m) = stk m"
    using assms(2,3) by (simp_all add: bSwap_save_eq)
  note L = bSwap_load_regs [of "bSwap_save m", unfolded cx]
  have rsp: "rg (bSwap m) RSP = ?sp + 8" by (simp add: bSwap_def L slot)
  have top: "unat (?sp + 8) = ?top - 8"
    using fit by (simp add: unat_word_ariths sp)
  obtain j where j: "?top = 16 * j" using fit(2) by (auto simp: dvd_def)
  then obtain i where "j = Suc i" using fit(3) by (cases j) simp_all
  then have "?top - 8 = 8 + i * 16" using j by simp
  then have "(?top - 8) mod 16 = 8" by (simp only: mod_mult_self1) simp
  moreover have "stk (bSwap m) = (stk m)(?sp := rb)" by (simp add: bSwap_def L slot)
  ultimately show ?thesis
    using fit sp by (simp add: rsp top) (auto simp: bSwap_def L slot intro!: exI [of _ ?sp])
qed

definition ex_start :: machine where
  "ex_start = \<lparr>rg = (\<lambda>_. 5)(RDI := 1000, RSI := 2000, RSP := 80),
     ctxs = (\<lambda>_ _. 0)(2000 := regs (bContext_init 4096 777 42
       \<lparr>StackPtr = 65536, StackSize = 131072\<rparr> bContext_New)), stk = (\<lambda>_. 0)\<rparr>"

theorem first_switch_enters_RoutineBegin_witness:
  "rg (bSwap ex_start) RIP = 777 \<and> rg (bSwap ex_start) RDI = 42 \<and>
   unat (rg (bSwap ex_start) RSP) = 200696"
proof -
  have f: "stack_fits 4096 \<lparr>StackPtr = 65536, StackSize = 131072\<rparr>" by (simp add: stack_fits_def)
  show ?thesis
    using first_switch_enters_RoutineBegin [OF f, of ex_start 777 42 bContext_New]
    by (simp add: ex_start_def)
qed

text \<open>
  C18: the switch round trip. After \<open>bSwap(a, b)\<close>, whatever runs in between, as long as it
  leaves the saved image of \<open>a\<close> alone, the next switch to \<open>a\<close> returns to the first call's
  return address with the stack pointer past it and every register but \<open>RAX\<close> as it was.
\<close>

theorem bSwap_resumes:
  assumes "rg m0 RDI \<noteq> rg m0 RSI"
    and "rg m2 RSI = rg m0 RDI" and "rg m2 RDI \<noteq> rg m0 RDI"
    and "ctxs m2 (rg m0 RDI) = ctxs (bSwap m0) (rg m0 RDI)"
  shows "rg (bSwap m2) = (rg m0)(RAX := 0, RIP := stk m0 (rg m0 RSP), RSP := rg m0 RSP + 8) \<and>
    stk (bSwap m2) = (stk m2)(rg m0 RSP := stk m0 (rg m0 RSP)) \<and>
    ctxs (bSwap m2) (rg m2 RDI) = saved_image m2"
proof -
  have img: "ctxs (bSwap_save m2) (rg m0 RDI) = saved_image m0"
    using assms by (simp add: bSwap_def bSwap_save_eq bSwap_load_regs)
  have rsi: "rg (bSwap_save m2) RSI = rg m0 RDI" by (simp add: bSwap_save_eq assms(2))
  note L = bSwap_load_regs [of "bSwap_save m2", unfolded rsi img]
  have "rg (bSwap m2) r = ((rg m0)(RAX := 0, RIP := stk m0 (rg m0 RSP), RSP := rg m0 RSP + 8)) r"
    for r unfolding bSwap_def L
    by (cases r) (simp_all add: saved_image_def, simp_all add: bSwap_save_eq)
  moreover have "stk (bSwap m2) = (stk m2)(rg m0 RSP := stk m0 (rg m0 RSP))"
    by (simp add: bSwap_def L saved_image_def) (simp add: bSwap_save_eq)
  moreover have "ctxs (bSwap m2) (rg m2 RDI) = saved_image m2"
    by (simp add: bSwap_def L) (simp add: bSwap_save_eq)
  ultimately show ?thesis by (simp add: fun_eq_iff)
qed

definition ex_machine :: machine where
  "ex_machine = \<lparr>rg = (\<lambda>_. 5)(RDI := 1000, RSI := 2000, RSP := 80, RBX := 33),
     ctxs = (\<lambda>_ _. 0)(2000 := (\<lambda>_. 0)(7 := 2000, 8 := 1000, 13 := 160)), stk = (\<lambda>_. 0)(80 := 77)\<rparr>"

theorem bSwap_resumes_witness:
  "rg (bSwap (bSwap ex_machine)) RIP = 77 \<and> rg (bSwap (bSwap ex_machine)) RSP = 88 \<and>
   rg (bSwap (bSwap ex_machine)) RBX = 33"
proof -
  have a: "rg ex_machine RDI \<noteq> rg ex_machine RSI" by (simp add: ex_machine_def)
  have regs: "rg (bSwap ex_machine) RSI = rg ex_machine RDI" "rg (bSwap ex_machine) RDI \<noteq> rg ex_machine RDI"
    by (simp_all add: bSwap_def bSwap_load_regs bSwap_save_eq ex_machine_def)
  show ?thesis
    using bSwap_resumes [OF a regs refl] by (simp add: ex_machine_def)
qed


end
