(* ===== verification/Pools.thy ===== *)
theory Pools
  imports Prelude Stacks
begin

text \<open>
  The free lists of \<open>b_routine_env.h\<close> and \<open>b_routine_env.cc\<close>: the template \<open>List<T>\<close> with its
  nodes on a heap of its own, the pool of finished routines and the pool of their stacks.
\<close>

section \<open>The list template\<close>

type_synonym nodep = nat

record 'v ListNode =
  ln_next :: "nodep option"
  ln_prev :: "nodep option"
  ln_value :: 'v

record 'v PtrList =
  Head :: "nodep option"
  Tail :: "nodep option"
  ls_size :: u64
  ln_heap :: "nodep \<Rightarrow> 'v ListNode option"
  ln_brk :: nodep

definition PtrList_empty :: "'v PtrList" where
  "PtrList_empty = \<lparr>Head = None, Tail = None, ls_size = 0, ln_heap = (\<lambda>_. None), ln_brk = 0\<rparr>"

definition node_at :: "nodep option \<Rightarrow> 'v PtrList \<Rightarrow> 'v ListNode prog" where
  "node_at p L = (case p of None \<Rightarrow> Fail NullDeref
     | Some a \<Rightarrow> (case ln_heap L a of None \<Rightarrow> Fail BadAddress | Some n \<Rightarrow> Ret n))"

definition upd_node ::
    "nodep option \<Rightarrow> ('v ListNode \<Rightarrow> 'v ListNode) \<Rightarrow> 'v PtrList \<Rightarrow> 'v PtrList prog" where
  "upd_node p f L = (case p of None \<Rightarrow> Fail NullDeref
     | Some a \<Rightarrow> (case ln_heap L a of None \<Rightarrow> Fail BadAddress
        | Some n \<Rightarrow> Ret (L\<lparr>ln_heap := (ln_heap L)(a \<mapsto> f n)\<rparr>)))"

definition del_node :: "nodep option \<Rightarrow> 'v PtrList \<Rightarrow> 'v PtrList prog" where
  "del_node p L = (case p of None \<Rightarrow> Ret L
     | Some a \<Rightarrow> (case ln_heap L a of None \<Rightarrow> Fail BadAddress
        | Some n \<Rightarrow> Ret (L\<lparr>ln_heap := (ln_heap L)(a := None)\<rparr>)))"

definition List_pop :: "'v PtrList \<Rightarrow> ('v option \<times> 'v PtrList) prog" where
  "List_pop L =
     (if Head L = None then Ret (None, L)
      else
        let L = L\<lparr>ls_size := ls_size L - 1\<rparr>; i = Head L in
        if Tail L = Head L then
          let L = L\<lparr>Head := None, Tail := None\<rparr> in
          pbind (node_at i L) (\<lambda>n.
          pbind (del_node i L) (\<lambda>L.
          Ret (Some (ln_value n), L)))
        else
          pbind (node_at i L) (\<lambda>n.
          let L = L\<lparr>Head := ln_next n\<rparr> in
          pbind (upd_node (Head L) (\<lambda>m. m\<lparr>ln_prev := None\<rparr>) L) (\<lambda>L.
          pbind (node_at i L) (\<lambda>n.
          pbind (del_node i L) (\<lambda>L.
          Ret (Some (ln_value n), L))))))"

definition List_push :: "'v \<Rightarrow> 'v PtrList \<Rightarrow> 'v PtrList prog" where
  "List_push val L =
     (let L = L\<lparr>ls_size := ls_size L + 1\<rparr>;
          i = ln_brk L;
          L = L\<lparr>ln_heap := (ln_heap L)(i \<mapsto> \<lparr>ln_next = None, ln_prev = None, ln_value = val\<rparr>),
                ln_brk := i + 1\<rparr>
      in if Tail L = None then Ret (L\<lparr>Head := Some i, Tail := Some i\<rparr>)
         else
           pbind (upd_node (Tail L) (\<lambda>n. n\<lparr>ln_next := Some i\<rparr>) L) (\<lambda>M.
           pbind (upd_node (Some i) (\<lambda>n. n\<lparr>ln_prev := Tail M\<rparr>) M) (\<lambda>M.
           Ret (M\<lparr>Tail := Some i\<rparr>))))"

lemmas node_defs = node_at_def upd_node_def del_node_def Let_def

subsection \<open>What a list stands for\<close>

definition lnxt :: "'v PtrList \<Rightarrow> nodep \<Rightarrow> nodep option" where
  "lnxt L a = Option.bind (ln_heap L a) ln_next"

definition lprv :: "'v PtrList \<Rightarrow> nodep \<Rightarrow> nodep option" where
  "lprv L a = Option.bind (ln_heap L a) ln_prev"

definition vals :: "'v PtrList \<Rightarrow> nodep list \<Rightarrow> 'v option list" where
  "vals L ps = map (\<lambda>p. map_option ln_value (ln_heap L p)) ps"

text \<open>
  The nodes reached from \<open>Head\<close> are all the nodes there are: nothing leaks. The
  size is exact and \<open>Tail\<close> is the last node.
\<close>

definition nodes_ok :: "'v PtrList \<Rightarrow> nodep list \<Rightarrow> 'v list \<Rightarrow> bool" where
  "nodes_ok L ps xs \<longleftrightarrow> dseg (lnxt L) (lprv L) (Head L) None ps (Tail L) None \<and> distinct ps \<and>
     vals L ps = map Some xs \<and> dom (ln_heap L) = set ps \<and> (\<forall>p \<in> set ps. p < ln_brk L) \<and>
     length xs < 2 ^ 64 \<and> ls_size L = of_nat (length xs)"

definition list_rel :: "'v PtrList \<Rightarrow> 'v list \<Rightarrow> bool" where
  "list_rel L xs \<longleftrightarrow> (\<exists>ps. nodes_ok L ps xs)"

lemma list_rel_empty: "list_rel PtrList_empty []"
  unfolding list_rel_def nodes_ok_def
  by (rule exI [of _ "[]"]) (simp add: PtrList_empty_def vals_def)

lemma list_rel_size: "list_rel L xs \<Longrightarrow> ls_size L = 0 \<longleftrightarrow> xs = []"
proof -
  assume "list_rel L xs"
  then have *: "ls_size L = of_nat (length xs)" "length xs < 2 ^ 64"
    by (auto simp: list_rel_def nodes_ok_def)
  have "unat (ls_size L) = length xs" using * by (simp add: unat_of_nat)
  then show ?thesis by (auto simp: unat_eq_0)
qed

lemma List_pop_Nil: "list_rel L [] \<Longrightarrow> List_pop L = Ret (None, L)"
  by (auto simp: list_rel_def nodes_ok_def vals_def List_pop_def)

lemma List_pop_Cons:
  assumes "list_rel L (x # xs)"
  shows "\<exists>L'. List_pop L = Ret (Some x, L') \<and> list_rel L' xs"
proof -
  obtain qs where "nodes_ok L qs (x # xs)" using assms by (auto simp: list_rel_def)
  moreover obtain p ps where "qs = p # ps"
    using calculation by (cases qs) (auto simp: nodes_ok_def vals_def)
  ultimately obtain n where ok: "nodes_ok L (p # ps) (x # xs)"
    and n: "ln_heap L p = Some n" "ln_value n = x"
    by (auto simp: nodes_ok_def vals_def)
  then have d: "dseg (lnxt L) (lprv L) (Head L) None (p # ps) (Tail L) None" "distinct (p # ps)"
    "vals L ps = map Some xs" "dom (ln_heap L) = set (p # ps)" "\<forall>q \<in> set (p # ps). q < ln_brk L"
    "length (x # xs) < 2 ^ 64" "ls_size L - 1 = of_nat (length xs)"
    by (auto simp: nodes_ok_def vals_def)
  have hd: "Head L = Some p" using d(1) by simp
  show ?thesis
  proof (cases ps)
    case Nil
    then have tl: "Tail L = Some p" and xs: "xs = []" using d by (auto simp: vals_def)
    let ?L = "L\<lparr>Head := None, Tail := None, ls_size := ls_size L - 1, ln_heap := (ln_heap L)(p := None)\<rparr>"
    have "List_pop L = Ret (Some x, ?L)"
      using hd tl n by (auto simp: List_pop_def node_defs intro!: PtrList.equality)
    moreover have "nodes_ok ?L [] xs"
      using d Nil xs by (auto simp: nodes_ok_def vals_def)
    ultimately show ?thesis by (auto simp: list_rel_def)
  next
    case (Cons r rs)
    then obtain m where m: "ln_heap L r = Some m" "ln_next n = Some r"
      using d(1,4) n by (auto simp: lnxt_def)
    have tl: "Tail L \<noteq> Some p" using dseg_last [OF d(1)] d(2) Cons by auto
    let ?L = "L\<lparr>Head := Some r, ls_size := ls_size L - 1,
      ln_heap := (ln_heap L)(r \<mapsto> m\<lparr>ln_prev := None\<rparr>, p := None)\<rparr>"
    have rp: "r \<noteq> p" using d(2) Cons by auto
    have "List_pop L = Ret (Some x, ?L)"
      using hd tl n m rp by (auto simp: List_pop_def node_defs intro!: PtrList.equality)
    moreover have "nodes_ok ?L ps xs"
      unfolding nodes_ok_def
    proof (intro conjI)
      have lnk: "lnxt ?L = (lnxt L)(p := None)" "lprv ?L = (lprv L)(r := None, p := None)"
        using m by (auto simp: lnxt_def lprv_def)
      have "dseg (lnxt L) (lprv L) (Some r) (Some p) ps (Tail L) None"
        using d(1) n m by (auto simp: lnxt_def)
      then have "dseg (lnxt L) ((lprv L)(r := None)) (Some r) None ps (Tail L) None"
        unfolding Cons by (rule dseg_redirect_first) (use d(2) Cons in simp)
      then show "dseg (lnxt ?L) (lprv ?L) (Head ?L) None ps (Tail ?L) None"
        using d(2) by (simp add: lnk)
      show "vals ?L ps = map Some xs"
        using d(2,3) m by (auto simp: vals_def list_eq_iff_nth_eq map_eq_conv split: if_splits)
      show "dom (ln_heap ?L) = set ps" using d(2,4) Cons by auto
    qed (use d in auto)
    ultimately show ?thesis by (auto simp: list_rel_def)
  qed
qed

lemma List_push_snoc:
  assumes "list_rel L xs" and "length xs < 2 ^ 64 - 1"
  shows "\<exists>L'. List_push v L = Ret L' \<and> list_rel L' (xs @ [v])"
proof -
  obtain ps where "nodes_ok L ps xs" using assms(1) by (auto simp: list_rel_def)
  then have d: "dseg (lnxt L) (lprv L) (Head L) None ps (Tail L) None" "distinct ps"
    "vals L ps = map Some xs" "dom (ln_heap L) = set ps" "\<forall>q \<in> set ps. q < ln_brk L"
    "ls_size L = of_nat (length xs)"
    by (auto simp: nodes_ok_def)
  let ?i = "ln_brk L"
  have fresh: "?i \<notin> set ps" using d(5) by auto
  show ?thesis
  proof (cases ps rule: rev_cases)
    case Nil
    then have xs: "xs = []" and tl: "Tail L = None" using d by (auto simp: vals_def)
    let ?L = "L\<lparr>Head := Some ?i, Tail := Some ?i, ls_size := ls_size L + 1, ln_heap := (ln_heap L)(?i \<mapsto>
        \<lparr>ln_next = None, ln_prev = None, ln_value = v\<rparr>), ln_brk := Suc ?i\<rparr>"
    have "List_push v L = Ret ?L"
      using tl by (auto simp: List_push_def node_defs intro!: PtrList.equality)
    moreover have "nodes_ok ?L [?i] [v]"
      using d Nil xs by (auto simp: nodes_ok_def vals_def lnxt_def lprv_def)
    ultimately show ?thesis using xs by (auto simp: list_rel_def)
  next
    case (snoc qs r)
    have tl: "Tail L = Some r" using d(1) snoc by (simp add: dseg_snoc)
    obtain m where m: "ln_heap L r = Some m" using d(4) snoc by auto
    have ri: "r \<noteq> ?i" using fresh snoc by auto
    let ?L = "L\<lparr>Tail := Some ?i, ls_size := ls_size L + 1, ln_heap := (ln_heap L)(r \<mapsto> m\<lparr>ln_next := Some ?i\<rparr>, ?i \<mapsto>
        \<lparr>ln_next = None, ln_prev = Some r, ln_value = v\<rparr>), ln_brk := Suc ?i\<rparr>"
    have "List_push v L = Ret ?L"
      using tl m ri by (auto simp: List_push_def node_defs fun_upd_twist intro!: PtrList.equality)
    moreover have "nodes_ok ?L (ps @ [?i]) (xs @ [v])"
      unfolding nodes_ok_def
    proof (intro conjI)
      have lnk: "lnxt ?L = (lnxt L)(r := Some ?i, ?i := None)" "lprv ?L = (lprv L)(?i := Some r)"
        using m by (auto simp: lnxt_def lprv_def)
      have "dseg ((lnxt L)(r := Some ?i)) (lprv L) (Head L) None ps (Tail L) (Some ?i)"
        using d(1,2) unfolding snoc by (rule dseg_redirect_last)
      then show "dseg (lnxt ?L) (lprv ?L) (Head ?L) None (ps @ [?i]) (Tail ?L) None"
        using fresh tl by (simp add: lnk dseg_snoc)
      have "vals ?L ps = vals L ps" using fresh m by (auto simp: vals_def)
      then show "vals ?L (ps @ [?i]) = map Some (xs @ [v])"
        using d(3) unfolding vals_def map_append by (simp del: map_eq_conv)
      show "dom (ln_heap ?L) = set (ps @ [?i])" using d(4) snoc by auto
    qed (use d fresh assms(2) in auto)
    ultimately show ?thesis by (auto simp: list_rel_def)
  qed
qed

text \<open>The template meets the queue contract, up to \<open>2 ^ 64 - 1\<close> elements.\<close>

interpretation ptrlist: fifo list_rel List_pop "\<lambda>_ _. True" List_push "2 ^ 64 - 1"
proof
  show "list_rel L [] \<Longrightarrow> \<exists>L'. List_pop L = Ret (None, L') \<and> list_rel L' []" for L :: "'a PtrList"
    by (simp add: List_pop_Nil)
  show "list_rel L (x # xs) \<Longrightarrow> \<exists>L'. List_pop L = Ret (Some x, L') \<and> list_rel L' xs"
    for L :: "'a PtrList" and x xs by (rule List_pop_Cons)
  show "list_rel L xs \<Longrightarrow> True \<Longrightarrow> length xs < 2 ^ 64 - 1 \<Longrightarrow>
      \<exists>L'. List_push x L = Ret L' \<and> list_rel L' (xs @ [x])"
    for L :: "'a PtrList" and x xs by (rule List_push_snoc)
qed simp

section \<open>The pool of finished routines\<close>

text \<open>Mutexes are held when \<open>True\<close>; the operations run without interruption.\<close>

record 'r bRoutinePool_t =
  rp_mutex :: bool
  DoneRoutines :: "'r PtrList"

definition bRoutinePool_New :: "'r bRoutinePool_t" where
  "bRoutinePool_New = \<lparr>rp_mutex = False, DoneRoutines = PtrList_empty\<rparr>"

definition bRoutinePool_pop :: "'r bRoutinePool_t \<Rightarrow> ('r option \<times> 'r bRoutinePool_t) prog" where
  "bRoutinePool_pop P =
     (if rp_mutex P then Fail SelfDeadlock
      else
        let P = P\<lparr>rp_mutex := True\<rparr> in
        pbind (if ls_size (DoneRoutines P) \<noteq> 0
               then pbind (List_pop (DoneRoutines P)) (\<lambda>(i, L). Ret (i, P\<lparr>DoneRoutines := L\<rparr>))
               else Ret (None, P)) (\<lambda>(i, P).
        Ret (i, P\<lparr>rp_mutex := False\<rparr>)))"

definition bRoutinePool_push :: "'r \<Rightarrow> 'r bRoutinePool_t \<Rightarrow> 'r bRoutinePool_t prog" where
  "bRoutinePool_push r P =
     (if rp_mutex P then Fail SelfDeadlock
      else
        let P = P\<lparr>rp_mutex := True\<rparr> in
        pbind (List_push r (DoneRoutines P)) (\<lambda>L.
        Ret (P\<lparr>DoneRoutines := L, rp_mutex := False\<rparr>)))"

definition routine_pool_rel :: "'r bRoutinePool_t \<Rightarrow> 'r list \<Rightarrow> bool" where
  "routine_pool_rel P xs \<longleftrightarrow> \<not> rp_mutex P \<and> list_rel (DoneRoutines P) xs"

lemma routine_pool_New: "routine_pool_rel bRoutinePool_New []"
  by (simp add: routine_pool_rel_def bRoutinePool_New_def list_rel_empty)

interpretation rpool: fifo routine_pool_rel bRoutinePool_pop "\<lambda>_ _. True" bRoutinePool_push "2 ^ 64 - 1"
proof
  show "\<exists>P'. bRoutinePool_pop P = Ret (None, P') \<and> routine_pool_rel P' []"
    if "routine_pool_rel P []" for P :: "'a bRoutinePool_t"
    using that list_rel_size [of "DoneRoutines P" "[]"]
    by (auto simp: routine_pool_rel_def bRoutinePool_pop_def Let_def)
  show "\<exists>P'. bRoutinePool_pop P = Ret (Some x, P') \<and> routine_pool_rel P' xs"
    if "routine_pool_rel P (x # xs)" for P :: "'a bRoutinePool_t" and x xs
    using that List_pop_Cons [of "DoneRoutines P" x xs] list_rel_size [of "DoneRoutines P" "x # xs"]
    by (auto simp: routine_pool_rel_def bRoutinePool_pop_def Let_def)
  show "\<exists>P'. bRoutinePool_push x P = Ret P' \<and> routine_pool_rel P' (xs @ [x])"
    if "routine_pool_rel P xs" "True" "length xs < 2 ^ 64 - 1" for P :: "'a bRoutinePool_t" and x xs
    using that List_push_snoc [of "DoneRoutines P" xs x]
    by (auto simp: routine_pool_rel_def bRoutinePool_push_def Let_def)
qed simp

section \<open>The pool of stacks\<close>

definition Max_Keep_Routines_Thread :: int where "Max_Keep_Routines_Thread = 1000"

type_synonym sid = nat

record bUnSharedStackPool_t =
  mutexMini :: bool
  mutexMedium :: bool
  mutexLarge :: bool
  DoneRoutinesMiniStacks :: "sid PtrList"
  DoneRoutinesMediumStacks :: "sid PtrList"
  DoneRoutinesLargeStacks :: "sid PtrList"
  RoutineNums :: int

definition bUnSharedStackPool_New :: bUnSharedStackPool_t where
  "bUnSharedStackPool_New = \<lparr>mutexMini = False, mutexMedium = False, mutexLarge = False,
     DoneRoutinesMiniStacks = PtrList_empty, DoneRoutinesMediumStacks = PtrList_empty,
     DoneRoutinesLargeStacks = PtrList_empty, RoutineNums = 0\<rparr>"

text \<open>\<open>if (size() != 0) i = pop();\<close> on one of the lists.\<close>

definition pop_if_any :: "'v PtrList \<Rightarrow> ('v option \<times> 'v PtrList) prog" where
  "pop_if_any L = (if ls_size L \<noteq> 0 then List_pop L else Ret (None, L))"

definition bUnSharedStackPool_pop ::
    "int \<Rightarrow> bUnSharedStackPool_t \<Rightarrow> (sid option \<times> bUnSharedStackPool_t) prog" where
  "bUnSharedStackPool_pop level P =
     pbind (if level = MiniStack then
              if mutexMini P then Fail SelfDeadlock
              else pbind (pop_if_any (DoneRoutinesMiniStacks P)) (\<lambda>(i, L).
                   Ret (i, P\<lparr>DoneRoutinesMiniStacks := L\<rparr>))
            else if level = MediumStack then
              if mutexMedium P then Fail SelfDeadlock
              else pbind (pop_if_any (DoneRoutinesMediumStacks P)) (\<lambda>(i, L).
                   Ret (i, P\<lparr>DoneRoutinesMediumStacks := L\<rparr>))
            else if level = LargeStack then
              if mutexLarge P then Fail SelfDeadlock
              else pbind (pop_if_any (DoneRoutinesLargeStacks P)) (\<lambda>(i, L).
                   Ret (i, P\<lparr>DoneRoutinesLargeStacks := L\<rparr>))
            else Ret (None, P)) (\<lambda>(i, P).
     Ret (i, if i = None then P else P\<lparr>RoutineNums := RoutineNums P - 1\<rparr>))"

text \<open>\<open>stks\<close> is the memory of stack descriptors, which \<open>push\<close> reads for the size.\<close>

definition bUnSharedStackPool_push ::
    "(sid \<Rightarrow> bRoutineStack option) \<Rightarrow> sid \<Rightarrow> bUnSharedStackPool_t \<Rightarrow> (int \<times> bUnSharedStackPool_t) prog" where
  "bUnSharedStackPool_push stks bst P =
     (if RoutineNums P \<ge> Max_Keep_Routines_Thread then Ret (- 1, P)
      else case stks bst of None \<Rightarrow> Fail BadAddress | Some s \<Rightarrow>
        pbind (let kb = StackSize s div 1024 in
               if kb = of_nat LargeStackSize then
                 if mutexLarge P then Fail SelfDeadlock
                 else pbind (List_push bst (DoneRoutinesMiniStacks P)) (\<lambda>L.
                      Ret (P\<lparr>DoneRoutinesMiniStacks := L\<rparr>))
               else if kb = of_nat MediumStackSize then
                 if mutexMedium P then Fail SelfDeadlock
                 else pbind (List_push bst (DoneRoutinesMediumStacks P)) (\<lambda>L.
                      Ret (P\<lparr>DoneRoutinesMediumStacks := L\<rparr>))
               else if kb = of_nat MiniStackSize then
                 if mutexMini P then Fail SelfDeadlock
                 else pbind (List_push bst (DoneRoutinesMiniStacks P)) (\<lambda>L.
                      Ret (P\<lparr>DoneRoutinesMiniStacks := L\<rparr>))
               else Ret P) (\<lambda>P.
        Ret (RoutineNums P + 1, P\<lparr>RoutineNums := RoutineNums P + 1\<rparr>)))"

text \<open>
  The invariant: the two lists in use, their stacks at least as large as the list's level, the
  count exact and within the bound, the list of large stacks empty.
\<close>

definition stack_pool_rel ::
    "(sid \<Rightarrow> bRoutineStack option) \<Rightarrow> bUnSharedStackPool_t \<Rightarrow> sid list \<Rightarrow> sid list \<Rightarrow> bool" where
  "stack_pool_rel stks P ms ds \<longleftrightarrow> \<not> mutexMini P \<and> \<not> mutexMedium P \<and> \<not> mutexLarge P \<and>
     list_rel (DoneRoutinesMiniStacks P) ms \<and> list_rel (DoneRoutinesMediumStacks P) ds \<and>
     list_rel (DoneRoutinesLargeStacks P) [] \<and>
     (\<forall>i \<in> set ms. \<exists>s. stks i = Some s \<and> StackSize s \<in> {131072, 4194304}) \<and>
     (\<forall>i \<in> set ds. \<exists>s. stks i = Some s \<and> StackSize s = 1048576) \<and>
     RoutineNums P = int (length ms + length ds) \<and> RoutineNums P \<le> Max_Keep_Routines_Thread"

lemmas stack_pool_defs = bUnSharedStackPool_pop_def bUnSharedStackPool_push_def stack_pool_rel_def
  MiniStack_def MediumStack_def LargeStack_def MiniStackSize_def MediumStackSize_def
  LargeStackSize_def Max_Keep_Routines_Thread_def Let_def

lemma stack_pool_New: "stack_pool_rel stks bUnSharedStackPool_New [] []"
  by (simp add: stack_pool_rel_def bUnSharedStackPool_New_def list_rel_empty Max_Keep_Routines_Thread_def)

lemma pop_if_any_Nil: "list_rel L [] \<Longrightarrow> pop_if_any L = Ret (None, L)"
  by (simp add: pop_if_any_def list_rel_size)

lemma pop_if_any_Cons: "list_rel L (x # xs) \<Longrightarrow> \<exists>L'. pop_if_any L = Ret (Some x, L') \<and> list_rel L' xs"
  using List_pop_Cons [of L x xs] by (simp add: pop_if_any_def list_rel_size)

text \<open>What \<open>pop\<close> hands out at each level: the first mini, the first medium, and no large stack.\<close>

lemma stack_pool_pop_Mini:
  assumes "stack_pool_rel stks P (m # ms) ds"
  shows "\<exists>P'. bUnSharedStackPool_pop MiniStack P = Ret (Some m, P') \<and> stack_pool_rel stks P' ms ds"
proof -
  have "list_rel (DoneRoutinesMiniStacks P) (m # ms)" using assms by (simp add: stack_pool_rel_def)
  from pop_if_any_Cons [OF this] obtain L
    where "pop_if_any (DoneRoutinesMiniStacks P) = Ret (Some m, L)" "list_rel L ms" by blast
  then show ?thesis using assms by (auto simp: stack_pool_defs)
qed

lemma stack_pool_pop_Medium:
  assumes "stack_pool_rel stks P ms (d # ds)"
  shows "\<exists>P'. bUnSharedStackPool_pop MediumStack P = Ret (Some d, P') \<and> stack_pool_rel stks P' ms ds"
proof -
  have "list_rel (DoneRoutinesMediumStacks P) (d # ds)" using assms by (simp add: stack_pool_rel_def)
  from pop_if_any_Cons [OF this] obtain L
    where "pop_if_any (DoneRoutinesMediumStacks P) = Ret (Some d, L)" "list_rel L ds" by blast
  then show ?thesis using assms by (auto simp: stack_pool_defs)
qed

lemma stack_pool_pop_none:
  assumes "stack_pool_rel stks P ms ds"
    and "level = MiniStack \<longrightarrow> ms = []" and "level = MediumStack \<longrightarrow> ds = []"
  shows "bUnSharedStackPool_pop level P = Ret (None, P)"
  using assms by (auto simp: stack_pool_defs pop_if_any_Nil)

lemma stack_pool_full:
  assumes "stack_pool_rel stks P ms ds" and "1000 \<le> length ms + length ds"
  shows "bUnSharedStackPool_push stks i P = Ret (- 1, P)"
  using assms by (auto simp: stack_pool_defs)

lemma stack_pool_push:
  assumes "stack_pool_rel stks P ms ds" and "length ms + length ds < 1000"
    and "stks i = Some s" and "StackSize s = of_nat (stack_bytes level)"
    and "ms' = (if level = MediumStack then ms else ms @ [i])"
    and "ds' = (if level = MediumStack then ds @ [i] else ds)"
  shows "\<exists>P'. bUnSharedStackPool_push stks i P = Ret (int (length ms + length ds) + 1, P') \<and>
    stack_pool_rel stks P' ms' ds'"
proof -
  note r = assms(1) [unfolded stack_pool_rel_def]
  obtain L where L: "List_push i (DoneRoutinesMiniStacks P) = Ret L" "list_rel L (ms @ [i])"
    using r assms(2) List_push_snoc [of "DoneRoutinesMiniStacks P" ms i] by auto
  obtain M where M: "List_push i (DoneRoutinesMediumStacks P) = Ret M" "list_rel M (ds @ [i])"
    using r assms(2) List_push_snoc [of "DoneRoutinesMediumStacks P" ds i] by auto
  consider "level = MiniStack" | "level = MediumStack" | "level \<notin> {MiniStack, MediumStack}" by blast
  then show ?thesis
  proof cases
    case 1
    then have "StackSize s = 131072" using assms(4) by (simp add: stack_bytes_def MiniStackSize_def)
    then show ?thesis using r L assms 1 by (auto simp: stack_pool_defs)
  next
    case 2
    then have "StackSize s = 1048576"
      using assms(4) by (simp add: stack_bytes_def MediumStackSize_def MiniStack_def MediumStack_def)
    then show ?thesis using r M assms 2 by (auto simp: stack_pool_defs)
  next
    case 3
    then have "StackSize s = 4194304" using assms(4) by (simp add: stack_bytes_def LargeStackSize_def)
    then show ?thesis using r L assms 3 by (auto simp: stack_pool_defs)
  qed
qed

section \<open>Any use of the stack pool\<close>

datatype pool_op = PopStack int | PushStack sid

datatype pool_res = Popped "sid option" | Pushed int

fun pool_step ::
    "(sid \<Rightarrow> bRoutineStack option) \<Rightarrow> pool_op \<Rightarrow> bUnSharedStackPool_t \<Rightarrow> (pool_res \<times> bUnSharedStackPool_t) prog" where
  "pool_step stks (PopStack level) P = pbind (bUnSharedStackPool_pop level P) (\<lambda>(i, P). Ret (Popped i, P))"
| "pool_step stks (PushStack i) P = pbind (bUnSharedStackPool_push stks i P) (\<lambda>(n, P). Ret (Pushed n, P))"

fun pool_run ::
    "(sid \<Rightarrow> bRoutineStack option) \<Rightarrow> pool_op list \<Rightarrow> bUnSharedStackPool_t \<Rightarrow>
     (pool_res list \<times> bUnSharedStackPool_t) prog" where
  "pool_run stks [] P = Ret ([], P)"
| "pool_run stks (op # ops) P = pbind (pool_step stks op P) (\<lambda>(r, P).
     pbind (pool_run stks ops P) (\<lambda>(rs, P). Ret (r # rs, P)))"

fun pool_res_ok :: "(sid \<Rightarrow> bRoutineStack option) \<Rightarrow> pool_op \<Rightarrow> pool_res \<Rightarrow> bool" where
  "pool_res_ok stks (PopStack level) (Popped None) = True"
| "pool_res_ok stks (PopStack level) (Popped (Some i)) =
     (level \<in> {MiniStack, MediumStack} \<and>
      (case stks i of None \<Rightarrow> False | Some s \<Rightarrow> stack_bytes level \<le> unat (StackSize s)))"
| "pool_res_ok stks (PushStack i) (Pushed n) = (n = - 1 \<or> 1 \<le> n \<and> n \<le> Max_Keep_Routines_Thread)"
| "pool_res_ok stks op r = False"

fun pool_res_delta :: "pool_res \<Rightarrow> int" where
  "pool_res_delta (Popped None) = 0"
| "pool_res_delta (Popped (Some i)) = - 1"
| "pool_res_delta (Pushed n) = (if n = - 1 then 0 else 1)"

text \<open>A stack as \<open>bRoutineStack::New\<close> makes it.\<close>

definition stack_of_level :: "(sid \<Rightarrow> bRoutineStack option) \<Rightarrow> sid \<Rightarrow> bool" where
  "stack_of_level stks i \<longleftrightarrow> (\<exists>s level. stks i = Some s \<and> StackSize s = of_nat (stack_bytes level))"

fun pushed_stack :: "pool_op \<Rightarrow> sid option" where
  "pushed_stack (PushStack i) = Some i"
| "pushed_stack (PopStack level) = None"

lemma stack_pool_nums:
  "stack_pool_rel stks P ms ds \<Longrightarrow> RoutineNums P = int (length ms + length ds) \<and> RoutineNums P \<le> 1000"
  by (simp add: stack_pool_rel_def Max_Keep_Routines_Thread_def)

lemma pool_step_ok:
  assumes rel: "stack_pool_rel stks P ms ds"
    and st: "\<And>i. pushed_stack op = Some i \<Longrightarrow> stack_of_level stks i"
  shows "\<exists>r P' ms' ds'. pool_step stks op P = Ret (r, P') \<and> stack_pool_rel stks P' ms' ds' \<and>
    pool_res_ok stks op r \<and> RoutineNums P' = RoutineNums P + pool_res_delta r"
proof (cases op)
  case (PushStack i)
  show ?thesis
  proof (cases "1000 \<le> length ms + length ds")
    case True
    from stack_pool_full [OF rel this] show ?thesis
      using PushStack rel by (intro exI conjI) auto
  next
    case False
    obtain s level where s: "stks i = Some s" "StackSize s = of_nat (stack_bytes level)"
      using st PushStack by (auto simp: stack_of_level_def)
    from False have "length ms + length ds < 1000" by simp
    from stack_pool_push [OF rel this s refl refl] obtain P' where
      "bUnSharedStackPool_push stks i P = Ret (int (length ms + length ds) + 1, P')"
      "stack_pool_rel stks P' (if level = MediumStack then ms else ms @ [i])
         (if level = MediumStack then ds @ [i] else ds)" by blast
    moreover from this(2) have "RoutineNums P' = RoutineNums P + 1"
      using stack_pool_nums [OF rel] stack_pool_nums [of stks P'] by (auto split: if_splits)
    ultimately show ?thesis using PushStack False
      by (intro exI conjI) (auto simp: Max_Keep_Routines_Thread_def)
  qed
next
  case (PopStack level)
  consider (mini) m ms1 where "level = MiniStack" "ms = m # ms1"
    | (medium) d ds1 where "level = MediumStack" "ds = d # ds1"
    | (none) "level = MiniStack \<longrightarrow> ms = []" "level = MediumStack \<longrightarrow> ds = []"
    by (cases ms; cases ds; cases "level = MiniStack"; cases "level = MediumStack")
       (auto simp: MiniStack_def MediumStack_def)
  then show ?thesis
  proof cases
    case mini
    then obtain P' where P': "bUnSharedStackPool_pop level P = Ret (Some m, P')" "stack_pool_rel stks P' ms1 ds"
      using stack_pool_pop_Mini rel by blast
    moreover have "\<exists>s. stks m = Some s \<and> stack_bytes level \<le> unat (StackSize s)"
      using rel mini by (auto simp: stack_pool_rel_def stack_bytes_def MiniStackSize_def)
    moreover have "RoutineNums P' = RoutineNums P - 1"
      using stack_pool_nums [OF rel] stack_pool_nums [OF P'(2)] mini by simp
    ultimately show ?thesis using PopStack mini by (intro exI conjI) auto
  next
    case medium
    then obtain P' where P': "bUnSharedStackPool_pop level P = Ret (Some d, P')" "stack_pool_rel stks P' ms ds1"
      using stack_pool_pop_Medium rel by blast
    moreover have "\<exists>s. stks d = Some s \<and> stack_bytes level \<le> unat (StackSize s)"
      using rel medium by (auto simp: stack_pool_rel_def stack_bytes_def MediumStackSize_def
          MiniStack_def MediumStack_def)
    moreover have "RoutineNums P' = RoutineNums P - 1"
      using stack_pool_nums [OF rel] stack_pool_nums [OF P'(2)] medium by simp
    ultimately show ?thesis using PopStack medium by (intro exI conjI) auto
  next
    case none
    from stack_pool_pop_none [OF rel this] show ?thesis
      using PopStack rel by (intro exI conjI) auto
  qed
qed

lemma pool_run_ok:
  "stack_pool_rel stks P ms ds \<Longrightarrow> (\<And>i. Some i \<in> pushed_stack ` set ops \<Longrightarrow> stack_of_level stks i) \<Longrightarrow>
   \<exists>rs P' ms' ds'. pool_run stks ops P = Ret (rs, P') \<and> stack_pool_rel stks P' ms' ds' \<and>
     list_all2 (pool_res_ok stks) ops rs \<and> RoutineNums P' = RoutineNums P + sum_list (map pool_res_delta rs)"
proof (induction ops arbitrary: P ms ds)
  case Nil
  then show ?case by auto
next
  case (Cons op ops)
  have "stack_of_level stks i" if "pushed_stack op = Some i" for i
    using Cons.prems(2) [of i] that by (simp add: image_iff)
  from pool_step_ok [OF Cons.prems(1) this] obtain r P1 ms1 ds1 where
    r: "pool_step stks op P = Ret (r, P1)" "pool_res_ok stks op r"
      "RoutineNums P1 = RoutineNums P + pool_res_delta r"
    and rel: "stack_pool_rel stks P1 ms1 ds1" by blast
  have "\<And>i. Some i \<in> pushed_stack ` set ops \<Longrightarrow> stack_of_level stks i" using Cons.prems(2) by auto
  from Cons.IH [OF rel this] obtain rs P' ms' ds' where
    "pool_run stks ops P1 = Ret (rs, P')" "stack_pool_rel stks P' ms' ds'"
    "list_all2 (pool_res_ok stks) ops rs" "RoutineNums P' = RoutineNums P1 + sum_list (map pool_res_delta rs)"
    by blast
  then show ?case using r by auto
qed

section \<open>Properties\<close>

text \<open>
  the pool of finished routines is a queue: routines recycled in some order are handed out
  again in that order, and the pool is empty afterwards.
\<close>

theorem routine_pool_fifo:
  assumes "distinct rs" and "length rs < 2 ^ 64"
  shows "\<exists>P. pbind (push_list bRoutinePool_push rs bRoutinePool_New) (pop_times bRoutinePool_pop (length rs)) =
      Ret (map Some rs, P) \<and> bRoutinePool_pop P = Ret (None, P)"
proof -
  obtain P where P: "pbind (push_list bRoutinePool_push rs bRoutinePool_New)
      (pop_times bRoutinePool_pop (length rs)) = Ret (map Some rs, P)" "routine_pool_rel P []"
    using rpool.push_list_pop_times [OF routine_pool_New assms(1)] assms(2) by auto
  moreover have "bRoutinePool_pop P = Ret (None, P)"
    using P(2) list_rel_size [of "DoneRoutines P" "[]"]
    by (simp add: routine_pool_rel_def bRoutinePool_pop_def Let_def)
  ultimately show ?thesis by blast
qed

theorem routine_pool_fifo_witness:
  "\<exists>P. pbind (push_list bRoutinePool_push [7, 3, 9 :: nat] bRoutinePool_New) (pop_times bRoutinePool_pop 3) =
      Ret ([Some 7, Some 3, Some 9], P)"
proof -
  have "distinct [7, 3, 9 :: nat]" "length [7, 3, 9 :: nat] < 2 ^ 64" by simp_all
  from routine_pool_fifo [OF this] show ?thesis by (auto simp: numeral_3_eq_3)
qed

text \<open>
  C21: whatever is pushed to and popped from the stack pool, in any order, each stack handed
  out is at least as large as the level asked for, at most 1000 stacks are kept, a push beyond that
  is refused with -1, and \<open>RoutineNums\<close> is the number of stacks held.
\<close>

theorem stack_pool_safe:
  assumes "\<And>i. Some i \<in> pushed_stack ` set ops \<Longrightarrow> stack_of_level stks i"
  shows "\<exists>rs P. pool_run stks ops bUnSharedStackPool_New = Ret (rs, P) \<and>
    list_all2 (pool_res_ok stks) ops rs \<and> RoutineNums P = sum_list (map pool_res_delta rs) \<and>
    0 \<le> RoutineNums P \<and> RoutineNums P \<le> Max_Keep_Routines_Thread"
proof -
  from pool_run_ok [OF stack_pool_New assms] obtain rs P ms ds where
    "pool_run stks ops bUnSharedStackPool_New = Ret (rs, P)" "stack_pool_rel stks P ms ds"
    "list_all2 (pool_res_ok stks) ops rs"
    "RoutineNums P = RoutineNums bUnSharedStackPool_New + sum_list (map pool_res_delta rs)"
    by blast
  then show ?thesis by (auto simp: stack_pool_rel_def bUnSharedStackPool_New_def)
qed

definition ex_stacks :: "sid \<Rightarrow> bRoutineStack option" where
  "ex_stacks = [1 \<mapsto> \<lparr>StackPtr = 65536, StackSize = 131072\<rparr>, 3 \<mapsto> \<lparr>StackPtr = 16777216, StackSize = 4194304\<rparr>]"

theorem stack_pool_safe_witness:
  "\<exists>rs P. pool_run ex_stacks [PushStack 1, PushStack 3, PopStack 2, PopStack 1] bUnSharedStackPool_New =
      Ret (rs, P) \<and> 0 \<le> RoutineNums P"
proof -
  have "stack_of_level ex_stacks i"
    if "Some i \<in> pushed_stack ` set [PushStack 1, PushStack 3, PopStack 2, PopStack 1]" for i
  proof -
    have "ex_stacks 1 = Some \<lparr>StackPtr = 65536, StackSize = of_nat (stack_bytes MiniStack)\<rparr>"
      "ex_stacks 3 = Some \<lparr>StackPtr = 16777216, StackSize = of_nat (stack_bytes LargeStack)\<rparr>"
      by (simp_all add: ex_stacks_def stack_bytes_def MiniStack_def MediumStack_def LargeStack_def
          MiniStackSize_def LargeStackSize_def)
    then show ?thesis using that unfolding stack_of_level_def by fastforce
  qed
  from stack_pool_safe [OF this] show ?thesis by blast
qed

text \<open>
  C22: a large stack is recycled into the list of mini stacks. A request for a large stack never
  finds it, and the next request for a mini stack gets the 4 MB one.
\<close>

theorem large_stack_recycled_as_mini:
  assumes "stack_pool_rel stks P [] ds" and "length ds < 1000"
    and "stks i = Some s" and "StackSize s = of_nat (stack_bytes LargeStack)"
  shows "\<exists>n P1 P2. bUnSharedStackPool_push stks i P = Ret (n, P1) \<and>
    bUnSharedStackPool_pop LargeStack P1 = Ret (None, P1) \<and>
    bUnSharedStackPool_pop MiniStack P1 = Ret (Some i, P2) \<and> stack_pool_rel stks P2 [] ds"
proof -
  obtain P1 where P1: "bUnSharedStackPool_push stks i P = Ret (int (length ds) + 1, P1)"
    "stack_pool_rel stks P1 [i] ds"
    using stack_pool_push [OF assms(1) _ assms(3,4), of "[i]" ds] assms(2)
    by (auto simp: LargeStack_def MediumStack_def)
  moreover have "bUnSharedStackPool_pop LargeStack P1 = Ret (None, P1)"
    by (rule stack_pool_pop_none [OF P1(2)]) (simp_all add: LargeStack_def MiniStack_def MediumStack_def)
  ultimately show ?thesis using stack_pool_pop_Mini [OF P1(2)] by blast
qed

theorem large_stack_recycled_as_mini_witness:
  "\<exists>n P1 P2. bUnSharedStackPool_push ex_stacks 3 bUnSharedStackPool_New = Ret (n, P1) \<and>
    bUnSharedStackPool_pop MiniStack P1 = Ret (Some 3, P2)"
proof -
  have s: "ex_stacks 3 = Some \<lparr>StackPtr = 16777216, StackSize = 4194304\<rparr>" by (simp add: ex_stacks_def)
  have z: "StackSize \<lparr>StackPtr = 16777216, StackSize = 4194304\<rparr> = of_nat (stack_bytes LargeStack)"
    by (simp add: stack_bytes_def LargeStack_def MiniStack_def MediumStack_def LargeStackSize_def)
  show ?thesis
    using large_stack_recycled_as_mini [OF stack_pool_New [of ex_stacks] _ s z] by auto
qed

end
