(* ===== verification/Distributor.thy ===== *)
theory Distributor
  imports Task_Items Pools
begin

text \<open>
  The environment of \<open>b_routine_env.h\<close> and the task distributor of \<open>b_routine_env.cc\<close>: the
  records of routines, schedulers and the distributor, registration, the round robin of
  \<open>AddTask\<close>, and work stealing.
\<close>

section \<open>Routines, schedulers, the environment\<close>

type_synonym schid = nat

record bRoutine =
  rt_func :: nat
  rt_args :: "nat option"
  IsMain :: bool
  IsBegin :: bool
  IsDone :: bool
  IsHangup :: bool
  IsProgress :: bool
  IsEnableHook :: bool
  rt_id :: u16
  rt_stack :: "sid option"
  rt_context :: "bContext option"

text \<open>\<open>signalled\<close> counts the \<open>pthread_cond_signal\<close> calls on the scheduler's condition.\<close>

record bScheduler =
  pendingRoutine :: "rid option"
  occupyRoutine :: "rid option"
  ActivetaskItems :: laddr
  sch_ID :: int
  IsThreadRunning :: bool
  IsStop :: bool
  IsPendingNeedDelete :: bool
  sch_mutex :: bool
  signalled :: nat
  hangTimeOut :: "int \<times> int"

text \<open>The two arrays have the length they were allocated with; \<open>td_size\<close> says how much is in use.\<close>

record TaskDistributor_t =
  schedulers :: "schid option list"
  ActiveTasks :: "laddr option list"
  td_size :: int

text \<open>
  The environment on top of the memory of tasks: the routines, stacks and schedulers by
  address, the pools, the distributor, and the function-local statics \<open>i\<close> of \<open>AddTask\<close> and
  \<open>id\<close> of \<open>bRoutine::New\<close>. \<open>cur_sch\<close> is the thread-local \<open>scheduler\<close>.
\<close>

record rtenv = tmem +
  routines :: "rid \<Rightarrow> bRoutine option"
  routine_brk :: rid
  stks :: "sid \<Rightarrow> bRoutineStack option"
  stk_brk :: sid
  scheds :: "schid \<Rightarrow> bScheduler option"
  sched_brk :: schid
  RoutinePool :: "rid bRoutinePool_t"
  UnSharedStackPool :: bUnSharedStackPool_t
  TaskDistributor :: TaskDistributor_t
  AddTask_i :: u32
  New_id :: u16
  cur_sch :: schid

definition routine_at :: "rid option \<Rightarrow> 'z rtenv_scheme \<Rightarrow> bRoutine prog" where
  "routine_at p e = (case p of None \<Rightarrow> Fail NullDeref
     | Some r \<Rightarrow> (case routines e r of None \<Rightarrow> Fail BadAddress | Some x \<Rightarrow> Ret x))"

definition upd_routine ::
    "rid option \<Rightarrow> (bRoutine \<Rightarrow> bRoutine) \<Rightarrow> 'z rtenv_scheme \<Rightarrow> 'z rtenv_scheme prog" where
  "upd_routine p f e = (case p of None \<Rightarrow> Fail NullDeref
     | Some r \<Rightarrow> (case routines e r of None \<Rightarrow> Fail BadAddress
        | Some x \<Rightarrow> Ret (e\<lparr>routines := (routines e)(r \<mapsto> f x)\<rparr>)))"

definition sched_at :: "schid option \<Rightarrow> 'z rtenv_scheme \<Rightarrow> bScheduler prog" where
  "sched_at p e = (case p of None \<Rightarrow> Fail NullDeref
     | Some s \<Rightarrow> (case scheds e s of None \<Rightarrow> Fail BadAddress | Some x \<Rightarrow> Ret x))"

definition upd_sched ::
    "schid option \<Rightarrow> (bScheduler \<Rightarrow> bScheduler) \<Rightarrow> 'z rtenv_scheme \<Rightarrow> 'z rtenv_scheme prog" where
  "upd_sched p f e = (case p of None \<Rightarrow> Fail NullDeref
     | Some s \<Rightarrow> (case scheds e s of None \<Rightarrow> Fail BadAddress
        | Some x \<Rightarrow> Ret (e\<lparr>scheds := (scheds e)(s \<mapsto> f x)\<rparr>)))"

text \<open>A pointer to a list, followed.\<close>

definition deref :: "'a option \<Rightarrow> 'a prog" where
  "deref p = (case p of None \<Rightarrow> Fail NullDeref | Some a \<Rightarrow> Ret a)"

lemma env_access_simps [simp]:
  "routine_at None e = Fail NullDeref"
  "routines e r = Some x \<Longrightarrow> routine_at (Some r) e = Ret x"
  "sched_at None e = Fail NullDeref"
  "scheds e s = Some y \<Longrightarrow> sched_at (Some s) e = Ret y"
  "upd_routine None f e = Fail NullDeref"
  "routines e r = Some x \<Longrightarrow> upd_routine (Some r) f e = Ret (e\<lparr>routines := (routines e)(r \<mapsto> f x)\<rparr>)"
  "upd_sched None g e = Fail NullDeref"
  "scheds e s = Some y \<Longrightarrow> upd_sched (Some s) g e = Ret (e\<lparr>scheds := (scheds e)(s \<mapsto> g y)\<rparr>)"
  "deref None = Fail NullDeref" "deref (Some a) = Ret a"
  by (simp_all add: routine_at_def sched_at_def upd_routine_def upd_sched_def deref_def)

section \<open>The distributor\<close>

definition TaskDistributor_New :: "int \<Rightarrow> TaskDistributor_t" where
  "TaskDistributor_New n = \<lparr>schedulers = replicate (nat n) None,
     ActiveTasks = replicate (nat n) None, td_size = 0\<rparr>"

definition AddTask :: "addr option \<Rightarrow> 'z rtenv_scheme \<Rightarrow> 'z rtenv_scheme prog" where
  "AddTask task e =
     pbind (item_at task e) (\<lambda>t.
     pbind (routine_at (ti_self t) e) (\<lambda>r.
     if IsProgress r then Fail (Throw ''Task commit Wrong'')
     else
       let i = AddTask_i e in
       pbind (nth_at (ActiveTasks (TaskDistributor e)) (unat i)) (\<lambda>p.
       pbind (deref p) (\<lambda>l.
       pbind (pushBack l task e) (\<lambda>e.
       pbind (nth_at (schedulers (TaskDistributor e)) (unat i)) (\<lambda>s.
       pbind (sched_at s e) (\<lambda>sch.
       pbind (if \<not> IsThreadRunning sch \<and> \<not> sch_mutex sch
              then upd_sched s (\<lambda>x. x\<lparr>signalled := signalled x + 1\<rparr>) e
              else Ret e) (\<lambda>e.
       let n = of_int (td_size (TaskDistributor e)) in
       if n = 0 then Fail DivByZero
       else Ret (e\<lparr>AddTask_i := (AddTask_i e + 1) mod n\<rparr>)))))))))"

definition registe :: "schid \<Rightarrow> 'z rtenv_scheme \<Rightarrow> (int \<times> 'z rtenv_scheme) prog" where
  "registe i e =
     pbind (sched_at (Some i) e) (\<lambda>sch.
     let d = TaskDistributor e; a = td_size d in
     if a < 0 \<or> length (schedulers d) \<le> nat a \<or> length (ActiveTasks d) \<le> nat a then Fail OutOfBounds
     else Ret (a, e\<lparr>TaskDistributor := \<lparr>schedulers = (schedulers d)[nat a := Some i],
         ActiveTasks = (ActiveTasks d)[nat a := Some (ActivetaskItems sch)], td_size = a + 1\<rparr>\<rparr>))"

section \<open>The invariant of the distributor\<close>

text \<open>
  \<open>ls\<close> are the task lists of the registered schedulers, in order of registration; \<open>Q\<close> is
  what they hold.
\<close>

definition workers_ok :: "'z rtenv_scheme \<Rightarrow> laddr list \<Rightarrow> bool" where
  "workers_ok e ls \<longleftrightarrow> distinct ls \<and> length ls < 2 ^ 31 \<and>
     td_size (TaskDistributor e) = int (length ls) \<and>
     length ls \<le> length (ActiveTasks (TaskDistributor e)) \<and>
     length ls \<le> length (schedulers (TaskDistributor e)) \<and>
     (\<forall>j < length ls. ActiveTasks (TaskDistributor e) ! j = Some (ls ! j) \<and>
        (\<exists>s sch. schedulers (TaskDistributor e) ! j = Some s \<and> scheds e s = Some sch \<and>
           ActivetaskItems sch = ls ! j))"

definition dist_ok :: "'z rtenv_scheme \<Rightarrow> (laddr \<Rightarrow> addr list option) \<Rightarrow> laddr list \<Rightarrow> bool" where
  "dist_ok e Q ls \<longleftrightarrow> tasks_ok e Q \<and> workers_ok e ls \<and> (\<forall>l \<in> set ls. Q l \<noteq> None) \<and>
     unat (AddTask_i e) < length ls"

text \<open>A task that may be committed: detached, and its routine is not a scheduler's own.\<close>

definition task_ready :: "'z rtenv_scheme \<Rightarrow> addr \<Rightarrow> bool" where
  "task_ready e a \<longleftrightarrow> loose a e \<and> (\<exists>t r x. items e a = Some t \<and> ti_self t = Some r \<and>
     routines e r = Some x \<and> \<not> IsProgress x)"

text \<open>Equal rests of the memory have equal fields.\<close>

lemma rtenv_more_eq:
  assumes "tmem.more e' = tmem.more e"
  shows "routines e' = routines e" and "routine_brk e' = routine_brk e" and "stks e' = stks e"
    and "stk_brk e' = stk_brk e" and "scheds e' = scheds e" and "sched_brk e' = sched_brk e"
    and "RoutinePool e' = RoutinePool e" and "UnSharedStackPool e' = UnSharedStackPool e"
    and "TaskDistributor e' = TaskDistributor e" and "AddTask_i e' = AddTask_i e"
    and "New_id e' = New_id e" and "cur_sch e' = cur_sch e" and "rtenv.more e' = rtenv.more e"
  using assms by (cases e; cases e'; simp)+

lemma tasks_ok_cong:
  fixes h :: "'z tmem_scheme" and h' :: "'y tmem_scheme"
  shows "items h' = items h \<Longrightarrow> lists h' = lists h \<Longrightarrow> tasks_ok h' Q = tasks_ok h Q"
  by (simp add: tasks_ok_def links_ok_def unlocked_def)

lemma loose_cong: "items h' = items h \<Longrightarrow> loose a h' = loose a h"
  by (simp add: loose_def)

lemma unat_of_int_len: "n < 2 ^ 31 \<Longrightarrow> unat (of_int (int n) :: u32) = n"
  by (simp add: unat_of_nat)

lemma next_index:
  assumes "unat (i :: u32) < n" and "n < 2 ^ 31"
  shows "unat ((i + 1) mod of_int (int n)) = (unat i + 1) mod n" and "(of_int (int n) :: u32) \<noteq> 0"
proof -
  have n: "unat (of_int (int n) :: u32) = n" by (rule unat_of_int_len [OF assms(2)])
  have "unat (i + 1) = unat i + 1" using assms by (simp add: unat_word_ariths)
  then show "unat ((i + 1) mod of_int (int n)) = (unat i + 1) mod n"
    by (simp only: unat_mod_distrib n)
  show "(of_int (int n) :: u32) \<noteq> 0" using n assms(1) by auto
qed

text \<open>
  What committing tasks leaves alone: everything but links, counts and the signals sent.
\<close>

definition quiet :: "bScheduler \<Rightarrow> bScheduler" where
  "quiet s = s\<lparr>signalled := 0\<rparr>"

definition env_frame :: "'z rtenv_scheme \<Rightarrow> 'z rtenv_scheme \<Rightarrow> bool" where
  "env_frame e e' \<longleftrightarrow> (\<forall>x. map_option strip (items e' x) = map_option strip (items e x)) \<and>
     dom (lists e') = dom (lists e) \<and> item_brk e' = item_brk e \<and> list_brk e' = list_brk e \<and>
     (\<forall>s. map_option quiet (scheds e' s) = map_option quiet (scheds e s)) \<and>
     routines e' = routines e \<and> routine_brk e' = routine_brk e \<and> stks e' = stks e \<and>
     stk_brk e' = stk_brk e \<and> sched_brk e' = sched_brk e \<and> RoutinePool e' = RoutinePool e \<and>
     UnSharedStackPool e' = UnSharedStackPool e \<and> TaskDistributor e' = TaskDistributor e \<and>
     New_id e' = New_id e \<and> cur_sch e' = cur_sch e \<and> rtenv.more e' = rtenv.more e"

lemma env_frame_refl [simp]: "env_frame e e"
  by (simp add: env_frame_def)

lemma env_frame_trans [trans]: "env_frame e e' \<Longrightarrow> env_frame e' e'' \<Longrightarrow> env_frame e e''"
  by (simp add: env_frame_def)

lemma env_frame_links:
  assumes "link_frame e e'"
  shows "env_frame e e'"
proof -
  have "tmem.more e' = tmem.more e" using assms by (simp add: link_frame_def)
  from rtenv_more_eq [OF this] show ?thesis using assms by (simp add: env_frame_def link_frame_def)
qed

lemma env_frame_sched:
  assumes "env_frame e e'" and "scheds e s = Some y"
  obtains n where "scheds e' s = Some (y\<lparr>signalled := n\<rparr>)"
proof -
  have "map_option quiet (scheds e' s) = Some (quiet y)"
    using assms unfolding env_frame_def by (metis option.simps(9))
  then obtain y' where y': "scheds e' s = Some y'" "quiet y' = quiet y" by blast
  have "y' = y\<lparr>signalled := signalled y'\<rparr>"
    using y'(2) by (cases y; cases y') (simp add: quiet_def)
  with y'(1) that show thesis by metis
qed

lemma env_frame_item:
  assumes "env_frame e e'" and "items e a = Some t"
  obtains t' where "items e' a = Some t'" and "strip t' = strip t"
proof -
  have "map_option strip (items e' a) = Some (strip t)"
    using assms unfolding env_frame_def by (metis option.simps(9))
  then show thesis using that by blast
qed

lemma env_frame_brk: "env_frame e e' \<Longrightarrow> brk_ok e \<Longrightarrow> brk_ok e'"
  unfolding brk_ok_def env_frame_def
  by (metis (no_types, lifting) domIff option.map_disc_iff)

lemma AddTask_step:
  fixes e :: "'z rtenv_scheme"
  assumes ok: "dist_ok e Q ls" and a: "task_ready e a"
    and k: "k = unat (AddTask_i e)" and xs: "Q (ls ! k) = Some xs"
  shows "\<exists>e'. AddTask (Some a) e = Ret e' \<and> dist_ok e' (Q(ls ! k \<mapsto> xs @ [a])) ls \<and>
    unat (AddTask_i e') = (k + 1) mod length ls \<and> env_frame e e' \<and> count_of e' = (count_of e)(ls ! k := count_of e (ls ! k) + 1)"
proof -
  have n: "k < length ls" "length ls < 2 ^ 31" and tk: "tasks_ok e Q" and w: "workers_ok e ls"
    using ok k by (auto simp: dist_ok_def workers_ok_def)
  obtain t r x where t: "items e a = Some t" "ti_self t = Some r" "routines e r = Some x" "\<not> IsProgress x"
    and lo: "detached (items e) a" using a by (auto simp: task_ready_def loose_def)
  obtain s sch where s: "ActiveTasks (TaskDistributor e) ! k = Some (ls ! k)"
    "schedulers (TaskDistributor e) ! k = Some s" "scheds e s = Some sch" "ActivetaskItems sch = ls ! k"
    "k < length (ActiveTasks (TaskDistributor e))" "k < length (schedulers (TaskDistributor e))"
    "td_size (TaskDistributor e) = int (length ls)"
    using w n(1) unfolding workers_ok_def by fastforce
  obtain e1 where e1: "pushBack (ls ! k) (Some a) e = Ret e1" "tasks_ok e1 (Q(ls ! k \<mapsto> xs @ [a]))"
    "count_of e1 = (count_of e)(ls ! k := count_of e (ls ! k) + 1)" "link_frame e e1"
    using pushBack_tasks [OF tk xs t(1) lo] by blast
  have fr: "env_frame e e1" by (rule env_frame_links [OF e1(4)])
  then have f: "scheds e1 s = Some sch" "\<And>s. scheds e1 s = scheds e s" "TaskDistributor e1 = TaskDistributor e"
    "routines e1 = routines e" "AddTask_i e1 = AddTask_i e"
    using rtenv_more_eq [of e1 e] e1(4) s(3) by (simp_all add: link_frame_def)
  define e2 where "e2 = (if \<not> IsThreadRunning sch \<and> \<not> sch_mutex sch
    then e1\<lparr>scheds := (scheds e1)(s \<mapsto> sch\<lparr>signalled := signalled sch + 1\<rparr>)\<rparr> else e1)"
  define e3 where "e3 = e2\<lparr>AddTask_i := (AddTask_i e2 + 1) mod of_int (td_size (TaskDistributor e2))\<rparr>"
  have same: "items e2 = items e1" "lists e2 = lists e1" "routines e2 = routines e"
    "TaskDistributor e2 = TaskDistributor e" "AddTask_i e2 = AddTask_i e" "count_of e2 = count_of e1"
    by (auto simp: e2_def f count_of_def)
  have nz: "(of_int (td_size (TaskDistributor e)) :: u32) \<noteq> 0"
    using next_index(2) [of "AddTask_i e" "length ls"] n k s(7) by simp
  have "AddTask (Some a) e = Ret e3"
    using t s e1(1) k nz same f by (simp add: AddTask_def Let_def e3_def e2_def)
  moreover have i: "unat (AddTask_i e3) = (k + 1) mod length ls"
    using next_index(1) [of "AddTask_i e" "length ls"] n k s(7) by (simp add: e3_def same)
  moreover have fr': "env_frame e e3"
    using fr f(1) s(3) by (auto simp: env_frame_def e3_def e2_def quiet_def)
  moreover have "dist_ok e3 (Q(ls ! k \<mapsto> xs @ [a])) ls"
    unfolding dist_ok_def
  proof (intro conjI)
    show "tasks_ok e3 (Q(ls ! k \<mapsto> xs @ [a]))"
      using e1(2) tasks_ok_cong [of e3 e1] by (simp add: e3_def same)
    have sc: "\<exists>sch'. scheds e3 s' = Some sch' \<and> ActivetaskItems sch' = ActivetaskItems y"
      if "scheds e s' = Some y" for s' y
      using that s(3) by (auto simp: e3_def e2_def f)
    show "workers_ok e3 ls"
      using w sc unfolding workers_ok_def by (simp add: e3_def same) metis
    show "\<forall>l \<in> set ls. (Q(ls ! k \<mapsto> xs @ [a])) l \<noteq> None" using ok by (simp add: dist_ok_def)
    have "0 < length ls" using n(1) by linarith
    then show "unat (AddTask_i e3) < length ls" unfolding i by (rule mod_less_divisor)
  qed
  ultimately show ?thesis
    using e1(3) same fr' by (intro exI [of _ e3]) (simp add: e3_def count_of_def fun_eq_iff)
qed

text \<open>Environments that differ in what lies above the runtime only.\<close>

lemma dist_ok_above:
  assumes "items e' = items e" and "lists e' = lists e" and "TaskDistributor e' = TaskDistributor e"
    and "AddTask_i e' = AddTask_i e" and "scheds e' = scheds e"
  shows "dist_ok e' Q ls = dist_ok e Q ls"
  using assms tasks_ok_cong [OF assms(1,2)] by (simp add: dist_ok_def workers_ok_def)

text \<open>Committing several tasks, one after the other.\<close>

definition AddTasks :: "addr list \<Rightarrow> 'z rtenv_scheme \<Rightarrow> 'z rtenv_scheme prog" where
  "AddTasks = push_list (\<lambda>a. AddTask (Some a))"

lemma AddTasks_simps [simp]:
  "AddTasks [] e = Ret e"
  "AddTasks (a # as) e = pbind (AddTask (Some a) e) (AddTasks as)"
  by (simp_all add: AddTasks_def)

text \<open>The share of worker \<open>j\<close> of \<open>n\<close>, when the round robin stands at \<open>k\<close>.\<close>

fun share :: "nat \<Rightarrow> nat \<Rightarrow> nat \<Rightarrow> 'a list \<Rightarrow> 'a list" where
  "share n k j [] = []"
| "share n k j (x # xs) = (if k = j then x # share n ((k + 1) mod n) j xs else share n ((k + 1) mod n) j xs)"

lemma strip_payload:
  assumes "strip t' = strip t"
  shows "ti_self t' = ti_self t" and "timeoutCallFunc t' = timeoutCallFunc t"
    and "timeoutCallFuncArgs t' = timeoutCallFuncArgs t" and "epollFd t' = epollFd t"
  using arg_cong [OF assms, of ti_self] arg_cong [OF assms, of timeoutCallFunc]
    arg_cong [OF assms, of timeoutCallFuncArgs] arg_cong [OF assms, of epollFd]
  by (simp_all add: strip_def)

lemma task_ready_step:
  assumes "dist_ok e Q ls" and "dist_ok e' Q' ls" and "Q' = Q(l \<mapsto> xs @ [a])" and "Q l = Some xs"
    and fr: "env_frame e e'" and "task_ready e b" and "b \<noteq> a"
  shows "task_ready e' b"
proof -
  obtain t r x where t: "items e b = Some t" "ti_self t = Some r" "routines e r = Some x" "\<not> IsProgress x"
    and lo: "loose b e" using assms(6) by (auto simp: task_ready_def)
  have ok: "links_ok e Q" "links_ok e' Q'" using assms(1,2) by (auto simp: dist_ok_def)
  obtain t' where t': "items e' b = Some t'" "strip t' = strip t"
    by (rule env_frame_item [OF fr t(1)])
  then have "ti_self t' = Some r" using t(2) strip_payload(1) by metis
  moreover have "loose b e'"
  proof (rule links_ok_loose [OF ok(2)])
    show "items e' b \<noteq> None" using t' by simp
    show "b \<notin> set zs" if "Q' l' = Some zs" for l' zs
      using that assms(3,4,7) loose_not_in [OF ok(1) lo] by (auto split: if_splits)
  qed
  ultimately show ?thesis using t t' fr by (auto simp: task_ready_def env_frame_def)
qed

text \<open>
  \<open>dealt ls ts e Q e' Q'\<close>: between \<open>e\<close> and \<open>e'\<close> the tasks \<open>ts\<close> were handed to the
  workers in turn, which their \<open>ItemCount\<close> tells as well, and no other list changed.
\<close>

definition dealt ::
    "laddr list \<Rightarrow> addr list \<Rightarrow> 'z rtenv_scheme \<Rightarrow> (laddr \<Rightarrow> addr list option) \<Rightarrow>
     'z rtenv_scheme \<Rightarrow> (laddr \<Rightarrow> addr list option) \<Rightarrow> bool" where
  "dealt ls ts e Q e' Q' \<longleftrightarrow> dist_ok e' Q' ls \<and>
     (\<forall>j < length ls. the (Q' (ls ! j)) = the (Q (ls ! j)) @ share (length ls) (unat (AddTask_i e)) j ts) \<and>
     (\<forall>j < length ls. count_of e' (ls ! j) =
        count_of e (ls ! j) + of_nat (length (share (length ls) (unat (AddTask_i e)) j ts))) \<and>
     (\<forall>l. l \<notin> set ls \<longrightarrow> Q' l = Q l) \<and>
     unat (AddTask_i e') = (unat (AddTask_i e) + length ts) mod length ls"

lemma dealt_dist: "dealt ls ts e Q e' Q' \<Longrightarrow> dist_ok e' Q' ls"
  by (simp add: dealt_def)

lemma dealt_Nil: "dist_ok e Q ls \<Longrightarrow> dealt ls [] e Q e Q"
  by (simp add: dealt_def dist_ok_def)

lemma share_append:
  "k < n \<Longrightarrow> share n k j (xs @ ys) = share n k j xs @ share n ((k + length xs) mod n) j ys"
proof (induction xs arbitrary: k)
  case Nil
  then show ?case by simp
next
  case (Cons x xs)
  have "(k + 1) mod n < n" using Cons.prems by simp
  from Cons.IH [OF this] show ?case by (cases "k = j") (auto simp: mod_add_left_eq)
qed

lemma dealt_trans:
  assumes "dist_ok e Q ls" and "dealt ls ts e Q e1 Q1" and "dealt ls us e1 Q1 e2 Q2"
  shows "dealt ls (ts @ us) e Q e2 Q2"
proof -
  have k: "unat (AddTask_i e) < length ls" using assms(1) by (simp add: dist_ok_def)
  show ?thesis
    using assms(2,3) unfolding dealt_def
    by (auto simp: share_append [OF k] mod_add_left_eq add.assoc)
qed

text \<open>Only what lies above the runtime, or links, differs.\<close>

lemma dealt_cong:
  assumes "AddTask_i e2 = AddTask_i e" and "\<And>l. l \<in> set ls \<Longrightarrow> count_of e2 l = count_of e l"
  shows "dealt ls ts e2 Q e' Q' = dealt ls ts e Q e' Q'"
  using assms by (simp add: dealt_def)

lemma dealt_cong_after:
  assumes "items e2 = items e'" and "lists e2 = lists e'" and "TaskDistributor e2 = TaskDistributor e'"
    and "AddTask_i e2 = AddTask_i e'" and "scheds e2 = scheds e'"
  shows "dealt ls ts e Q e2 Q' = dealt ls ts e Q e' Q'"
  using dist_ok_above [OF assms] assms by (simp add: dealt_def count_of_def)

lemma AddTask_dealt:
  fixes e :: "'z rtenv_scheme"
  assumes ok: "dist_ok e Q ls" and a: "task_ready e a"
  shows "\<exists>e' Q'. AddTask (Some a) e = Ret e' \<and> dealt ls [a] e Q e' Q' \<and> env_frame e e' \<and>
    (\<forall>b. task_ready e b \<longrightarrow> b \<noteq> a \<longrightarrow> task_ready e' b) \<and>
    (\<forall>l. l \<notin> set ls \<longrightarrow> count_of e' l = count_of e l)"
proof -
  let ?k = "unat (AddTask_i e)"
  have kn: "?k < length ls" "distinct ls" using ok by (auto simp: dist_ok_def workers_ok_def)
  then have "Q (ls ! ?k) \<noteq> None" using ok by (simp add: dist_ok_def)
  then obtain xs where xs: "Q (ls ! ?k) = Some xs" by blast
  obtain e' where e': "AddTask (Some a) e = Ret e'" "dist_ok e' (Q(ls ! ?k \<mapsto> xs @ [a])) ls"
    "unat (AddTask_i e') = (?k + 1) mod length ls" "env_frame e e'"
    "count_of e' = (count_of e)(ls ! ?k := count_of e (ls ! ?k) + 1)"
    using AddTask_step [OF ok a refl xs] by blast
  have "dealt ls [a] e Q e' (Q(ls ! ?k \<mapsto> xs @ [a]))"
    using e' xs kn by (auto simp: dealt_def nth_eq_iff_index_eq)
  moreover have "task_ready e' b" if "task_ready e b" "b \<noteq> a" for b
    by (rule task_ready_step [OF ok e'(2) refl xs e'(4) that])
  moreover have "count_of e' l = count_of e l" if "l \<notin> set ls" for l
    using that kn(1) e'(5) by (metis fun_upd_other nth_mem)
  ultimately show ?thesis using e'(1,4) by blast
qed

text \<open>The round robin is a dealer: distinct ready tasks are dealt in the order they are committed.\<close>

interpretation dist: dealer "\<lambda>e Q. dist_ok e Q ls" task_ready "\<lambda>a. AddTask (Some a)"
  "\<lambda>as e Q e' Q'. dealt ls as e Q e' Q' \<and> env_frame e e'" for ls
proof
  fix e e1 e2 :: "'z rtenv_scheme" and Q Q1 Q2 as bs a
  show "dealt ls as e Q e1 Q1 \<and> env_frame e e1 \<Longrightarrow> dist_ok e1 Q1 ls" by (auto dest: dealt_dist)
  show "dist_ok e Q ls \<Longrightarrow> dealt ls [] e Q e Q \<and> env_frame e e" by (simp add: dealt_Nil)
  show "dist_ok e Q ls \<Longrightarrow> dealt ls as e Q e1 Q1 \<and> env_frame e e1 \<Longrightarrow> dealt ls bs e1 Q1 e2 Q2 \<and> env_frame e1 e2 \<Longrightarrow>
      dealt ls (as @ bs) e Q e2 Q2 \<and> env_frame e e2"
    using dealt_trans env_frame_trans by blast
  show "dist_ok e Q ls \<Longrightarrow> task_ready e a \<Longrightarrow> \<exists>e' Q'. AddTask (Some a) e = Ret e' \<and>
      (dealt ls [a] e Q e' Q' \<and> env_frame e e') \<and> (\<forall>b. task_ready e b \<longrightarrow> b \<noteq> a \<longrightarrow> task_ready e' b)"
    using AddTask_dealt by blast
qed

text \<open>Registration appends to the arrays.\<close>

lemma registe_workers:
  assumes w: "workers_ok e ls" and s: "scheds e s = Some sch" and new: "ActivetaskItems sch \<notin> set ls"
    and room: "length ls < length (ActiveTasks (TaskDistributor e))"
      "length ls < length (schedulers (TaskDistributor e))" "length ls < 2 ^ 31 - 1"
  shows "\<exists>e'. registe s e = Ret (int (length ls), e') \<and> workers_ok e' (ls @ [ActivetaskItems sch]) \<and>
    (\<forall>Q. tasks_ok e' Q = tasks_ok e Q)"
proof -
  let ?d = "TaskDistributor e"
  let ?e = "e\<lparr>TaskDistributor := \<lparr>schedulers = (schedulers ?d)[length ls := Some s],
    ActiveTasks = (ActiveTasks ?d)[length ls := Some (ActivetaskItems sch)], td_size = int (length ls) + 1\<rparr>\<rparr>"
  have "registe s e = Ret (int (length ls), ?e)"
    using w s room by (simp add: registe_def Let_def workers_ok_def)
  moreover have "workers_ok ?e (ls @ [ActivetaskItems sch])"
    using w s new room unfolding workers_ok_def
    by (auto simp: nth_append nth_list_update less_Suc_eq)
  moreover have "tasks_ok ?e Q = tasks_ok e Q" for Q by (rule tasks_ok_cong) simp_all
  ultimately show ?thesis by blast
qed

lemma registe_full:
  assumes "workers_ok e ls" and "scheds e s = Some sch" and "length ls = length (ActiveTasks (TaskDistributor e))"
  shows "registe s e = Fail OutOfBounds"
  using assms by (simp add: registe_def Let_def workers_ok_def)

section \<open>Work stealing\<close>

definition Try2stealTask :: "laddr \<Rightarrow> 'z rtenv_scheme \<Rightarrow> (addr option \<times> 'z rtenv_scheme) prog" where
  "Try2stealTask l e =
     pbind (list_at l e) (\<lambda>q.
     if ItemCount q = 0 then Ret (None, e)
     else if HeadMutex q then Ret (None, e)
     else
       pbind (lock_head l e) (\<lambda>e.
       pbind (list_at l e) (\<lambda>q.
       if ItemCount q < 2 then
         if ItemCount q = 0 then pbind (unlock_head l e) (\<lambda>e. Ret (None, e))
         else if TailMutex q then pbind (unlock_head l e) (\<lambda>e. Ret (None, e))
         else
           pbind (lock_tail l e) (\<lambda>e.
           pbind (popHeadUnsafe l e) (\<lambda>(a, e).
           pbind (item_at a e) (\<lambda>t.
           pbind (routine_at (ti_self t) e) (\<lambda>r.
           pbind (if IsMain r then pushBackUnsafe l a e else Ret e) (\<lambda>e.
           pbind (unlock_tail l e) (\<lambda>e.
           pbind (unlock_head l e) (\<lambda>e.
           Ret (a, e))))))))
       else
         pbind (popHeadUnsafe l e) (\<lambda>(a, e).
         pbind (item_at a e) (\<lambda>t.
         pbind (routine_at (ti_self t) e) (\<lambda>r.
         if IsMain r then
           pbind (lock_tail l e) (\<lambda>e.
           pbind (pushBackUnsafe l a e) (\<lambda>e.
           pbind (unlock_head l e) (\<lambda>e.
           pbind (unlock_tail l e) (\<lambda>e.
           Ret (None, e)))))
         else pbind (unlock_head l e) (\<lambda>e. Ret (a, e))))))))"

text \<open>The loop over the other workers' lists, from \<open>i\<close> until \<open>i\<close> is the thief's own.\<close>

partial_function (option) steal_loop ::
    "laddr \<Rightarrow> int \<Rightarrow> int \<Rightarrow> 'z rtenv_scheme \<Rightarrow> 'z rtenv_scheme prog" where
  "steal_loop mine ID i e =
     (if i = ID then Ret e
      else
        pbind (if i < 0 then Fail OutOfBounds else nth_at (ActiveTasks (TaskDistributor e)) (nat i)) (\<lambda>l.
        pbind (deref l) (\<lambda>l.
        pbind (Try2stealTask l e) (\<lambda>r.
        pbind (case fst r of None \<Rightarrow> Ret (snd r) | Some p \<Rightarrow> pushBack mine (Some p) (snd r)) (\<lambda>e.
        steal_loop mine ID (i + 1) e)))))"

definition stealTaskRoutine :: "schid \<Rightarrow> 'z rtenv_scheme \<Rightarrow> (addr option \<times> 'z rtenv_scheme) prog" where
  "stealTaskRoutine s e =
     pbind (sched_at (Some s) e) (\<lambda>sch.
     let n = td_size (TaskDistributor e) in
     if n = 0 then Fail DivByZero
     else
       pbind (steal_loop (ActivetaskItems sch) (sch_ID sch) ((sch_ID sch + 1) mod n) e) (\<lambda>e.
       popHead (ActivetaskItems sch) e))"

subsection \<open>One attempt\<close>

text \<open>The task's routine is known, and it is (not) the main routine.\<close>

definition runs_main :: "bool \<Rightarrow> 'z rtenv_scheme \<Rightarrow> addr \<Rightarrow> bool" where
  "runs_main b e a \<longleftrightarrow> (\<exists>t r x. items e a = Some t \<and> ti_self t = Some r \<and> routines e r = Some x \<and> IsMain x = b)"

lemma runs_main_frame:
  assumes "runs_main b e a" and "link_frame e e'"
  shows "runs_main b e' a"
proof -
  obtain t r x where t: "items e a = Some t" "ti_self t = Some r" "routines e r = Some x" "IsMain x = b"
    using assms(1) by (auto simp: runs_main_def)
  obtain t' where "items e' a = Some t'" "strip t' = strip t" using link_frame_Some [OF assms(2) t(1)] by blast
  moreover have "tmem.more e' = tmem.more e" using assms(2) by (simp add: link_frame_def)
  ultimately show ?thesis
    using t strip_payload(1) rtenv_more_eq(1) unfolding runs_main_def by metis
qed

lemma steal_none:
  assumes "tasks_ok e Q" and "Q l = Some []" and "count_of e l = 0"
  shows "Try2stealTask l e = Ret (None, e)"
proof -
  obtain q where "lists e l = Some q" "ItemCount q = 0"
    using tasks_ok_count [OF assms(1,2)] assms(3) by auto
  then show ?thesis by (simp add: Try2stealTask_def)
qed

lemma len32_simps: "LENGTH(32) = (32 :: nat)"
  by simp

text \<open>The attempt up to the pop: the head mutex is taken, and the tail mutex of a short list.\<close>

lemma steal_locks:
  fixes e :: "'z rtenv_scheme"
  assumes ok: "tasks_ok e Q" and Ql: "Q l = Some (a # zs)" and m: "runs_main b e a"
    and cnt: "count_of e l = of_nat (length (a # zs))" "length (a # zs) < 2 ^ 32"
  obtains q q1 e1 e2 e3 t r x where "list_at l e = Ret q" "ItemCount q \<noteq> 0" "\<not> HeadMutex q"
    "lock_head l e = Ret e1" "list_at l e1 = Ret q1" "ItemCount q1 < 2 \<longleftrightarrow> zs = []" "ItemCount q1 \<noteq> 0"
    "\<not> TailMutex q1" "(if zs = [] then lock_tail l e1 else Ret e1) = Ret e2"
    "popHeadUnsafe l e2 = Ret (Some a, e3)" "links_ok e3 (Q(l \<mapsto> zs))" "detached (items e3) a"
    "count_of e3 = (count_of e)(l := of_nat (length zs))"
    "locks_of e3 = (locks_of e)(l \<mapsto> (True, zs = []))" "link_frame e e3" "items e3 a = Some t"
    "ti_self t = Some r" "routines e3 r = Some x" "IsMain x = b"
proof -
  let ?L = "locks_of e"
  have L: "?L l = Some (False, False)" by (rule tasks_ok_locks [OF ok Ql])
  then obtain q where q0: "lists e l = Some q" "\<not> HeadMutex q"
    using locks_of_SomeD [of e l] by blast
  then have q: "list_at l e = Ret q" "ItemCount q = count_of e l" by (simp_all add: count_of_def)
  have u: "unat (count_of e l) = length (a # zs)"
    using cnt(2) unfolding cnt(1) unat_of_nat by (simp only: len32_simps mod_less)
  have short: "count_of e l < 2 \<longleftrightarrow> zs = []" and nz: "count_of e l \<noteq> 0"
    using u by (auto simp: word_less_nat_alt)
  obtain e1 where e1: "lock_head l e = Ret e1" "relock e e1 (?L(l \<mapsto> (True, False)))"
    using relock_ops(1) [OF L] by auto
  note r1 = relock_simps [OF e1(2)]
  have "locks_of e1 l = Some (True, False)" by (simp add: r1(1))
  then obtain q1 where q10: "lists e1 l = Some q1" "\<not> TailMutex q1"
    using locks_of_SomeD [of e1 l] by blast
  then have q1: "list_at l e1 = Ret q1" "ItemCount q1 = count_of e1 l" by (simp_all add: count_of_def)
  obtain e2 where e2: "(if zs = [] then lock_tail l e1 else Ret e1) = Ret e2"
    "relock e1 e2 (?L(l \<mapsto> (True, zs = [])))"
    using relock_ops(2) [of e1 l True] r1(1) e1(2)
    by (cases "zs = []") (auto simp: relock_def)
  note r2 = relock_simps [OF relock_trans [OF e1(2) e2(2)]]
  obtain e3 where e3: "popHeadUnsafe l e2 = Ret (Some a, e3)" "links_ok e3 (Q(l \<mapsto> zs))"
    "detached (items e3) a" "count_of e3 = (count_of e2)(l := count_of e2 l - 1)"
    "locks_of e3 = locks_of e2" "link_frame e2 e3"
    using popHeadUnsafe_Cons [of e2 Q l a zs] r2(3,5) ok Ql nz by auto
  have fr: "link_frame e e3" using r2(4) e3(6) by (rule link_frame_trans)
  obtain t r x where t: "items e3 a = Some t" "ti_self t = Some r" "routines e3 r = Some x" "IsMain x = b"
    using runs_main_frame [OF m fr] by (auto simp: runs_main_def)
  have c3: "count_of e3 = (count_of e)(l := of_nat (length zs))"
    using e3(4) r2(3) cnt(1) by simp
  show thesis
    by (rule that [OF q(1) _ q0(2) e1(1) q1(1) _ _ q10(2) e2(1) e3(1-3) c3 _ fr t])
      (simp_all add: q(2) q1(2) r1(3) nz short e3(5) r2(1))
qed

text \<open>The unlocking at the end of an attempt.\<close>

lemma release_both:
  assumes "locks_of e l = Some (True, True)" and "links_ok e Q"
  shows "\<exists>e'. pbind (unlock_tail l e) (unlock_head l) = Ret e' \<and> links_ok e' Q \<and> items e' = items e \<and>
      count_of e' = count_of e \<and> locks_of e' = (locks_of e)(l \<mapsto> (False, False)) \<and> link_frame e e'"
    and "\<exists>e'. pbind (unlock_head l e) (unlock_tail l) = Ret e' \<and> links_ok e' Q \<and> items e' = items e \<and>
      count_of e' = count_of e \<and> locks_of e' = (locks_of e)(l \<mapsto> (False, False)) \<and> link_frame e e'"
proof -
  obtain e1 where e1: "unlock_tail l e = Ret e1" "relock e e1 ((locks_of e)(l \<mapsto> (True, False)))"
    using relock_ops(4) [OF assms(1)] by auto
  obtain e2 where e2: "unlock_head l e1 = Ret e2" "relock e1 e2 ((locks_of e)(l \<mapsto> (False, False)))"
    using relock_ops(3) [of e1 l True False] relock_simps(1) [OF e1(2)] by auto
  show "\<exists>e'. pbind (unlock_tail l e) (unlock_head l) = Ret e' \<and> links_ok e' Q \<and> items e' = items e \<and>
      count_of e' = count_of e \<and> locks_of e' = (locks_of e)(l \<mapsto> (False, False)) \<and> link_frame e e'"
    using e1 e2 relock_simps [OF relock_trans [OF e1(2) e2(2)]] assms(2) by auto
next
  obtain e1 where e1: "unlock_head l e = Ret e1" "relock e e1 ((locks_of e)(l \<mapsto> (False, True)))"
    using relock_ops(3) [OF assms(1)] by auto
  obtain e2 where e2: "unlock_tail l e1 = Ret e2" "relock e1 e2 ((locks_of e)(l \<mapsto> (False, False)))"
    using relock_ops(4) [of e1 l False True] relock_simps(1) [OF e1(2)] by auto
  show "\<exists>e'. pbind (unlock_head l e) (unlock_tail l) = Ret e' \<and> links_ok e' Q \<and> items e' = items e \<and>
      count_of e' = count_of e \<and> locks_of e' = (locks_of e)(l \<mapsto> (False, False)) \<and> link_frame e e'"
    using e1 e2 relock_simps [OF relock_trans [OF e1(2) e2(2)]] assms(2) by auto
qed

lemma tasks_ok_relocked:
  assumes "links_ok e' Q'" and "tasks_ok e Q" and "Q l = Some xs"
    and "locks_of e' = (locks_of e)(l \<mapsto> (False, False))"
  shows "tasks_ok e' Q'"
proof -
  have "locks_of e' = locks_of e" using assms(4) tasks_ok_locks [OF assms(2,3)] by auto
  then show ?thesis using assms(1,2) unlocked_cong by (auto simp: tasks_ok_def)
qed

lemma steal_takes:
  fixes e :: "'z rtenv_scheme"
  assumes ok: "tasks_ok e Q" and Ql: "Q l = Some (a # zs)" and m: "runs_main False e a"
    and cnt: "count_of e l = of_nat (length (a # zs))" "length (a # zs) < 2 ^ 32"
  shows "\<exists>e'. Try2stealTask l e = Ret (Some a, e') \<and> tasks_ok e' (Q(l \<mapsto> zs)) \<and> loose a e' \<and>
    count_of e' = (count_of e)(l := of_nat (length zs)) \<and> link_frame e e'"
proof -
  obtain q q1 e1 e2 e3 t r x where s: "list_at l e = Ret q" "ItemCount q \<noteq> 0" "\<not> HeadMutex q"
    "lock_head l e = Ret e1" "list_at l e1 = Ret q1" "ItemCount q1 < 2 \<longleftrightarrow> zs = []" "ItemCount q1 \<noteq> 0"
    "\<not> TailMutex q1" "(if zs = [] then lock_tail l e1 else Ret e1) = Ret e2"
    "popHeadUnsafe l e2 = Ret (Some a, e3)" "links_ok e3 (Q(l \<mapsto> zs))" "detached (items e3) a"
    "count_of e3 = (count_of e)(l := of_nat (length zs))"
    "locks_of e3 = (locks_of e)(l \<mapsto> (True, zs = []))" "link_frame e e3" "items e3 a = Some t"
    "ti_self t = Some r" "routines e3 r = Some x" "IsMain x = False"
    using steal_locks [OF assms] .
  obtain e4 where e4: "(if zs = [] then pbind (unlock_tail l e3) (unlock_head l) else unlock_head l e3) = Ret e4"
    "links_ok e4 (Q(l \<mapsto> zs))" "items e4 = items e3" "count_of e4 = count_of e3"
    "locks_of e4 = (locks_of e3)(l \<mapsto> (False, False))" "link_frame e3 e4"
  proof (cases "zs = []")
    case True
    then show ?thesis using release_both(1) [of e3 l "Q(l \<mapsto> zs)"] s(11,14) that by auto
  next
    case False
    then obtain e4 where "unlock_head l e3 = Ret e4" "relock e3 e4 ((locks_of e3)(l \<mapsto> (False, False)))"
      using relock_ops(3) [of e3 l True False] s(14) by auto
    then show ?thesis using relock_simps [of e3 e4] s(11) False that by auto
  qed
  have "Try2stealTask l e = Ret (Some a, e4)"
    using s e4(1) by (cases "zs = []") (auto simp: Try2stealTask_def pbind_eq_Ret_iff)
  moreover have "tasks_ok e4 (Q(l \<mapsto> zs))"
    by (rule tasks_ok_relocked [OF e4(2) ok Ql]) (simp add: e4(5) s(14))
  moreover have "loose a e4" using s(12,16) e4(3) by (simp add: loose_def)
  ultimately show ?thesis using s(13,15) e4(4,6) by (auto intro: link_frame_trans)
qed

text \<open>A main task at the head goes to the back of its list; alone in it, it is returned as well.\<close>

lemma steal_main:
  fixes e :: "'z rtenv_scheme"
  assumes ok: "tasks_ok e Q" and Ql: "Q l = Some (a # zs)" and m: "runs_main True e a"
    and cnt: "count_of e l = of_nat (length (a # zs))" "length (a # zs) < 2 ^ 32"
  shows "\<exists>e'. Try2stealTask l e = Ret (if zs = [] then Some a else None, e') \<and>
    tasks_ok e' (Q(l \<mapsto> zs @ [a])) \<and> count_of e' = count_of e \<and> link_frame e e'"
proof -
  obtain q q1 e1 e2 e3 t r x where s: "list_at l e = Ret q" "ItemCount q \<noteq> 0" "\<not> HeadMutex q"
    "lock_head l e = Ret e1" "list_at l e1 = Ret q1" "ItemCount q1 < 2 \<longleftrightarrow> zs = []" "ItemCount q1 \<noteq> 0"
    "\<not> TailMutex q1" "(if zs = [] then lock_tail l e1 else Ret e1) = Ret e2"
    "popHeadUnsafe l e2 = Ret (Some a, e3)" "links_ok e3 (Q(l \<mapsto> zs))" "detached (items e3) a"
    "count_of e3 = (count_of e)(l := of_nat (length zs))"
    "locks_of e3 = (locks_of e)(l \<mapsto> (True, zs = []))" "link_frame e e3" "items e3 a = Some t"
    "ti_self t = Some r" "routines e3 r = Some x" "IsMain x = True"
    using steal_locks [OF assms] .
  obtain e4 where e4: "(if zs = [] then Ret e3 else lock_tail l e3) = Ret e4"
    "relock e3 e4 ((locks_of e)(l \<mapsto> (True, True)))"
    using s(14) relock_ops(2) [of e3 l True] by (cases "zs = []") (auto simp: relock_def)
  note r4 = relock_simps [OF e4(2)]
  obtain e5 where e5: "pushBackUnsafe l (Some a) e4 = Ret e5" "links_ok e5 (Q(l \<mapsto> zs @ [a]))"
    "count_of e5 = (count_of e4)(l := count_of e4 l + 1)" "locks_of e5 = locks_of e4" "link_frame e4 e5"
    using pushBackUnsafe_links [of e4 "Q(l \<mapsto> zs)" l zs a t] r4 s(11,12,16) by auto
  have L5: "locks_of e5 l = Some (True, True)" using e5(4) r4(1) by simp
  obtain e6 where e6: "(if zs = [] then pbind (unlock_tail l e5) (unlock_head l)
      else pbind (unlock_head l e5) (unlock_tail l)) = Ret e6" "links_ok e6 (Q(l \<mapsto> zs @ [a]))"
    "count_of e6 = count_of e5" "locks_of e6 = (locks_of e5)(l \<mapsto> (False, False))" "link_frame e5 e6"
    using release_both [OF L5 e5(2)] by (cases "zs = []") auto
  have "Try2stealTask l e = Ret (if zs = [] then Some a else None, e6)"
    using s e4(1) e5(1) e6(1) by (cases "zs = []") (auto simp: Try2stealTask_def pbind_eq_Ret_iff)
  moreover have "tasks_ok e6 (Q(l \<mapsto> zs @ [a]))"
    by (rule tasks_ok_relocked [OF e6(2) ok Ql]) (simp add: e6(4) e5(4) r4(1))
  moreover have "count_of e6 = count_of e"
    using e6(3) e5(3) r4(3) s(13) cnt(1) by (auto simp: fun_eq_iff)
  ultimately show ?thesis
    using s(15) r4(4) e5(5) e6(5) by (auto intro: link_frame_trans)
qed

subsection \<open>The loop over the workers\<close>

text \<open>A task of a main routine, and what an attempt takes of a list and leaves of it.\<close>

definition main_task :: "'z rtenv_scheme \<Rightarrow> addr \<Rightarrow> bool" where
  "main_task e a = (case items e a of None \<Rightarrow> False | Some t \<Rightarrow>
     (case ti_self t of None \<Rightarrow> False | Some r \<Rightarrow>
     (case routines e r of None \<Rightarrow> False | Some x \<Rightarrow> IsMain x)))"

fun stolen_of :: "(addr \<Rightarrow> bool) \<Rightarrow> addr list \<Rightarrow> addr list" where
  "stolen_of main [] = []"
| "stolen_of main (a # zs) = (if main a then [] else [a])"

fun left_of :: "(addr \<Rightarrow> bool) \<Rightarrow> addr list \<Rightarrow> addr list" where
  "left_of main [] = []"
| "left_of main (a # zs) = (if main a then zs @ [a] else zs)"

lemma runs_main_task: "runs_main b e a \<Longrightarrow> main_task e a = b"
  by (auto simp: runs_main_def main_task_def)

lemma main_task_frame:
  assumes "link_frame e e'"
  shows "main_task e' = main_task e"
proof
  fix a
  have pay: "map_option strip (items e' a) = map_option strip (items e a)" and more: "tmem.more e' = tmem.more e"
    using assms by (simp_all add: link_frame_def)
  have "routines e' = routines e" by (rule rtenv_more_eq(1) [OF more])
  moreover have "map_option ti_self (items e' a) = map_option ti_self (items e a)"
    using pay by (cases "items e a"; cases "items e' a") (auto dest: strip_payload(1))
  ultimately show "main_task e' a = main_task e a"
    by (cases "items e a"; cases "items e' a") (simp_all add: main_task_def split: option.split)
qed

text \<open>
  Exact counts everywhere. The lists of the workers \<open>J\<close>, which the thief \<open>w\<close> is still to visit, have
  tasks of known routines, main or not, and none of them is a main task alone.
\<close>

definition steal_in ::
    "'z rtenv_scheme \<Rightarrow> (laddr \<Rightarrow> addr list option) \<Rightarrow> laddr list \<Rightarrow> nat \<Rightarrow> nat set \<Rightarrow> bool" where
  "steal_in e Q ls w J \<longleftrightarrow> tasks_ok e Q \<and> workers_ok e ls \<and> w < length ls \<and> w \<notin> J \<and>
     (\<forall>j < length ls. \<exists>xs. Q (ls ! j) = Some xs \<and> count_of e (ls ! j) = of_nat (length xs)) \<and>
     (\<forall>j < length ls. j \<in> J \<longrightarrow> length (the (Q (ls ! j))) < 2 ^ 32 \<and>
        (\<forall>a \<in> set (the (Q (ls ! j))). runs_main (main_task e a) e a) \<and>
        (\<forall>a. the (Q (ls ! j)) = [a] \<longrightarrow> \<not> main_task e a))"

definition steal_ok ::
    "'z rtenv_scheme \<Rightarrow> (laddr \<Rightarrow> addr list option) \<Rightarrow> laddr list \<Rightarrow> nat \<Rightarrow> bool" where
  "steal_ok e Q ls w = steal_in e Q ls w ({..<length ls} - {w})"

lemma steal_inD:
  assumes "steal_in e Q ls w J"
  shows "tasks_ok e Q" and "workers_ok e ls" and "w < length ls" and "distinct ls"
    and "j < length ls \<Longrightarrow> \<exists>xs. Q (ls ! j) = Some xs"
    and "j < length ls \<Longrightarrow> Q (ls ! j) = Some xs \<Longrightarrow> count_of e (ls ! j) = of_nat (length xs)"
    and "j < length ls \<Longrightarrow> Q (ls ! j) = Some xs \<Longrightarrow> j \<in> J \<Longrightarrow> length xs < 2 ^ 32"
    and "j < length ls \<Longrightarrow> Q (ls ! j) = Some xs \<Longrightarrow> j \<in> J \<Longrightarrow> a \<in> set xs \<Longrightarrow> runs_main (main_task e a) e a"
    and "j < length ls \<Longrightarrow> Q (ls ! j) = Some xs \<Longrightarrow> j \<in> J \<Longrightarrow> xs = [a] \<Longrightarrow> \<not> main_task e a"
proof -
  show "tasks_ok e Q" "workers_ok e ls" "w < length ls" using assms unfolding steal_in_def by blast+
  then show "distinct ls" by (simp add: workers_ok_def)
  show "\<exists>xs. Q (ls ! j) = Some xs" if "j < length ls" using assms that unfolding steal_in_def by blast
next
  assume j: "j < length ls" and xs: "Q (ls ! j) = Some xs"
  have "\<exists>ys. Q (ls ! j) = Some ys \<and> count_of e (ls ! j) = of_nat (length ys)"
    using assms j unfolding steal_in_def by blast
  then show "count_of e (ls ! j) = of_nat (length xs)" unfolding xs by simp
  have J: "length xs < 2 ^ 32 \<and> (\<forall>a \<in> set xs. runs_main (main_task e a) e a) \<and> (\<forall>a. xs = [a] \<longrightarrow> \<not> main_task e a)"
    if "j \<in> J"
  proof -
    have "length (the (Q (ls ! j))) < 2 ^ 32 \<and> (\<forall>a \<in> set (the (Q (ls ! j))). runs_main (main_task e a) e a) \<and>
        (\<forall>a. the (Q (ls ! j)) = [a] \<longrightarrow> \<not> main_task e a)"
      using assms j that unfolding steal_in_def by blast
    then show ?thesis unfolding xs by simp
  qed
  show "j \<in> J \<Longrightarrow> length xs < 2 ^ 32" and "j \<in> J \<Longrightarrow> a \<in> set xs \<Longrightarrow> runs_main (main_task e a) e a"
    and "j \<in> J \<Longrightarrow> xs = [a] \<Longrightarrow> \<not> main_task e a" using J by blast+
qed

lemma workers_ok_more:
  assumes "tmem.more e' = tmem.more e"
  shows "workers_ok e' ls = workers_ok e ls"
  by (simp add: workers_ok_def rtenv_more_eq [OF assms])

text \<open>One visit, for the tasks taken and those left.\<close>

lemma steal_visit:
  fixes e :: "'z rtenv_scheme"
  assumes ok: "steal_in e Q ls w J" and j: "j < length ls" "j \<in> J"
    and xs: "Q (ls ! j) = Some xs" and ms: "Q (ls ! w) = Some ms"
  shows "\<exists>e'. pbind (Try2stealTask (ls ! j) e) (\<lambda>r. case fst r of None \<Rightarrow> Ret (snd r)
      | Some p \<Rightarrow> pushBack (ls ! w) (Some p) (snd r)) = Ret e' \<and>
    tasks_ok e' (Q(ls ! j \<mapsto> left_of (main_task e) xs, ls ! w \<mapsto> ms @ stolen_of (main_task e) xs)) \<and>
    count_of e' = (count_of e)(ls ! j := of_nat (length (left_of (main_task e) xs)),
      ls ! w := of_nat (length (ms @ stolen_of (main_task e) xs))) \<and> link_frame e e'"
proof -
  note D = steal_inD [OF ok] and X = steal_inD(6-9) [OF ok j(1) xs]
  have jw: "ls ! j \<noteq> ls ! w" using D(3,4) ok j by (auto simp: steal_in_def nth_eq_iff_index_eq)
  have cm: "count_of e (ls ! w) = of_nat (length ms)" by (rule D(6) [OF D(3) ms])
  show ?thesis
  proof (cases xs)
    case Nil
    have "Q(ls ! j \<mapsto> [], ls ! w \<mapsto> ms) = Q" "(count_of e)(ls ! j := 0, ls ! w := of_nat (length ms)) = count_of e"
      using Nil xs ms X(1) cm by auto
    then show ?thesis using steal_none [of e Q "ls ! j"] D(1) xs X(1) Nil by simp
  next
    case (Cons a zs)
    have run: "runs_main (main_task e a) e a" using X(3) [OF j(2)] Cons by simp
    have Qj: "Q (ls ! j) = Some (a # zs)" "count_of e (ls ! j) = of_nat (length (a # zs))" "length (a # zs) < 2 ^ 32"
      using xs X(1) X(2) [OF j(2)] Cons by simp_all
    show ?thesis
    proof (cases "main_task e a")
      case True
      then have "zs \<noteq> []" using X(4) [OF j(2)] Cons by auto
      then obtain e1 where e1: "Try2stealTask (ls ! j) e = Ret (None, e1)" "tasks_ok e1 (Q(ls ! j \<mapsto> zs @ [a]))"
        "count_of e1 = count_of e" "link_frame e e1"
        using steal_main [OF D(1) Qj(1) _ Qj(2,3)] run True by auto
      have "Q(ls ! j \<mapsto> zs @ [a], ls ! w \<mapsto> ms) = Q(ls ! j \<mapsto> zs @ [a])"
        "(count_of e)(ls ! j := of_nat (length (zs @ [a])), ls ! w := of_nat (length ms)) = count_of e"
        using ms jw cm Qj(2) by auto
      then show ?thesis using e1 Cons True by simp
    next
      case False
      then obtain e1 where e1: "Try2stealTask (ls ! j) e = Ret (Some a, e1)" "tasks_ok e1 (Q(ls ! j \<mapsto> zs))"
        "loose a e1" "count_of e1 = (count_of e)(ls ! j := of_nat (length zs))" "link_frame e e1"
        using steal_takes [OF D(1) Qj(1) _ Qj(2,3)] run by auto
      obtain t where t: "items e1 a = Some t" "detached (items e1) a" using e1(3) by (auto simp: loose_def)
      obtain e2 where e2: "pushBack (ls ! w) (Some a) e1 = Ret e2"
        "tasks_ok e2 (Q(ls ! j \<mapsto> zs, ls ! w \<mapsto> ms @ [a]))"
        "count_of e2 = (count_of e1)(ls ! w := count_of e1 (ls ! w) + 1)" "link_frame e1 e2"
        using pushBack_tasks [OF e1(2) _ t, of "ls ! w" ms] jw ms by auto
      then show ?thesis using e1 Cons False jw cm link_frame_trans [OF e1(5) e2(4)] by (auto simp: fun_eq_iff)
    qed
  qed
qed

lemma steal_step:
  fixes e :: "'z rtenv_scheme"
  assumes ok: "steal_in e Q ls w J" and j: "j < length ls" "j \<in> J"
    and xs: "Q (ls ! j) = Some xs" and ms: "Q (ls ! w) = Some ms"
    and Q': "Q' = Q(ls ! j \<mapsto> left_of (main_task e) xs, ls ! w \<mapsto> ms @ stolen_of (main_task e) xs)"
  shows "\<exists>e'. pbind (Try2stealTask (ls ! j) e) (\<lambda>r. case fst r of None \<Rightarrow> Ret (snd r)
      | Some p \<Rightarrow> pushBack (ls ! w) (Some p) (snd r)) = Ret e' \<and>
    steal_in e' Q' ls w (J - {j}) \<and> tmem.more e' = tmem.more e \<and> main_task e' = main_task e"
proof -
  note D = steal_inD [OF ok]
  obtain e' where e': "pbind (Try2stealTask (ls ! j) e) (\<lambda>r. case fst r of None \<Rightarrow> Ret (snd r)
      | Some p \<Rightarrow> pushBack (ls ! w) (Some p) (snd r)) = Ret e'" "tasks_ok e' Q'"
    "count_of e' = (count_of e)(ls ! j := of_nat (length (left_of (main_task e) xs)),
      ls ! w := of_nat (length (ms @ stolen_of (main_task e) xs)))" "link_frame e e'"
    using steal_visit [OF ok j xs ms] unfolding Q' by blast
  have more: "tmem.more e' = tmem.more e" using e'(4) by (simp add: link_frame_def)
  note mt = main_task_frame [OF e'(4)]
  have wJ: "w \<notin> J" using ok by (simp add: steal_in_def)
  have eq: "\<And>a b. a < length ls \<Longrightarrow> b < length ls \<Longrightarrow> ls ! a = ls ! b \<longleftrightarrow> a = b"
    using D(4) by (simp add: nth_eq_iff_index_eq)
  have "\<exists>ys. Q' (ls ! i) = Some ys \<and> count_of e' (ls ! i) = of_nat (length ys)" if i: "i < length ls" for i
  proof -
    obtain ys where "Q (ls ! i) = Some ys" "count_of e (ls ! i) = of_nat (length ys)"
      using D(5,6) [OF i] by blast
    then show ?thesis using eq [OF i j(1)] eq [OF i D(3)] by (auto simp: Q' e'(3))
  qed
  moreover have "length (the (Q' (ls ! i))) < 2 ^ 32 \<and> (\<forall>a \<in> set (the (Q' (ls ! i))). runs_main (main_task e a) e' a) \<and>
      (\<forall>a. the (Q' (ls ! i)) = [a] \<longrightarrow> \<not> main_task e a)" if i: "i < length ls" "i \<in> J - {j}" for i
  proof -
    obtain ys where ys: "Q (ls ! i) = Some ys" using D(5) [OF i(1)] by blast
    have "Q' (ls ! i) = Some ys" using ys eq [OF i(1) j(1)] eq [OF i(1) D(3)] i(2) wJ by (auto simp: Q')
    then show ?thesis
      using steal_inD(7-9) [OF ok i(1) ys] i(2) runs_main_frame [OF _ e'(4)] by auto
  qed
  ultimately have "steal_in e' Q' ls w (J - {j})"
    using e'(2) D(2,3) wJ workers_ok_more [OF more] unfolding steal_in_def mt by simp
  then show ?thesis using e'(1) more mt by blast
qed

lemma steal_span:
  fixes e :: "'z rtenv_scheme"
  shows "steal_in e Q ls w J \<Longrightarrow> {i..<m} \<subseteq> J \<Longrightarrow> Q (ls ! w) = Some ms \<Longrightarrow> i \<le> m \<Longrightarrow> m \<le> length ls \<Longrightarrow>
   \<exists>e' Q'. steal_loop (ls ! w) (int w) (int i) e = steal_loop (ls ! w) (int w) (int m) e' \<and>
     steal_in e' Q' ls w (J - {i..<m}) \<and> tmem.more e' = tmem.more e \<and>
     Q' (ls ! w) = Some (ms @ concat (map (\<lambda>j. stolen_of (main_task e) (the (Q (ls ! j)))) [i..<m])) \<and>
     (\<forall>j < length ls. j \<noteq> w \<longrightarrow> Q' (ls ! j) =
        (if j \<in> {i..<m} then Some (left_of (main_task e) (the (Q (ls ! j)))) else Q (ls ! j)))"
proof (induction "m - i" arbitrary: i e Q ms J)
  case 0
  then show ?case by auto
next
  case (Suc k)
  note D = steal_inD [OF Suc.prems(1)]
  have i: "i < m" "i < length ls" "i \<in> J" using Suc.hyps(2) Suc.prems(2,4,5) by auto
  have wJ: "w \<notin> J" using Suc.prems(1) by (simp add: steal_in_def)
  then have iw: "i \<noteq> w" "w \<notin> {i..<m}" using i(3) Suc.prems(2) by auto
  have tk: "ActiveTasks (TaskDistributor e) ! i = Some (ls ! i)" "i < length (ActiveTasks (TaskDistributor e))"
    using D(2) i(2) by (auto simp: workers_ok_def)
  have dn: "\<And>a b. a < length ls \<Longrightarrow> b < length ls \<Longrightarrow> ls ! a = ls ! b \<longleftrightarrow> a = b"
    using D(4) by (simp add: nth_eq_iff_index_eq)
  obtain xs where xs: "Q (ls ! i) = Some xs" using D(5) [OF i(2)] by blast
  let ?Q = "Q(ls ! i \<mapsto> left_of (main_task e) xs, ls ! w \<mapsto> ms @ stolen_of (main_task e) xs)"
  obtain e1 where e1: "pbind (Try2stealTask (ls ! i) e) (\<lambda>r. case fst r of None \<Rightarrow> Ret (snd r)
      | Some p \<Rightarrow> pushBack (ls ! w) (Some p) (snd r)) = Ret e1"
    "steal_in e1 ?Q ls w (J - {i})" "tmem.more e1 = tmem.more e" "main_task e1 = main_task e"
    using steal_step [OF Suc.prems(1) i(2,3) xs Suc.prems(3) refl] by blast
  have "steal_loop (ls ! w) (int w) (int i) e = pbind (pbind (Try2stealTask (ls ! i) e) (\<lambda>r. case fst r of
      None \<Rightarrow> Ret (snd r) | Some p \<Rightarrow> pushBack (ls ! w) (Some p) (snd r)))
      (steal_loop (ls ! w) (int w) (int (Suc i)))"
    using tk iw(1) by (subst steal_loop.simps) (simp add: pbind_assoc add.commute)
  then have go: "steal_loop (ls ! w) (int w) (int i) e = steal_loop (ls ! w) (int w) (int (Suc i)) e1"
    by (simp only: e1(1) pbind_simps)
  have "k = m - Suc i" "{Suc i..<m} \<subseteq> J - {i}" "?Q (ls ! w) = Some (ms @ stolen_of (main_task e) xs)" "Suc i \<le> m"
    using Suc.hyps(2) Suc.prems(2) i(1) by auto
  from Suc.hyps(1) [OF this(1) e1(2) this(2-4) Suc.prems(5)] obtain e' Q' where
    e': "steal_loop (ls ! w) (int w) (int (Suc i)) e1 = steal_loop (ls ! w) (int w) (int m) e'"
      "steal_in e' Q' ls w (J - {i} - {Suc i..<m})" "tmem.more e' = tmem.more e1"
      "Q' (ls ! w) = Some ((ms @ stolen_of (main_task e) xs) @
         concat (map (\<lambda>j. stolen_of (main_task e) (the (?Q (ls ! j)))) [Suc i..<m]))"
      "\<And>j. j < length ls \<Longrightarrow> j \<noteq> w \<Longrightarrow> Q' (ls ! j) =
        (if j \<in> {Suc i..<m} then Some (left_of (main_task e) (the (?Q (ls ! j)))) else ?Q (ls ! j))"
    unfolding e1(4) by blast
  have eq: "map (\<lambda>j. stolen_of (main_task e) (the (?Q (ls ! j)))) [Suc i..<m] =
      map (\<lambda>j. stolen_of (main_task e) (the (Q (ls ! j)))) [Suc i..<m]"
    using Suc.prems(5) iw(2) D(3) dn i by (intro map_cong) auto
  have J: "J - {i} - {Suc i..<m} = J - {i..<m}" using i(1) by auto
  have "Q' (ls ! w) = Some (ms @ concat (map (\<lambda>j. stolen_of (main_task e) (the (Q (ls ! j)))) [i..<m]))"
    using e'(4) [unfolded eq] i(1) xs by (simp add: upt_conv_Cons)
  moreover have "Q' (ls ! j) = (if j \<in> {i..<m} then Some (left_of (main_task e) (the (Q (ls ! j)))) else Q (ls ! j))"
    if "j < length ls" "j \<noteq> w" for j
    using e'(5) [OF that] dn [OF that(1) D(3)] dn [OF that(1) i(2)] that xs i(1) by auto
  ultimately show ?case using go e'(1,2,3) e1(3) unfolding J by (intro exI [of _ e'] exI [of _ Q']) simp
qed

text \<open>A main task that was handed out while it stays in its list.\<close>

lemma pushBack_shared:
  fixes e :: "'z tmem_scheme"
  assumes ok: "tasks_ok e Q" and l: "Q l = Some [a]" and m: "Q m = Some []" and lm: "l \<noteq> m"
    and cnt: "count_of e m = 0"
  shows "\<exists>e'. pushBack m (Some a) e = Ret e' \<and> (\<nexists>Q'. links_ok e' Q')"
proof -
  obtain q where q: "lists e m = Some q" "tl_head q = None" "tl_tail q = None" "\<not> HeadMutex q"
    "\<not> TailMutex q" "ItemCount q = 0"
    using tasks_ok_count [OF ok m] links_ok_Nil [OF tasks_ok_links [OF ok] m] cnt
      tasks_ok_locks [OF ok m] by (auto simp: locks_of_def)
  obtain p where p: "lists e l = Some p" "list_ok (items e) l p [a]"
    using tasks_ok_links [OF ok] l by (rule links_ok_listD)
  obtain t where t: "items e a = Some t" "ti_owner t = Some l"
    using links_ok_member [OF tasks_ok_links [OF ok] l, of a] by auto
  let ?e = "e\<lparr>items := (items e)(a \<mapsto> t\<lparr>ti_owner := Some m\<rparr>),
    lists := (lists e)(m \<mapsto> q\<lparr>ItemCount := 1, tl_head := Some a, tl_tail := Some a\<rparr>)\<rparr>"
  have "pushBack m (Some a) e = Ret ?e"
    using q t by (simp add: pushBack_def pushBack_retry.simps lock_head_def lock_tail_def
        unlock_head_def unlock_tail_def pushBackUnsafe_def) (auto intro!: tmem.equality)
  moreover have "\<not> links_ok ?e Q'" for Q'
  proof
    assume ok': "links_ok ?e Q'"
    have lp: "lists ?e l = Some p" using lm p(1) by simp
    then obtain xs where xs: "Q' l = Some xs" using links_ok_list_iff [OF ok', of l] by auto
    obtain p' where p': "lists ?e l = Some p'" "list_ok (items ?e) l p' xs"
      using ok' xs by (rule links_ok_listD)
    have hd: "tl_head p' = Some a" using p'(1) lp p(2) by (simp add: list_ok_def)
    then have "a \<in> set xs" using p'(2) by (cases xs) (auto simp: list_ok_def)
    then have "own (items ?e) a = Some l" by (rule links_ok_own [OF ok' xs])
    then show False using lm by simp
  qed
  ultimately show ?thesis by blast
qed

section \<open>A concrete environment\<close>

text \<open>Two workers, with the lists 0 and 1 of the example heap.\<close>

definition ex_routine :: "bool \<Rightarrow> bRoutine" where
  "ex_routine main = \<lparr>rt_func = 0, rt_args = None, IsMain = main, IsBegin = False, IsDone = False,
     IsHangup = False, IsProgress = False, IsEnableHook = True, rt_id = 1, rt_stack = None,
     rt_context = None\<rparr>"

definition ex_sched :: "laddr \<Rightarrow> int \<Rightarrow> bScheduler" where
  "ex_sched l n = \<lparr>pendingRoutine = None, occupyRoutine = None, ActivetaskItems = l, sch_ID = n,
     IsThreadRunning = False, IsStop = False, IsPendingNeedDelete = False, sch_mutex = False,
     signalled = 0, hangTimeOut = (0, 500000)\<rparr>"

definition ex_env_of :: "tmem \<Rightarrow> (rid \<Rightarrow> bRoutine option) \<Rightarrow> rtenv" where
  "ex_env_of h rs = tmem.extend h (rtenv.fields rs 10 Map.empty 0 [0 \<mapsto> ex_sched 0 0, 1 \<mapsto> ex_sched 1 1] 2
     bRoutinePool_New bUnSharedStackPool_New
     \<lparr>schedulers = [Some 0, Some 1], ActiveTasks = [Some 0, Some 1], td_size = 2\<rparr> 0 0 0)"

lemma ex_env_fields [simp]:
  "items (ex_env_of h rs) = items h" "lists (ex_env_of h rs) = lists h" "routines (ex_env_of h rs) = rs"
  "scheds (ex_env_of h rs) = [0 \<mapsto> ex_sched 0 0, 1 \<mapsto> ex_sched 1 1]" "AddTask_i (ex_env_of h rs) = 0"
  "TaskDistributor (ex_env_of h rs) = \<lparr>schedulers = [Some 0, Some 1], ActiveTasks = [Some 0, Some 1], td_size = 2\<rparr>"
  by (simp_all add: ex_env_of_def tmem.defs rtenv.defs)

lemma ex_env_ok: "tasks_ok h Q \<Longrightarrow> tasks_ok (ex_env_of h rs) Q"
  using tasks_ok_cong [of "ex_env_of h rs" h] by simp

lemma all_less_2: "(\<forall>j < Suc (Suc 0). P j) \<longleftrightarrow> P 0 \<and> P (Suc 0)"
  by (auto simp: less_Suc_eq)

lemma ex_env_workers: "workers_ok (ex_env_of h rs) [0, 1]"
  by (simp add: workers_ok_def all_less_2 ex_sched_def)

definition ex_env :: rtenv where
  "ex_env = ex_env_of ex_heap (\<lambda>r. if r < 10 then Some (ex_routine False) else None)"

lemma ex_env_dist: "dist_ok ex_env ex_Q [0, 1]"
  using ex_env_ok [OF ex_heap_ok] ex_env_workers
  by (simp add: ex_env_def dist_ok_def ex_Q_def)

lemma ex_env_ready: "task_ready ex_env 13" "task_ready ex_env 14"
  by (simp_all add: task_ready_def loose_def detached_def ex_env_def ex_heap_def ex_routine_def)

section \<open>Properties\<close>

text \<open>
  C23: \<open>AddTask\<close> hands tasks to the registered workers in turn. When \<open>n\<close> workers are
  registered and the turn is at \<open>k\<close>, committing tasks one after the other appends the \<open>p\<close>-th to
  the list of worker \<open>(k + p) mod n\<close>, and the next turn is where the last one ended.
\<close>

theorem AddTask_round_robin:
  assumes "dist_ok e Q ls" and "distinct as" and "\<And>a. a \<in> set as \<Longrightarrow> task_ready e a"
  shows "\<exists>e' Q'. AddTasks as e = Ret e' \<and> dist_ok e' Q' ls \<and>
    (\<forall>j < length ls. the (Q' (ls ! j)) = the (Q (ls ! j)) @ share (length ls) (unat (AddTask_i e)) j as) \<and>
    unat (AddTask_i e') = (unat (AddTask_i e) + length as) mod length ls"
  using dist.commit_list [OF assms(1,2)] assms(3) unfolding AddTasks_def dealt_def by blast

theorem AddTask_round_robin_witness:
  "\<exists>e' Q'. AddTasks [14, 13] ex_env = Ret e' \<and> the (Q' 0) = [10, 11, 12, 14] \<and> the (Q' 1) = [13 :: nat] \<and>
    dist_ok e' Q' [0, 1]"
proof -
  have "distinct [14, 13 :: nat]" and "\<And>a. a \<in> set [14, 13] \<Longrightarrow> task_ready ex_env a"
    using ex_env_ready by auto
  from AddTask_round_robin [OF ex_env_dist this] obtain e' Q' where
    *: "AddTasks [14, 13] ex_env = Ret e'" "dist_ok e' Q' [0, 1]"
      "\<forall>j < length [0, 1 :: nat]. the (Q' ([0, 1] ! j)) = the (ex_Q ([0, 1] ! j)) @
        share (length [0, 1 :: nat]) (unat (AddTask_i ex_env)) j [14, 13]" by blast
  then have "the (Q' 0) = [10, 11, 12, 14]" "the (Q' 1) = [13]"
    using spec [OF *(3), of 0] spec [OF *(3), of 1] by (simp_all add: ex_Q_def ex_env_def)
  with * show ?thesis by blast
qed

text \<open>
  C24: the thief that registered last takes the first task of every other worker that has one, unless
  it is a task of a main routine, which goes to the back of its worker's list; it puts what it took
  at the end of its own list, in the order of the workers, and runs the first task of that list. It
  finds none exactly when its own list is empty and no other list begins with a task it may take.
  Every list has the count of its tasks, and no other worker's list is a main task alone.
\<close>

theorem steal_from_every_other:
  assumes ok: "steal_ok e Q ls w" and last: "w = length ls - 1"
    and s: "scheds e s = Some sch" "ActivetaskItems sch = ls ! w" "sch_ID sch = int w"
    and got: "got = the (Q (ls ! w)) @ concat (map (\<lambda>j. stolen_of (main_task e) (the (Q (ls ! j)))) [0..<w])"
    and few: "length got < 2 ^ 32"
  shows "\<exists>e' Q'. stealTaskRoutine s e = Ret (case got of [] \<Rightarrow> None | a # _ \<Rightarrow> Some a, e') \<and>
    tasks_ok e' Q' \<and> Q' (ls ! w) = Some (drop 1 got) \<and>
    (\<forall>j < w. Q' (ls ! j) = Some (left_of (main_task e) (the (Q (ls ! j)))))"
proof -
  note ok' = ok [unfolded steal_ok_def] and D = steal_inD [OF ok [unfolded steal_ok_def]]
  have n: "length ls = Suc w" using D(3) last by simp
  have td: "td_size (TaskDistributor e) = int (Suc w)" using D(2) n by (simp add: workers_ok_def)
  obtain ms where ms: "Q (ls ! w) = Some ms" using D(5) [OF D(3)] by blast
  have "{0..<w} \<subseteq> {..<length ls} - {w}" using n by auto
  from steal_span [OF ok' this ms le0 less_imp_le [OF D(3)]] obtain e1 Q1 J where
    e1: "steal_loop (ls ! w) (int w) (int 0) e = steal_loop (ls ! w) (int w) (int w) e1"
      "steal_in e1 Q1 ls w J" "Q1 (ls ! w) = Some got"
      "\<And>j. j < w \<Longrightarrow> Q1 (ls ! j) = Some (left_of (main_task e) (the (Q (ls ! j))))"
    using got ms n by auto
  have go: "steal_loop (ls ! w) (int w) 0 e = Ret e1"
    using e1(1) by (simp add: steal_loop.simps)
  have "stealTaskRoutine s e = popHead (ls ! w) e1"
    using s td go by (simp add: stealTaskRoutine_def Let_def add.commute)
  moreover note D1 = steal_inD [OF e1(2)]
  have cnt: "count_of e1 (ls ! w) = of_nat (length got)" by (rule D1(6) [OF D(3) e1(3)])
  have dn: "\<And>j. j < w \<Longrightarrow> ls ! j \<noteq> ls ! w" using D(4) n by (simp add: nth_eq_iff_index_eq)
  show ?thesis
  proof (cases got)
    case Nil
    then show ?thesis using popHead_Nil [OF D1(1), of "ls ! w"] e1(3,4) calculation by auto
  next
    case (Cons a zs)
    then have "count_of e1 (ls ! w) \<noteq> 0" using cnt few of_nat_u32_eq_0 [of "length got"] by simp
    from popHead_Cons [OF D1(1) _ this] Cons e1(3) obtain e2 where
      "popHead (ls ! w) e1 = Ret (Some a, e2)" "tasks_ok e2 (Q1(ls ! w \<mapsto> zs))" by blast
    then show ?thesis using calculation Cons e1(4) dn
      by (intro exI [of _ e2] exI [of _ "Q1(ls ! w \<mapsto> zs)"]) simp
  qed
qed

text \<open>The first task of the other worker's list is a main routine's, or is not.\<close>

definition ex_steal :: "bool \<Rightarrow> rtenv" where
  "ex_steal main = ex_env_of ex_heap [1 \<mapsto> ex_routine main, 2 \<mapsto> ex_routine False, 3 \<mapsto> ex_routine False]"

lemma ex_steal_fields:
  "items (ex_steal main) = items ex_heap" "scheds (ex_steal main) = [0 \<mapsto> ex_sched 0 0, 1 \<mapsto> ex_sched 1 1]"
  "TaskDistributor (ex_steal main) = \<lparr>schedulers = [Some 0, Some 1], ActiveTasks = [Some 0, Some 1], td_size = 2\<rparr>"
  by (simp_all add: ex_steal_def)

lemma ex_steal_ok: "w < 2 \<Longrightarrow> steal_ok (ex_steal main) ex_Q [0, 1] w"
proof -
  have known: "runs_main (main_task (ex_steal main) a) (ex_steal main) a" if "a \<in> {10, 11, 12}" for a
    using that by (auto simp: runs_main_def main_task_def ex_steal_def ex_heap_def ex_routine_def)
  have "count_of (ex_steal main) 0 = 3" "count_of (ex_steal main) 1 = 0"
    by (simp_all add: count_of_def ex_steal_def ex_heap_def)
  moreover have "tasks_ok (ex_steal main) ex_Q" "workers_ok (ex_steal main) [0, 1]"
    using ex_env_ok [OF ex_heap_ok] ex_env_workers by (simp_all add: ex_steal_def)
  ultimately show "w < 2 \<Longrightarrow> steal_ok (ex_steal main) ex_Q [0, 1] w"
    using known unfolding steal_ok_def steal_in_def
    by (simp add: all_less_2 ex_Q_def)
qed

lemma ex_steal_main: "main_task (ex_steal main) 10 = main"
  by (simp add: main_task_def ex_steal_def ex_heap_def ex_routine_def)

theorem steal_from_every_other_witness:
  "(\<exists>e' Q'. stealTaskRoutine 1 (ex_steal False) = Ret (Some 10, e') \<and> Q' (1 :: nat) = Some [] \<and>
     Q' 0 = Some [11, 12 :: nat] \<and> tasks_ok e' Q') \<and>
   (\<exists>e' Q'. stealTaskRoutine 1 (ex_steal True) = Ret (None, e') \<and> Q' (1 :: nat) = Some [] \<and>
     Q' 0 = Some [11, 12, 10 :: nat] \<and> tasks_ok e' Q')"
  using steal_from_every_other [OF ex_steal_ok [of 1 False], of 1 "ex_sched 1 1" "[10]"]
    steal_from_every_other [OF ex_steal_ok [of 1 True], of 1 "ex_sched 1 1" "[]"]
  by (auto simp: ex_steal_fields ex_steal_main ex_sched_def ex_Q_def)

text \<open>
  C25: every other thief runs past the workers. Starting after its own number and counting up
  without wrapping around, the loop reaches the first unregistered slot of \<open>ActiveTasks\<close>, where it
  follows a null pointer, or reads past the array when all slots are registered.
\<close>

theorem steal_overruns:
  assumes ok: "steal_ok e Q ls w" and w: "Suc w < length ls"
    and s: "scheds e s = Some sch" "ActivetaskItems sch = ls ! w" "sch_ID sch = int w"
    and unused: "\<And>p. p \<in> set (drop (length ls) (ActiveTasks (TaskDistributor e))) \<Longrightarrow> p = None"
  shows "stealTaskRoutine s e = Fail
    (if length (ActiveTasks (TaskDistributor e)) = length ls then OutOfBounds else NullDeref)"
proof -
  let ?n = "length ls" and ?A = "ActiveTasks (TaskDistributor e)"
  note ok' = ok [unfolded steal_ok_def]
  have wk: "workers_ok e ls" by (rule steal_inD [OF ok'])
  have td: "td_size (TaskDistributor e) = int ?n" and len: "?n \<le> length ?A"
    using wk by (auto simp: workers_ok_def)
  obtain ms where ms: "Q (ls ! w) = Some ms" using steal_inD(5) [OF ok' Suc_lessD [OF w]] by blast
  have "{Suc w..<?n} \<subseteq> {..<?n} - {w}" by auto
  from steal_span [OF ok' this ms less_imp_le [OF w] order_refl] obtain e1 where
    e1: "steal_loop (ls ! w) (int w) (int (Suc w)) e = steal_loop (ls ! w) (int w) (int ?n) e1"
      "tmem.more e1 = tmem.more e" by blast
  have "?A ! ?n = None" if "length ?A \<noteq> ?n"
    using unused [of "?A ! ?n"] that len by (simp add: in_set_conv_nth) (metis add.right_neutral diff_is_0_eq le_neq_implies_less less_or_eq_imp_le nth_drop zero_less_diff)
  then have "steal_loop (ls ! w) (int w) (int ?n) e1 = Fail (if length ?A = ?n then OutOfBounds else NullDeref)"
    using w len by (subst steal_loop.simps) (auto simp: rtenv_more_eq(9) [OF e1(2)] nth_at_def)
  moreover have "stealTaskRoutine s e = pbind (steal_loop (ls ! w) (int w) (int (Suc w)) e) (popHead (ls ! w))"
  proof -
    have "ls \<noteq> []" using w by auto
    then show ?thesis using s td w by (simp add: stealTaskRoutine_def Let_def add.commute)
  qed
  ultimately show ?thesis by (simp only: e1(1) pbind_simps)
qed

theorem steal_overruns_witness: "stealTaskRoutine 0 (ex_steal True) = Fail OutOfBounds"
  using steal_overruns [OF ex_steal_ok [of 0 True], of 0 "ex_sched 0 0"]
  by (simp add: ex_steal_fields ex_sched_def)

text \<open>
  C26: the rule that a main task is not stolen is broken when it is the only task of its list: it
  is put back and returned as well. The thief then pushes it on its own list, and no assignment
  of tasks to lists fits the links any more.
\<close>

theorem steal_returns_lone_main:
  fixes e :: "'z rtenv_scheme"
  assumes "tasks_ok e Q" and "Q l = Some [a]" and "count_of e l = 1" and "runs_main True e a"
    and "Q m = Some []" and "count_of e m = 0" and "l \<noteq> m"
  shows "\<exists>e1 e2. Try2stealTask l e = Ret (Some a, e1) \<and> tasks_ok e1 Q \<and>
    pushBack m (Some a) e1 = Ret e2 \<and> (\<nexists>Q'. links_ok e2 Q')"
proof -
  have Q: "Q(l \<mapsto> [a]) = Q" using assms(2) by auto
  obtain e1 where e1: "Try2stealTask l e = Ret (Some a, e1)" "tasks_ok e1 Q" "count_of e1 = count_of e"
    using steal_main [OF assms(1,2,4)] assms(3) by (auto simp: Q)
  moreover have "count_of e1 m = 0" using e1(3) assms(6) by simp
  ultimately show ?thesis using pushBack_shared [OF e1(2) assms(2,5,7)] by blast
qed

definition ex_main_heap :: tmem where
  "ex_main_heap = \<lparr>items = [10 \<mapsto> ex_item None None (Some 0) 1],
    lists = [0 \<mapsto> ex_list (Some 10) (Some 10) 1, 1 \<mapsto> ex_list None None 0], item_brk = 11, list_brk = 2\<rparr>"

definition ex_main_env :: rtenv where
  "ex_main_env = ex_env_of ex_main_heap [1 \<mapsto> ex_routine True]"

theorem steal_returns_lone_main_witness:
  "\<exists>e1 e2. Try2stealTask 0 ex_main_env = Ret (Some 10, e1) \<and> pushBack 1 (Some 10) e1 = Ret e2 \<and>
    (\<nexists>Q'. links_ok e2 Q')"
proof -
  have "links_ok ex_main_heap [0 \<mapsto> [10], 1 \<mapsto> []]"
    by (rule links_okI) (auto simp: ex_main_heap_def list_ok_def detached_def split: if_splits)
  moreover have "unlocked ex_main_heap" by (auto simp: unlocked_def ex_main_heap_def split: if_splits)
  ultimately have ok: "tasks_ok ex_main_env [0 \<mapsto> [10], 1 \<mapsto> []]"
    unfolding ex_main_env_def by (intro ex_env_ok) (simp add: tasks_ok_def)
  have c: "count_of ex_main_env 0 = 1" "count_of ex_main_env 1 = 0"
    by (simp_all add: count_of_def ex_main_env_def ex_main_heap_def)
  have m: "runs_main True ex_main_env 10"
    by (simp add: runs_main_def ex_main_env_def ex_main_heap_def ex_routine_def)
  show ?thesis using steal_returns_lone_main [OF ok _ c(1) m _ c(2)] by auto
qed


end
