(* ===== verification/Routines.thy ===== *)
theory Routines
  imports Distributor
begin

text \<open>
  \<open>b_routine.cc\<close>, \<open>b_scheduler.cc\<close> and the start of \<open>b_routine_env.cc\<close>: making, recycling and
  deleting routines, the scheduler and its switch between routines, the dispatch loop of
  \<open>ProcessBegin\<close>, and the initialisation. A function that switches away is given up to
  \<open>bSwap\<close>; what runs next is the routine in \<open>occupyRoutine\<close>, and the rest of the function is a
  definition of its own.
\<close>

section \<open>Making and recycling routines\<close>

text \<open>What the operating system and the linker provide.\<close>

record os =
  os_mmap :: "u64 \<Rightarrow> u64 option"
  os_mprotect :: "u64 \<Rightarrow> u64 \<Rightarrow> bool"
  os_page :: u32
  RoutineBegin_addr :: u64

definition bRoutine_zero :: bRoutine where
  "bRoutine_zero = \<lparr>rt_func = 0, rt_args = None, IsMain = False, IsBegin = False, IsDone = False,
     IsHangup = False, IsProgress = False, IsEnableHook = False, rt_id = 0, rt_stack = None,
     rt_context = None\<rparr>"

definition bRoutine_Alloc :: "'z rtenv_scheme \<Rightarrow> rid \<times> 'z rtenv_scheme" where
  "bRoutine_Alloc e = (routine_brk e,
     e\<lparr>routines := (routines e)(routine_brk e \<mapsto> bRoutine_zero), routine_brk := routine_brk e + 1\<rparr>)"

definition alloc_stack :: "os \<Rightarrow> int \<Rightarrow> 'z rtenv_scheme \<Rightarrow> (sid \<times> 'z rtenv_scheme) prog" where
  "alloc_stack os level e =
     pbind (bRoutineStack_New (os_mmap os) (os_mprotect os) (os_page os) level) (\<lambda>s.
     Ret (stk_brk e, e\<lparr>stks := (stks e)(stk_brk e \<mapsto> s), stk_brk := stk_brk e + 1\<rparr>))"

definition stack_at :: "sid option \<Rightarrow> 'z rtenv_scheme \<Rightarrow> bRoutineStack prog" where
  "stack_at p e = (case p of None \<Rightarrow> Fail NullDeref
     | Some i \<Rightarrow> (case stks e i of None \<Rightarrow> Fail BadAddress | Some s \<Rightarrow> Ret s))"

text \<open>A routine from the pool or a new one; a stack from the pool or a new one.\<close>

definition take_routine :: "'z rtenv_scheme \<Rightarrow> (rid \<times> 'z rtenv_scheme) prog" where
  "take_routine e =
     pbind (bRoutinePool_pop (RoutinePool e)) (\<lambda>(p, pool).
     let e = e\<lparr>RoutinePool := pool\<rparr> in
     case p of Some i \<Rightarrow> Ret (i, e)
     | None \<Rightarrow> (case bRoutine_Alloc e of (i, e) \<Rightarrow>
         pbind (upd_routine (Some i) (\<lambda>x. x\<lparr>rt_context := Some bContext_New\<rparr>) e) (\<lambda>e.
         Ret (i, e))))"

definition take_stack :: "os \<Rightarrow> int \<Rightarrow> 'z rtenv_scheme \<Rightarrow> (sid \<times> 'z rtenv_scheme) prog" where
  "take_stack os level e =
     pbind (bUnSharedStackPool_pop level (UnSharedStackPool e)) (\<lambda>(s, pool).
     let e = e\<lparr>UnSharedStackPool := pool\<rparr> in
     case s of Some k \<Rightarrow> Ret (k, e) | None \<Rightarrow> alloc_stack os level e)"

definition bRoutine_New ::
    "os \<Rightarrow> int \<Rightarrow> nat \<Rightarrow> nat option \<Rightarrow> 'z rtenv_scheme \<Rightarrow> (rid \<times> 'z rtenv_scheme) prog" where
  "bRoutine_New os level func args e =
     pbind (take_routine e) (\<lambda>(i, e).
     let e = e\<lparr>New_id := New_id e + 1\<rparr> in
     pbind (upd_routine (Some i) (\<lambda>x. x\<lparr>rt_id := New_id e, IsBegin := False, IsDone := False,
       IsEnableHook := True, IsMain := False, IsProgress := False, IsHangup := False\<rparr>) e) (\<lambda>e.
     pbind (take_stack os level e) (\<lambda>(k, e).
     pbind (upd_routine (Some i) (\<lambda>x. x\<lparr>rt_stack := Some k\<rparr>) e) (\<lambda>e.
     pbind (routine_at (Some i) e) (\<lambda>x.
     pbind (stack_at (rt_stack x) e) (\<lambda>st.
     pbind (deref (rt_context x)) (\<lambda>c.
     pbind (upd_routine (Some i) (\<lambda>x. x\<lparr>rt_context :=
       Some (bContext_init (os_page os) (RoutineBegin_addr os) (of_nat i) st c)\<rparr>) e) (\<lambda>e.
     pbind (upd_routine (Some i) (\<lambda>x. x\<lparr>rt_func := func, rt_args := args\<rparr>) e) (\<lambda>e.
     Ret (i, e))))))))))"

text \<open>
  \<open>bRoutine::Del\<close> frees the context and the routine and unmaps the stack; the range it unmaps
  is returned. The stack's descriptor stays allocated.
\<close>

definition bRoutine_Del :: "os \<Rightarrow> rid option \<Rightarrow> 'z rtenv_scheme \<Rightarrow> ((u64 \<times> u64) \<times> 'z rtenv_scheme) prog" where
  "bRoutine_Del os del e =
     pbind (routine_at del e) (\<lambda>x.
     pbind (stack_at (rt_stack x) e) (\<lambda>s.
     Ret (Stack_Del_range (os_page os) s, e\<lparr>routines := (routines e)(the del := None)\<rparr>)))"

text \<open>The result says whether the caller's pointer was set to null.\<close>

definition bRoutineRecycle :: "rid option \<Rightarrow> 'z rtenv_scheme \<Rightarrow> (bool \<times> 'z rtenv_scheme) prog" where
  "bRoutineRecycle rt e =
     pbind (upd_routine rt (\<lambda>x. x\<lparr>IsDone := True\<rparr>) e) (\<lambda>e.
     pbind (routine_at rt e) (\<lambda>x.
     if IsMain x then Ret (False, e)
     else
       pbind (if RoutineNums (UnSharedStackPool e) \<ge> Max_Keep_Routines_Thread
              then Ret (- 1, UnSharedStackPool e)
              else pbind (deref (rt_stack x)) (\<lambda>k.
                   bUnSharedStackPool_push (stks e) k (UnSharedStackPool e))) (\<lambda>(n, pool).
       let e = e\<lparr>UnSharedStackPool := pool\<rparr> in
       if n = - 1 then
         pbind (upd_sched (Some (cur_sch e)) (\<lambda>s. s\<lparr>IsPendingNeedDelete := True\<rparr>) e) (\<lambda>e.
         Ret (False, e))
       else
         pbind (upd_routine rt (\<lambda>x. x\<lparr>rt_stack := None\<rparr>) e) (\<lambda>e.
         pbind (deref (rt_context x)) (\<lambda>c.
         pbind (upd_routine rt (\<lambda>x. x\<lparr>rt_context := Some (c\<lparr>ctx_stackPtr := 0, ctx_stackSize := 0\<rparr>)\<rparr>) e) (\<lambda>e.
         pbind (bRoutinePool_push (the rt) (RoutinePool e)) (\<lambda>pool.
         Ret (True, e\<lparr>RoutinePool := pool\<rparr>))))))))"

section \<open>The scheduler\<close>

text \<open>\<open>HangTimeout\<close>: seconds, and \<open>long(0.5 * OneMsAsNs) + 0\<close> nanoseconds.\<close>

definition HangTimeout :: "int \<times> int" where
  "HangTimeout = (0, 5 * 1000000 div 10 + 0)"

definition bSchedulerCreat :: "'z rtenv_scheme \<Rightarrow> (schid \<times> 'z rtenv_scheme) prog" where
  "bSchedulerCreat e =
     (case TaskItemsList_New e of (l, e) \<Rightarrow> case bRoutine_Alloc e of (r, e) \<Rightarrow>
      pbind (upd_routine (Some r) (\<lambda>x. x\<lparr>IsEnableHook := True, rt_id := 0,
        rt_context := Some bContext_New, IsProgress := True, IsBegin := True\<rparr>) e) (\<lambda>e.
      let i = sched_brk e in
      Ret (i, e\<lparr>scheds := (scheds e)(i \<mapsto> \<lparr>pendingRoutine = None, occupyRoutine = Some r,
          ActivetaskItems = l, sch_ID = 0, IsThreadRunning = False, IsStop = False,
          IsPendingNeedDelete = False, sch_mutex = False, signalled = 0, hangTimeOut = HangTimeout\<rparr>),
        sched_brk := i + 1\<rparr>)))"

text \<open>\<open>bScheduler::get\<close> on the thread-local pointer, before and after, which no other thread sees.\<close>

definition bScheduler_get ::
    "schid option \<Rightarrow> 'z rtenv_scheme \<Rightarrow> (schid \<times> schid option \<times> 'z rtenv_scheme) prog" where
  "bScheduler_get scheduler e = (case scheduler of
       Some s \<Rightarrow> Ret (s, scheduler, e)
     | None \<Rightarrow> pbind (bSchedulerCreat e) (\<lambda>(s, e). Ret (s, Some s, e)))"

text \<open>The state at the call of \<open>bSwap\<close>, which resumes the routine now in \<open>occupyRoutine\<close>.\<close>

definition SwapContext :: "'z rtenv_scheme \<Rightarrow> 'z rtenv_scheme prog" where
  "SwapContext e =
     pbind (sched_at (Some (cur_sch e)) e) (\<lambda>sch.
     pbind (routine_at (occupyRoutine sch) e) (\<lambda>occ.
     pbind (if IsMain occ \<and> IsProgress occ then
              case TaskItem_New e of (i, e) \<Rightarrow>
              pbind (upd_item (Some i) (\<lambda>t. t\<lparr>ti_self := occupyRoutine sch\<rparr>) e) (\<lambda>e.
              pbind (upd_routine (occupyRoutine sch) (\<lambda>x. x\<lparr>IsProgress := False\<rparr>) e) (\<lambda>e.
              pushBack (ActivetaskItems sch) (Some i) e))
            else Ret e) (\<lambda>e.
     pbind (routine_at (occupyRoutine sch) e) (\<lambda>occ.
     pbind (routine_at (pendingRoutine sch) e) (\<lambda>pen.
     pbind (upd_sched (Some (cur_sch e)) (\<lambda>s. s\<lparr>occupyRoutine := pendingRoutine sch,
       pendingRoutine := occupyRoutine sch\<rparr>) e) (\<lambda>e.
     pbind (deref (rt_context occ)) (\<lambda>pc.
     pbind (deref (rt_context pen)) (\<lambda>oc.
     Ret e))))))))"

definition task_for :: "rid option \<Rightarrow> 'z rtenv_scheme \<Rightarrow> (addr \<times> 'z rtenv_scheme) prog" where
  "task_for r e = (case TaskItem_New e of (i, e) \<Rightarrow>
     pbind (upd_item (Some i) (\<lambda>t. t\<lparr>ti_self := r\<rparr>) e) (\<lambda>e. Ret (i, e)))"

definition bRoutine_yield :: "'z rtenv_scheme \<Rightarrow> 'z rtenv_scheme prog" where
  "bRoutine_yield e =
     pbind (sched_at (Some (cur_sch e)) e) (\<lambda>sch.
     pbind (task_for (occupyRoutine sch) e) (\<lambda>(t, e).
     pbind (AddTask (Some t) e) SwapContext))"

definition bRoutine_Resume :: "rid \<Rightarrow> 'z rtenv_scheme \<Rightarrow> 'z rtenv_scheme prog" where
  "bRoutine_Resume this e =
     pbind (sched_at (Some (cur_sch e)) e) (\<lambda>sch.
     case TaskItem_New e of (t1, e) \<Rightarrow> case TaskItem_New e of (t2, e) \<Rightarrow>
     pbind (upd_item (Some t1) (\<lambda>t. t\<lparr>ti_self := Some this\<rparr>) e) (\<lambda>e.
     pbind (upd_item (Some t2) (\<lambda>t. t\<lparr>ti_self := occupyRoutine sch\<rparr>) e) (\<lambda>e.
     pbind (AddTask (Some t1) e) (\<lambda>e.
     pbind (AddTask (Some t2) e) SwapContext))))"

definition bRoutine_deleteSelf :: "'z rtenv_scheme \<Rightarrow> 'z rtenv_scheme prog" where
  "bRoutine_deleteSelf e =
     pbind (sched_at (Some (cur_sch e)) e) (\<lambda>sch.
     pbind (bRoutineRecycle (occupyRoutine sch) e) (\<lambda>(_, e). SwapContext e))"

text \<open>\<open>RoutineBegin\<close> before and after it runs the routine's function.\<close>

definition RoutineBegin_enter :: "rid \<Rightarrow> 'z rtenv_scheme \<Rightarrow> 'z rtenv_scheme prog" where
  "RoutineBegin_enter i e =
     pbind (routine_at (Some i) e) (\<lambda>x.
     if IsBegin x then Fail (Throw ''return Wrong'')
     else upd_routine (Some i) (\<lambda>x. x\<lparr>IsBegin := True\<rparr>) e)"

definition RoutineBegin_leave :: "rid \<Rightarrow> 'z rtenv_scheme \<Rightarrow> 'z rtenv_scheme prog" where
  "RoutineBegin_leave i e =
     pbind (upd_routine (Some i) (\<lambda>x. x\<lparr>IsDone := True, IsBegin := False, rt_args := None\<rparr>) e) (\<lambda>e.
     pbind (bRoutineRecycle (Some i) e) (\<lambda>(_, e). SwapContext e))"

section \<open>The dispatch loop\<close>

definition ProcessBegin_start :: "'z rtenv_scheme \<Rightarrow> 'z rtenv_scheme prog" where
  "ProcessBegin_start e =
     pbind (registe (cur_sch e) e) (\<lambda>(n, e).
     pbind (upd_sched (Some (cur_sch e)) (\<lambda>s. s\<lparr>sch_ID := n\<rparr>) e) (\<lambda>e.
     pbind (sched_at (Some (cur_sch e)) e) (\<lambda>sch.
     upd_routine (occupyRoutine sch) (\<lambda>x. x\<lparr>IsProgress := True\<rparr>) e)))"

text \<open>One round: the next task, from the own list or stolen.\<close>

definition next_task :: "'z rtenv_scheme \<Rightarrow> (addr option \<times> 'z rtenv_scheme) prog" where
  "next_task e =
     pbind (sched_at (Some (cur_sch e)) e) (\<lambda>sch.
     pbind (popHead (ActivetaskItems sch) e) (\<lambda>(task, e).
     if task = None then stealTaskRoutine (cur_sch e) e else Ret (task, e)))"

text \<open>The switch to the task's routine; \<open>False\<close> when the task has none and nothing was switched.\<close>

definition run_task :: "addr option \<Rightarrow> 'z rtenv_scheme \<Rightarrow> (bool \<times> 'z rtenv_scheme) prog" where
  "run_task task e =
     pbind (item_at task e) (\<lambda>t.
     if ti_self t = None then Ret (False, e)
     else
       pbind (upd_sched (Some (cur_sch e)) (\<lambda>s. s\<lparr>pendingRoutine := ti_self t\<rparr>) e) (\<lambda>e.
       pbind (SwapContext e) (\<lambda>e. Ret (True, e))))"

text \<open>Back in the scheduler: the routine that ended may have to be deleted, the task is.\<close>

definition after_task :: "os \<Rightarrow> addr option \<Rightarrow> bool \<Rightarrow> 'z rtenv_scheme \<Rightarrow> 'z rtenv_scheme prog" where
  "after_task os task switched e =
     pbind (if switched then
              pbind (sched_at (Some (cur_sch e)) e) (\<lambda>sch.
              if IsPendingNeedDelete sch then
                pbind (routine_at (pendingRoutine sch) e) (\<lambda>p.
                pbind (if \<not> IsMain p
                       then pbind (bRoutine_Del os (pendingRoutine sch) e) (\<lambda>(_, e). Ret e)
                       else Ret e) (\<lambda>e.
                upd_sched (Some (cur_sch e)) (\<lambda>s. s\<lparr>IsPendingNeedDelete := False\<rparr>) e))
              else Ret e)
            else Ret e) (\<lambda>e.
     TaskItem_Delete task e)"

text \<open>
  An idle worker: \<open>idle_begin\<close> up to \<open>pthread_cond_timedwait\<close>, \<open>idle_end\<close> after it. The wait
  blocks while the clock is before the absolute time \<open>hangTimeOut\<close> and nobody signals.
\<close>

definition idle_begin :: "'z rtenv_scheme \<Rightarrow> 'z rtenv_scheme prog" where
  "idle_begin e = pbind (sched_at (Some (cur_sch e)) e) (\<lambda>sch.
     if sch_mutex sch then Fail SelfDeadlock
     else upd_sched (Some (cur_sch e)) (\<lambda>s. s\<lparr>IsThreadRunning := False\<rparr>) e)"

definition idle_end :: "'z rtenv_scheme \<Rightarrow> 'z rtenv_scheme prog" where
  "idle_end e = upd_sched (Some (cur_sch e)) (\<lambda>s. s\<lparr>IsThreadRunning := True\<rparr>) e"

section \<open>Initialisation\<close>

definition InitializeBRoutineEnv :: "int \<Rightarrow> rtenv" where
  "InitializeBRoutineEnv RunProcessNums =
     \<lparr>items = Map.empty, lists = Map.empty, item_brk = 0, list_brk = 0, routines = Map.empty,
      routine_brk = 0, stks = Map.empty, stk_brk = 0, scheds = Map.empty, sched_brk = 0,
      RoutinePool = bRoutinePool_New, UnSharedStackPool = bUnSharedStackPool_New,
      TaskDistributor = TaskDistributor_New RunProcessNums, AddTask_i = 0, New_id = 0, cur_sch = 0\<rparr>"

text \<open>
  \<open>CreatMutProcessEnv\<close> up to its switch to the routine of the scheduler, whose function is
  \<open>ProcessBegin\<close>; then the loop that starts the other threads, by the values of \<open>i\<close> it starts one for.
\<close>

definition CreatMutProcessEnv_switch ::
    "os \<Rightarrow> schid option \<Rightarrow> nat \<Rightarrow> nat \<Rightarrow> 'z rtenv_scheme \<Rightarrow> (rid \<times> 'z rtenv_scheme) prog" where
  "CreatMutProcessEnv_switch os scheduler ProcessBegin_ptr threadArg e =
     pbind (bScheduler_get scheduler e) (\<lambda>(sch, _, e).
     let e = e\<lparr>cur_sch := sch\<rparr> in
     pbind (sched_at (Some sch) e) (\<lambda>s.
     pbind (upd_routine (occupyRoutine s) (\<lambda>x. x\<lparr>rt_id := 1\<rparr>) e) (\<lambda>e.
     pbind (bRoutine_New os LargeStack ProcessBegin_ptr (Some threadArg) e) (\<lambda>(mainR, e).
     pbind (upd_routine (Some mainR) (\<lambda>x. x\<lparr>rt_id := 0, IsEnableHook := True\<rparr>) e) (\<lambda>e.
     pbind (upd_sched (Some sch) (\<lambda>s. s\<lparr>pendingRoutine := Some mainR\<rparr>) e) (\<lambda>e.
     pbind (upd_routine (Some mainR) (\<lambda>x. x\<lparr>IsProgress := True\<rparr>) e) (\<lambda>e.
     pbind (upd_routine (occupyRoutine s) (\<lambda>x. x\<lparr>IsMain := True\<rparr>) e) (\<lambda>e.
     pbind (SwapContext e) (\<lambda>e.
     Ret (mainR, e))))))))))"

definition CreatMutProcessEnv_threads :: "'z rtenv_scheme \<Rightarrow> int list" where
  "CreatMutProcessEnv_threads e = [1..td_size (TaskDistributor e) - 1]"

section \<open>Facts about the switch\<close>

lemma SwapContext_plain:
  assumes "scheds e (cur_sch e) = Some sch" and "occupyRoutine sch = Some r" and "pendingRoutine sch = Some p"
    and "routines e r = Some x" and "routines e p = Some y" and "rt_context x = Some c" and "rt_context y = Some d"
    and "\<not> (IsMain x \<and> IsProgress x)"
  shows "SwapContext e = Ret (e\<lparr>scheds := (scheds e)(cur_sch e \<mapsto>
    sch\<lparr>occupyRoutine := Some p, pendingRoutine := Some r\<rparr>)\<rparr>)"
  using assms by (auto simp: SwapContext_def)

text \<open>A new task for a routine: loose, and everything else as before.\<close>

lemma task_for_tasks:
  fixes e :: "'z rtenv_scheme"
  assumes ok: "tasks_ok e Q" and brk: "brk_ok e"
  obtains e' where "task_for r e = Ret (item_brk e, e')" and "tasks_ok e' Q" and "brk_ok e'"
    and "items e (item_brk e) = None"
    and "items e' = (items e)(item_brk e \<mapsto> TaskItem_zero\<lparr>ti_self := r\<rparr>)"
    and "lists e' = lists e" and "tmem.more e' = tmem.more e" and "loose (item_brk e) e'"
proof -
  obtain a e1 where n: "TaskItem_New e = (a, e1)" by fastforce
  have a: "a = item_brk e" using n by (simp add: TaskItem_New_def)
  note N = TaskItem_New_tasks [OF ok brk n]
  let ?e = "e1\<lparr>items := (items e1)(a \<mapsto> TaskItem_zero\<lparr>ti_self := r\<rparr>)\<rparr>"
  have it: "items e1 a = Some TaskItem_zero" by (simp add: N(4))
  have links: "nxt (items ?e) = nxt (items e1)" "prv (items ?e) = prv (items e1)" "own (items ?e) = own (items e1)"
    using it by (auto simp: nxt_def prv_def own_def)
  have "links_ok ?e Q = links_ok e1 Q"
    unfolding links_ok_def list_ok_def detached_def links by simp
  then have tk: "tasks_ok ?e Q" using N(1) by (simp add: tasks_ok_def unlocked_def)
  have bk: "brk_ok ?e" using N(2) it by (auto simp: brk_ok_def)
  have lo: "loose a ?e" using N(7) links by (simp add: loose_def detached_def)
  have "task_for r e = Ret (a, ?e)" using it by (simp add: task_for_def n)
  moreover have "items ?e = (items e)(a \<mapsto> TaskItem_zero\<lparr>ti_self := r\<rparr>)" using N(4) by auto
  ultimately show thesis
    using that tk bk lo N(3,5,6) unfolding a by simp
qed

text \<open>Who runs and who waits to be switched back to, and that both can be switched to.\<close>

definition running :: "'z rtenv_scheme \<Rightarrow> rid \<Rightarrow> rid \<Rightarrow> bool" where
  "running e r p \<longleftrightarrow> (\<exists>sch x y. scheds e (cur_sch e) = Some sch \<and> occupyRoutine sch = Some r \<and>
     pendingRoutine sch = Some p \<and> routines e r = Some x \<and> routines e p = Some y \<and>
     rt_context x \<noteq> None \<and> rt_context y \<noteq> None)"

lemma running_frame:
  assumes "env_frame e e'" and "running e r p"
  shows "running e' r p"
proof -
  obtain sch x y where s: "scheds e (cur_sch e) = Some sch" "occupyRoutine sch = Some r"
    "pendingRoutine sch = Some p" "routines e r = Some x" "routines e p = Some y"
    "rt_context x \<noteq> None" "rt_context y \<noteq> None" using assms(2) by (auto simp: running_def)
  obtain n where "scheds e' (cur_sch e) = Some (sch\<lparr>signalled := n\<rparr>)"
    by (rule env_frame_sched [OF assms(1) s(1)])
  then show ?thesis using s assms(1) by (auto simp: running_def env_frame_def)
qed

lemma dist_ok_cong:
  assumes "items e' = items e" and "lists e' = lists e" and "TaskDistributor e' = TaskDistributor e"
    and "AddTask_i e' = AddTask_i e"
    and "\<And>s y. scheds e s = Some y \<Longrightarrow> \<exists>z. scheds e' s = Some z \<and> ActivetaskItems z = ActivetaskItems y"
    and "dist_ok e Q ls"
  shows "dist_ok e' Q ls"
proof -
  have "workers_ok e' ls"
    using assms(3,5,6) unfolding dist_ok_def workers_ok_def by (simp add: assms(3)) metis
  then show ?thesis using assms(4,6) tasks_ok_cong [OF assms(1,2)] by (simp add: dist_ok_def)
qed

text \<open>The switch between a running routine and the waiting one.\<close>

lemma SwapContext_running:
  assumes run: "running e r p" and x: "routines e r = Some x" "\<not> (IsMain x \<and> IsProgress x)"
  shows "\<exists>e'. SwapContext e = Ret e' \<and> running e' p r \<and> items e' = items e \<and> lists e' = lists e \<and>
    item_brk e' = item_brk e \<and> list_brk e' = list_brk e \<and> routines e' = routines e \<and>
    cur_sch e' = cur_sch e \<and> (\<forall>Q ls. dist_ok e Q ls \<longrightarrow> dist_ok e' Q ls) \<and>
    AddTask_i e' = AddTask_i e \<and> rtenv.more e' = rtenv.more e \<and>
    map_option IsPendingNeedDelete (scheds e' (cur_sch e)) = map_option IsPendingNeedDelete (scheds e (cur_sch e))"
proof -
  obtain sch y c d where s: "scheds e (cur_sch e) = Some sch" "occupyRoutine sch = Some r"
    "pendingRoutine sch = Some p" "routines e p = Some y" "rt_context x = Some c" "rt_context y = Some d"
    using run x(1) by (auto simp: running_def)
  let ?e = "e\<lparr>scheds := (scheds e)(cur_sch e \<mapsto>
    sch\<lparr>occupyRoutine := Some p, pendingRoutine := Some r\<rparr>)\<rparr>"
  have "SwapContext e = Ret ?e" by (rule SwapContext_plain [OF s(1-3) x(1) s(4-6) x(2)])
  moreover have "running ?e p r" using s x by (auto simp: running_def)
  moreover have "dist_ok ?e Q ls" if "dist_ok e Q ls" for Q ls
    by (rule dist_ok_cong [OF _ _ _ _ _ that]) (use s(1) in auto)
  ultimately show ?thesis using s(1) by auto
qed

text \<open>A routine that yields: its new task goes to the worker whose turn it is.\<close>

lemma yield_step:
  fixes e :: "'z rtenv_scheme"
  assumes ok: "dist_ok e Q ls" and brk: "brk_ok e" and run: "running e r p"
    and x: "routines e r = Some x" "\<not> IsProgress x" and k: "k = unat (AddTask_i e)"
  shows "\<exists>e' t'. bRoutine_yield e = Ret e' \<and> items e (item_brk e) = None \<and>
    dist_ok e' (Q(ls ! k \<mapsto> the (Q (ls ! k)) @ [item_brk e])) ls \<and>
    unat (AddTask_i e') = (k + 1) mod length ls \<and> running e' p r \<and> brk_ok e' \<and>
    items e' (item_brk e) = Some t' \<and> ti_self t' = Some r \<and>
    (\<forall>a. a \<noteq> item_brk e \<longrightarrow> map_option strip (items e' a) = map_option strip (items e a)) \<and>
    routines e' = routines e \<and> cur_sch e' = cur_sch e \<and>
    map_option IsPendingNeedDelete (scheds e' (cur_sch e)) = map_option IsPendingNeedDelete (scheds e (cur_sch e))"
proof -
  let ?t = "item_brk e"
  obtain sch where s: "scheds e (cur_sch e) = Some sch" "occupyRoutine sch = Some r"
    using run by (auto simp: running_def)
  obtain e1 where e1: "task_for (Some r) e = Ret (?t, e1)" "tasks_ok e1 Q" "brk_ok e1" "items e ?t = None"
    "items e1 = (items e)(?t \<mapsto> TaskItem_zero\<lparr>ti_self := Some r\<rparr>)" "lists e1 = lists e"
    "tmem.more e1 = tmem.more e" "loose ?t e1"
    using ok by (auto simp: dist_ok_def intro: task_for_tasks [OF _ brk])
  note m = rtenv_more_eq [OF e1(7)]
  have ok1: "dist_ok e1 Q ls"
    using ok e1(2) workers_ok_more [OF e1(7)] by (simp add: dist_ok_def m)
  have rd: "task_ready e1 ?t" using e1(5,8) x by (simp add: task_ready_def m TaskItem_zero_def)
  have "k < length ls" using ok k by (simp add: dist_ok_def)
  then have "Q (ls ! k) \<noteq> None" using ok by (simp add: dist_ok_def)
  then have Qk: "Q (ls ! k) = Some (the (Q (ls ! k)))" by simp
  have k1: "k = unat (AddTask_i e1)" using k m by simp
  obtain e2 where e2: "AddTask (Some ?t) e1 = Ret e2"
    "dist_ok e2 (Q(ls ! k \<mapsto> the (Q (ls ! k)) @ [?t])) ls"
    "unat (AddTask_i e2) = (k + 1) mod length ls" "env_frame e1 e2"
    using AddTask_step [OF ok1 rd k1 Qk] by blast
  have "env_frame e1 e2" by (rule e2(4))
  moreover have "running e1 r p" using run by (simp add: running_def m)
  ultimately have run2: "running e2 r p" by (rule running_frame)
  have r2: "routines e2 r = Some x" "routines e2 = routines e" "cur_sch e2 = cur_sch e"
    using e2(4) x m by (auto simp: env_frame_def)
  obtain n where n: "scheds e2 (cur_sch e) = Some (sch\<lparr>signalled := n\<rparr>)"
    using env_frame_sched [OF e2(4), of "cur_sch e" sch] s(1) m by auto
  obtain e3 where e3: "SwapContext e2 = Ret e3" "running e3 p r" "items e3 = items e2" "lists e3 = lists e2"
    "item_brk e3 = item_brk e2" "list_brk e3 = list_brk e2" "routines e3 = routines e2"
    "cur_sch e3 = cur_sch e2" "\<And>Q ls. dist_ok e2 Q ls \<Longrightarrow> dist_ok e3 Q ls" "AddTask_i e3 = AddTask_i e2"
    "map_option IsPendingNeedDelete (scheds e3 (cur_sch e2)) = map_option IsPendingNeedDelete (scheds e2 (cur_sch e2))"
    using SwapContext_running [OF run2 r2(1)] x(2) by blast
  obtain t' where t': "items e2 ?t = Some t'" "strip t' = strip (TaskItem_zero\<lparr>ti_self := Some r\<rparr>)"
    using env_frame_item [OF e2(4), of ?t] e1(5) by auto
  have "bRoutine_yield e = Ret e3"
    using s e1(1) e2(1) e3(1) by (simp add: bRoutine_yield_def)
  moreover have "brk_ok e3"
    using env_frame_brk [OF e2(4) e1(3)] e3(3-6) by (simp add: brk_ok_def)
  moreover have "\<forall>a. a \<noteq> ?t \<longrightarrow> map_option strip (items e3 a) = map_option strip (items e a)"
    using e2(4) e1(5) e3(3) by (simp add: env_frame_def)
  moreover have "ti_self t' = Some r" using strip_payload(1) [OF t'(2)] by simp
  ultimately show ?thesis
    using e1(4) e2(2,3) e3 r2 t'(1) n s(1) by (intro exI [of _ e3] exI [of _ t']) simp
qed

text \<open>The scheduler takes the first task of its list and switches to its routine.\<close>

lemma dispatch_step:
  fixes e :: "'z rtenv_scheme"
  assumes ok: "dist_ok e Q ls" and brk: "brk_ok e"
    and s: "scheds e (cur_sch e) = Some sch" "occupyRoutine sch = Some s"
    and l: "l = ActivetaskItems sch" "Q l = Some (t # zs)" "count_of e l \<noteq> 0"
    and t: "items e t = Some ti" "ti_self ti = Some r"
    and x: "routines e r = Some x" "rt_context x \<noteq> None" "routines e s = Some y" "rt_context y \<noteq> None"
      "\<not> (IsMain y \<and> IsProgress y)"
  shows "\<exists>e1 e2. next_task e = Ret (Some t, e1) \<and> run_task (Some t) e1 = Ret (True, e2) \<and>
    running e2 r s \<and> dist_ok e2 (Q(l \<mapsto> zs)) ls \<and> brk_ok e2 \<and> loose t e2 \<and> routines e2 = routines e \<and>
    cur_sch e2 = cur_sch e \<and> AddTask_i e2 = AddTask_i e \<and> item_brk e2 = item_brk e \<and>
    map_option IsPendingNeedDelete (scheds e2 (cur_sch e)) = Some (IsPendingNeedDelete sch) \<and>
    rtenv.more e2 = rtenv.more e \<and> (\<forall>a. map_option strip (items e2 a) = map_option strip (items e a))"
proof -
  have tk: "tasks_ok e Q" and wk: "workers_ok e ls" using ok by (auto simp: dist_ok_def)
  obtain e1 where e1: "popHead l e = Ret (Some t, e1)" "tasks_ok e1 (Q(l \<mapsto> zs))" "link_frame e e1"
    "detached (items e1) t" using popHead_Cons [OF tk l(2,3)] by blast
  have more: "tmem.more e1 = tmem.more e" and brks: "item_brk e1 = item_brk e"
    using e1(3) by (auto simp: link_frame_def)
  note m = rtenv_more_eq [OF more]
  have d1: "dist_ok e1 (Q(l \<mapsto> zs)) ls"
    using ok e1(2) workers_ok_more [OF more] l(2) by (simp add: dist_ok_def m)
  obtain ti' where ti': "items e1 t = Some ti'" "strip ti' = strip ti"
    using link_frame_Some [OF e1(3) t(1)] by blast
  have self: "ti_self ti' = Some r" using strip_payload(1) [OF ti'(2)] t(2) by simp
  let ?e = "e1\<lparr>scheds := (scheds e1)(cur_sch e \<mapsto> sch\<lparr>pendingRoutine := Some r\<rparr>)\<rparr>"
  have run: "running ?e s r" using s x by (auto simp: running_def m)
  have ys: "routines ?e s = Some y" using x by (simp add: m)
  have d2: "dist_ok ?e (Q(l \<mapsto> zs)) ls"
    by (rule dist_ok_cong [OF _ _ _ _ _ d1]) (use s(1) in \<open>auto simp: m\<close>)
  obtain e2 where e2: "SwapContext ?e = Ret e2" "running e2 r s" "items e2 = items ?e" "lists e2 = lists ?e"
    "item_brk e2 = item_brk ?e" "list_brk e2 = list_brk ?e" "routines e2 = routines ?e"
    "cur_sch e2 = cur_sch ?e" "dist_ok e2 (Q(l \<mapsto> zs)) ls" "AddTask_i e2 = AddTask_i ?e"
    "map_option IsPendingNeedDelete (scheds e2 (cur_sch ?e)) = map_option IsPendingNeedDelete (scheds ?e (cur_sch ?e))"
    "rtenv.more e2 = rtenv.more ?e"
    using SwapContext_running [OF run ys x(5)] d2 by blast
  have fr: "\<forall>a. map_option strip (items e2 a) = map_option strip (items e a)" "rtenv.more e2 = rtenv.more e"
    using e1(3) e2(3,12) by (simp_all add: link_frame_def m)
  have "next_task e = Ret (Some t, e1)" using s l(1) e1(1) by (simp add: next_task_def)
  moreover have "run_task (Some t) e1 = Ret (True, e2)"
    using ti'(1) self s(1) e2(1) by (simp add: run_task_def m)
  moreover have "brk_ok e2"
    using brk_ok_frame [OF e1(3) brk] e2(3-6) by (simp add: brk_ok_def)
  moreover have "loose t e2" using e1(4) ti'(1) e2(3) by (simp add: loose_def)
  ultimately show ?thesis using e2(2,7-11) fr brks e2(5) by (intro exI [of _ e1] exI [of _ e2]) (simp add: m)
qed

text \<open>Back in the scheduler, with nothing to delete but the task.\<close>

lemma after_task_step:
  fixes e :: "'z rtenv_scheme"
  assumes ok: "dist_ok e Q ls" and t: "loose t e"
    and s: "scheds e (cur_sch e) = Some sch" "\<not> IsPendingNeedDelete sch"
  shows "\<exists>e'. after_task os (Some t) True e = Ret e' \<and> dist_ok e' Q ls \<and> items e' = (items e)(t := None) \<and>
    tmem.more e' = tmem.more e"
proof -
  have "links_ok e Q" "unlocked e" using ok by (auto simp: dist_ok_def tasks_ok_def)
  obtain e' where e': "TaskItem_Delete (Some t) e = Ret e'" "links_ok e' Q" "items e' = (items e)(t := None)"
    "lists e' = lists e" "tmem.more e' = tmem.more e"
    using TaskItem_Delete_links [OF \<open>links_ok e Q\<close> t] by blast
  have "tasks_ok e' Q" using e'(2,4) \<open>unlocked e\<close> by (simp add: tasks_ok_def unlocked_def)
  then have "dist_ok e' Q ls"
    using ok workers_ok_more [OF e'(5)] rtenv_more_eq [OF e'(5)] by (simp add: dist_ok_def)
  moreover have "after_task os (Some t) True e = Ret e'" using s e'(1) by (simp add: after_task_def)
  ultimately show ?thesis using e'(3,5) by blast
qed

lemma dispatch_yield_round:
  fixes e :: "'z rtenv_scheme"
  assumes ok: "dist_ok e Q ls" and brk: "brk_ok e"
    and s: "scheds e (cur_sch e) = Some sch" "occupyRoutine sch = Some s" "\<not> IsPendingNeedDelete sch"
    and l: "l = ActivetaskItems sch" "Q l = Some (t # zs)" "count_of e l \<noteq> 0"
    and t: "items e t = Some ti" "ti_self ti = Some r"
    and x: "routines e r = Some x" "rt_context x \<noteq> None" "\<not> IsProgress x"
    and y: "routines e s = Some y" "rt_context y \<noteq> None" "\<not> (IsMain y \<and> IsProgress y)"
    and k: "k = unat (AddTask_i e)" and Q1: "Q1 = Q(l \<mapsto> zs)"
  shows "\<exists>e1 e2 e3 e4 n ni. next_task e = Ret (Some t, e1) \<and> run_task (Some t) e1 = Ret (True, e2) \<and>
    running e2 r s \<and> bRoutine_yield e2 = Ret e3 \<and> running e3 s r \<and>
    after_task os (Some t) True e3 = Ret e4 \<and> items e4 t = None \<and>
    dist_ok e4 (Q1(ls ! k \<mapsto> the (Q1 (ls ! k)) @ [n])) ls \<and> n \<noteq> t \<and>
    items e4 n = Some ni \<and> ti_self ni = Some r \<and> unat (AddTask_i e4) = (k + 1) mod length ls"
proof -
  obtain e1 e2 where e2: "next_task e = Ret (Some t, e1)" "run_task (Some t) e1 = Ret (True, e2)"
    "running e2 r s" "dist_ok e2 Q1 ls" "brk_ok e2" "loose t e2" "routines e2 = routines e"
    "cur_sch e2 = cur_sch e" "AddTask_i e2 = AddTask_i e"
    "map_option IsPendingNeedDelete (scheds e2 (cur_sch e)) = Some (IsPendingNeedDelete sch)"
    using dispatch_step [OF ok brk s(1,2) l t x(1,2) y] unfolding Q1 by blast
  let ?n = "item_brk e2"
  have x2: "routines e2 r = Some x" and k2: "k = unat (AddTask_i e2)" using x(1) k e2 by simp_all
  obtain e3 ni where e3: "bRoutine_yield e2 = Ret e3" "items e2 ?n = None"
    "dist_ok e3 (Q1(ls ! k \<mapsto> the (Q1 (ls ! k)) @ [?n])) ls" "unat (AddTask_i e3) = (k + 1) mod length ls"
    "running e3 s r" "items e3 ?n = Some ni" "ti_self ni = Some r"
    "\<forall>a. a \<noteq> ?n \<longrightarrow> map_option strip (items e3 a) = map_option strip (items e2 a)"
    "cur_sch e3 = cur_sch e2"
    "map_option IsPendingNeedDelete (scheds e3 (cur_sch e2)) = map_option IsPendingNeedDelete (scheds e2 (cur_sch e2))"
    using yield_step [OF e2(4,5,3) x2 x(3) k2] by blast
  have nt: "?n \<noteq> t" using e3(2) e2(6) by (auto simp: loose_def)
  have lo: "loose t e3"
  proof (rule links_ok_loose)
    show ok3: "links_ok e3 (Q1(ls ! k \<mapsto> the (Q1 (ls ! k)) @ [?n]))" using e3(3) by (auto simp: dist_ok_def)
    have "map_option strip (items e3 t) = map_option strip (items e2 t)" using e3(8) nt by simp
    then show "items e3 t \<noteq> None" using e2(6) by (auto simp: loose_def)
    have no: "\<And>l' zs. Q1 l' = Some zs \<Longrightarrow> t \<notin> set zs"
      using loose_not_in [OF _ e2(6)] e2(4) by (auto simp: dist_ok_def)
    have "k < length ls" using k ok by (simp add: dist_ok_def)
    then have "Q1 (ls ! k) \<noteq> None" using e2(4) by (simp add: dist_ok_def)
    then show "t \<notin> set zs" if "(Q1(ls ! k \<mapsto> the (Q1 (ls ! k)) @ [?n])) l' = Some zs" for l' zs
      using that no nt by (auto split: if_splits)
  qed
  obtain sch3 where s3: "scheds e3 (cur_sch e3) = Some sch3" "\<not> IsPendingNeedDelete sch3"
    using e3(9,10) e2(8,10) s(3) by auto
  obtain e4 where e4: "after_task os (Some t) True e3 = Ret e4"
    "dist_ok e4 (Q1(ls ! k \<mapsto> the (Q1 (ls ! k)) @ [?n])) ls" "items e4 = (items e3)(t := None)"
    "tmem.more e4 = tmem.more e3" using after_task_step [OF e3(3) lo s3] by blast
  have "AddTask_i e4 = AddTask_i e3" by (rule rtenv_more_eq(10) [OF e4(4)])
  then show ?thesis
    using e2(1-3) e3(1,4-7) e4 nt
    by (intro exI [of _ e1] exI [of _ e2] exI [of _ e3] exI [of _ e4] exI [of _ ?n] exI [of _ ni]) simp
qed

section \<open>Facts about new and finished routines\<close>

text \<open>
  The pools and the memory they point into: recycled routines have a context, recycled
  stacks a descriptor, and fresh addresses are free.
\<close>

definition pools_ok :: "'z rtenv_scheme \<Rightarrow> rid list \<Rightarrow> sid list \<Rightarrow> sid list \<Rightarrow> bool" where
  "pools_ok e rs ms ds \<longleftrightarrow> routine_pool_rel (RoutinePool e) rs \<and>
     stack_pool_rel (stks e) (UnSharedStackPool e) ms ds \<and>
     (\<forall>r \<in> set rs. \<exists>x. routines e r = Some x \<and> rt_context x \<noteq> None) \<and>
     (\<forall>i \<ge> stk_brk e. stks e i = None) \<and> (\<forall>r \<ge> routine_brk e. routines e r = None)"

definition can_alloc :: "os \<Rightarrow> bool" where
  "can_alloc os \<longleftrightarrow> (\<forall>level \<in> {MiniStack, MediumStack, LargeStack}. \<exists>s.
     bRoutineStack_New (os_mmap os) (os_mprotect os) (os_page os) level = Ret s)"

text \<open>A routine that has just been made: its function has not begun.\<close>

definition fresh_routine :: "os \<Rightarrow> 'z rtenv_scheme \<Rightarrow> rid \<Rightarrow> int \<Rightarrow> nat \<Rightarrow> nat option \<Rightarrow> bool" where
  "fresh_routine os e i level func args \<longleftrightarrow> (\<exists>x k s c.
     routines e i = Some x \<and> rt_func x = func \<and> rt_args x = args \<and> rt_id x = New_id e \<and>
     \<not> IsMain x \<and> \<not> IsBegin x \<and> \<not> IsDone x \<and> \<not> IsHangup x \<and> \<not> IsProgress x \<and> IsEnableHook x \<and>
     rt_stack x = Some k \<and> stks e k = Some s \<and> stack_bytes level \<le> unat (StackSize s) \<and>
     rt_context x = Some (bContext_init (os_page os) (RoutineBegin_addr os) (of_nat i) s c))"

lemma stack_pool_pop_any:
  assumes rel: "stack_pool_rel M P ms ds"
  obtains (some) k s P' ms' ds' where "bUnSharedStackPool_pop level P = Ret (Some k, P')"
      "stack_pool_rel M P' ms' ds'" "M k = Some s" "stack_bytes level \<le> unat (StackSize s)"
  | (none) "bUnSharedStackPool_pop level P = Ret (None, P)"
proof -
  obtain r P' ms' ds' where p: "pool_step M (PopStack level) P = Ret (r, P')"
    "stack_pool_rel M P' ms' ds'" "pool_res_ok M (PopStack level) r"
    using pool_step_ok [OF rel, of "PopStack level"] by auto
  then obtain i where i: "bUnSharedStackPool_pop level P = Ret (i, P')" "r = Popped i"
    by (auto simp: pbind_eq_Ret_iff)
  show thesis
  proof (cases i)
    case None
    have "ms = []" if "level = MiniStack"
    proof (cases ms)
      case (Cons m ms1)
      then show ?thesis using stack_pool_pop_Mini [of M P m ms1 ds] rel i(1) None that by auto
    qed
    moreover have "ds = []" if "level = MediumStack"
    proof (cases ds)
      case (Cons d ds1)
      then show ?thesis using stack_pool_pop_Medium [of M P ms d ds1] rel i(1) None that by auto
    qed
    ultimately show ?thesis using none stack_pool_pop_none [OF rel] by blast
  next
    case (Some k)
    then show ?thesis using some i p by (auto split: option.splits)
  qed
qed

lemma take_routine_ok:
  fixes e :: "'z rtenv_scheme"
  assumes ok: "pools_ok e rs ms ds" and i: "i = (case rs of [] \<Rightarrow> routine_brk e | r # _ \<Rightarrow> r)"
  obtains x c brk pool where "take_routine e =
      Ret (i, e\<lparr>routines := (routines e)(i \<mapsto> x), routine_brk := brk, RoutinePool := pool\<rparr>)"
    and "rt_context x = Some c" and "routine_pool_rel pool (drop 1 rs)" and "i < brk" and "routine_brk e \<le> brk"
proof (cases rs)
  case Nil
  then obtain pool where "bRoutinePool_pop (RoutinePool e) = Ret (None, pool)" "routine_pool_rel pool []"
    using ok rpool.pop_Nil [of "RoutinePool e"] by (auto simp: pools_ok_def)
  then show thesis using Nil i
    by (intro that [where x = "bRoutine_zero\<lparr>rt_context := Some bContext_New\<rparr>" and c = bContext_New
        and brk = "routine_brk e + 1" and pool = pool])
      (simp_all add: take_routine_def bRoutine_Alloc_def Let_def)
next
  case (Cons r rs')
  then obtain pool where pool: "bRoutinePool_pop (RoutinePool e) = Ret (Some r, pool)" "routine_pool_rel pool rs'"
    using ok rpool.pop_Cons [of "RoutinePool e" r rs'] by (auto simp: pools_ok_def)
  obtain x c where x: "routines e r = Some x" "rt_context x = Some c" using ok Cons by (auto simp: pools_ok_def)
  then have same: "(routines e)(r \<mapsto> x) = routines e" by auto
  have "r < routine_brk e" using ok x(1) unfolding pools_ok_def by (metis linorder_not_le option.distinct(1))
  then show thesis using Cons i pool x same
    by (intro that [where x = x and c = c and brk = "routine_brk e" and pool = pool])
      (auto simp: take_routine_def Let_def intro!: tmem.equality rtenv.equality)
qed

lemma stack_pool_rel_mono:
  assumes "stack_pool_rel M P ms ds" and "\<And>i s. M i = Some s \<Longrightarrow> M' i = Some s"
  shows "stack_pool_rel M' P ms ds"
  using assms unfolding stack_pool_rel_def by meson

lemma take_stack_ok:
  fixes e :: "'z rtenv_scheme"
  assumes rel: "stack_pool_rel (stks e) (UnSharedStackPool e) ms ds" and fresh: "\<And>i. stk_brk e \<le> i \<Longrightarrow> stks e i = None"
    and os: "can_alloc os" and level: "level \<in> {MiniStack, MediumStack, LargeStack}"
  obtains k s M brk P ms' ds' where
    "take_stack os level e = Ret (k, e\<lparr>stks := M, stk_brk := brk, UnSharedStackPool := P\<rparr>)"
    and "M k = Some s" and "stack_bytes level \<le> unat (StackSize s)" and "stack_pool_rel M P ms' ds'"
    and "\<And>i. brk \<le> i \<Longrightarrow> M i = None" and "\<And>i s. stks e i = Some s \<Longrightarrow> M i = Some s"
proof (cases rule: stack_pool_pop_any [OF rel, where level = level])
  case (1 k s P' ms' ds')
  then show thesis using fresh
    by (intro that [where k = k and M = "stks e" and brk = "stk_brk e" and P = P'])
      (auto simp: take_stack_def Let_def intro!: tmem.equality rtenv.equality)
next
  case 2
  obtain s where s: "bRoutineStack_New (os_mmap os) (os_mprotect os) (os_page os) level = Ret s"
    using os level by (auto simp: can_alloc_def)
  have "StackSize s = of_nat (stack_bytes level)" by (rule allocate_Ret [OF s])
  moreover have "stack_bytes level < 2 ^ 64"
    by (simp add: stack_bytes_def MiniStackSize_def MediumStackSize_def LargeStackSize_def)
  ultimately have sz: "stack_bytes level \<le> unat (StackSize s)" by (simp add: unat_of_nat)
  let ?M = "(stks e)(stk_brk e \<mapsto> s)"
  have ext: "?M i = Some s'" if "stks e i = Some s'" for i s'
    using that fresh [of "stk_brk e"] by auto
  have "stack_pool_rel ?M (UnSharedStackPool e) ms ds" by (rule stack_pool_rel_mono [OF rel ext])
  then show thesis using 2 s sz fresh ext
    by (intro that [where k = "stk_brk e" and M = ?M and brk = "stk_brk e + 1" and P = "UnSharedStackPool e"])
      (auto simp: take_stack_def alloc_stack_def Let_def intro!: tmem.equality rtenv.equality)
qed

lemma bRoutine_New_fresh:
  fixes e :: "'z rtenv_scheme"
  assumes ok: "pools_ok e rs ms ds" and os: "can_alloc os"
    and level: "level \<in> {MiniStack, MediumStack, LargeStack}"
    and i: "i = (case rs of [] \<Rightarrow> routine_brk e | r # _ \<Rightarrow> r)"
    and d: "distinct rs"
  shows "\<exists>e' ms' ds'. bRoutine_New os level func args e = Ret (i, e') \<and>
    fresh_routine os e' i level func args \<and> pools_ok e' (drop 1 rs) ms' ds' \<and>
    New_id e' = New_id e + 1 \<and> (\<forall>j. j \<noteq> i \<longrightarrow> routines e' j = routines e j)"
proof -
  obtain x c brk pool where r: "take_routine e =
      Ret (i, e\<lparr>routines := (routines e)(i \<mapsto> x), routine_brk := brk, RoutinePool := pool\<rparr>)"
    "rt_context x = Some c" "routine_pool_rel pool (drop 1 rs)" "i < brk" "routine_brk e \<le> brk"
    by (rule take_routine_ok [OF ok i])
  let ?x = "x\<lparr>rt_id := New_id e + 1, IsBegin := False, IsDone := False,
       IsEnableHook := True, IsMain := False, IsProgress := False, IsHangup := False\<rparr>"
  let ?e = "e\<lparr>routine_brk := brk, RoutinePool := pool, New_id := New_id e + 1, routines := (routines e)(i \<mapsto> ?x)\<rparr>"
  have u: "upd_routine (Some i) (\<lambda>x. x\<lparr>rt_id := New_id e + 1, IsBegin := False, IsDone := False,
       IsEnableHook := True, IsMain := False, IsProgress := False, IsHangup := False\<rparr>)
     (e\<lparr>routines := (routines e)(i \<mapsto> x), routine_brk := brk, RoutinePool := pool, New_id := New_id e + 1\<rparr>) = Ret ?e"
    by simp
  have p: "stack_pool_rel (stks ?e) (UnSharedStackPool ?e) ms ds" "\<And>i. stk_brk ?e \<le> i \<Longrightarrow> stks ?e i = None"
    using ok by (simp_all add: pools_ok_def)
  obtain k s M sbrk P ms' ds' where t:
    "take_stack os level ?e = Ret (k, ?e\<lparr>stks := M, stk_brk := sbrk, UnSharedStackPool := P\<rparr>)"
    "M k = Some s" "stack_bytes level \<le> unat (StackSize s)" "stack_pool_rel M P ms' ds'"
    "\<And>i. sbrk \<le> i \<Longrightarrow> M i = None" using take_stack_ok [OF p os level] by metis
  let ?y = "?x\<lparr>rt_stack := Some k, rt_context := Some (bContext_init (os_page os) (RoutineBegin_addr os) (of_nat i) s c),
    rt_func := func, rt_args := args\<rparr>"
  let ?e' = "e\<lparr>routine_brk := brk, RoutinePool := pool, New_id := New_id e + 1, stks := M, stk_brk := sbrk,
    UnSharedStackPool := P, routines := (routines e)(i \<mapsto> ?y)\<rparr>"
  have "bRoutine_New os level func args e = Ret (i, ?e')"
    using r(1,2) u t(1,2) by (simp add: bRoutine_New_def stack_at_def Let_def)
  moreover have "fresh_routine os ?e' i level func args"
    using t(2,3) by (auto simp: fresh_routine_def)
  moreover have "pools_ok ?e' (drop 1 rs) ms' ds'"
    unfolding pools_ok_def
  proof (intro conjI ballI allI impI)
    fix q assume "q \<in> set (drop 1 rs)"
    moreover from this have "q \<noteq> i" using i d by (cases rs) auto
    ultimately show "\<exists>x. routines ?e' q = Some x \<and> rt_context x \<noteq> None"
      using ok by (cases rs) (auto simp: pools_ok_def)
  qed (use r t ok in \<open>auto simp: pools_ok_def\<close>)
  ultimately show ?thesis by (intro exI [of _ ?e'] exI [of _ ms'] exI [of _ ds']) simp
qed

text \<open>The end of a routine, while there is room in the stack pool.\<close>

lemma finish_recycles:
  fixes e :: "'z rtenv_scheme"
  assumes ok: "pools_ok e rs ms ds" and run: "running e r p" and rp: "r \<noteq> p"
    and x: "routines e r = Some x" "\<not> IsMain x" "rt_stack x = Some k" "stks e k = Some s"
      "StackSize s = of_nat (stack_bytes level)"
    and room: "length ms + length ds < 1000" "length rs < 2 ^ 64 - 1"
  shows "\<exists>e' ms' ds' y. RoutineBegin_leave r e = Ret e' \<and> pools_ok e' (rs @ [r]) ms' ds' \<and> running e' p r \<and>
    length ms' + length ds' = length ms + length ds + 1 \<and> routines e' r = Some y \<and> IsDone y \<and> rt_stack y = None"
proof -
  obtain sch c d z where sc: "scheds e (cur_sch e) = Some sch" "occupyRoutine sch = Some r" "pendingRoutine sch = Some p"
    "rt_context x = Some c" "routines e p = Some z" "rt_context z = Some d"
    using run x(1) by (auto simp: running_def)
  obtain P where P: "bUnSharedStackPool_push (stks e) k (UnSharedStackPool e) = Ret (int (length ms + length ds) + 1, P)"
    "stack_pool_rel (stks e) P (if level = MediumStack then ms else ms @ [k]) (if level = MediumStack then ds @ [k] else ds)"
    using stack_pool_push [where stks = "stks e" and ms = ms and ds = ds, OF _ room(1) x(4,5) refl refl] ok unfolding pools_ok_def by blast
  obtain R where R: "bRoutinePool_push r (RoutinePool e) = Ret R" "routine_pool_rel R (rs @ [r])"
    using rpool.push_snoc [of "RoutinePool e" rs r] ok room(2) by (auto simp: pools_ok_def)
  have nf: "\<not> RoutineNums (UnSharedStackPool e) \<ge> Max_Keep_Routines_Thread"
    using stack_pool_nums ok room(1) by (fastforce simp: pools_ok_def Max_Keep_Routines_Thread_def)
  let ?y = "x\<lparr>IsBegin := False, rt_args := None, IsDone := True, rt_stack := None,
    rt_context := Some (c\<lparr>ctx_stackPtr := 0, ctx_stackSize := 0\<rparr>)\<rparr>"
  let ?e = "e\<lparr>UnSharedStackPool := P, routines := (routines e)(r \<mapsto> ?y), RoutinePool := R\<rparr>"
  have rec: "pbind (upd_routine (Some r) (\<lambda>x. x\<lparr>IsDone := True, IsBegin := False, rt_args := None\<rparr>) e)
      (bRoutineRecycle (Some r)) = Ret (True, ?e)"
    using x sc(4) P(1) R(1) nf by (simp add: bRoutineRecycle_def Let_def)
  have "\<not> (IsMain ?y \<and> IsProgress ?y)" using x(2) by simp
  then have sw: "SwapContext ?e = Ret (?e\<lparr>scheds := (scheds ?e)(cur_sch ?e \<mapsto>
      sch\<lparr>occupyRoutine := Some p, pendingRoutine := Some r\<rparr>)\<rparr>)" (is "_ = Ret ?e'")
    using sc rp by (intro SwapContext_plain [where x = ?y and y = z and c = "c\<lparr>ctx_stackPtr := 0, ctx_stackSize := 0\<rparr>" and d = d]) auto
  have "RoutineBegin_leave r e = Ret ?e'"
    using rec sw x(1) by (auto simp: RoutineBegin_leave_def)
  moreover have "running ?e' p r" using sc rp by (auto simp: running_def)
  moreover have "pools_ok ?e' (rs @ [r]) (if level = MediumStack then ms else ms @ [k]) (if level = MediumStack then ds @ [k] else ds)"
    using ok P(2) R(2) x(1) unfolding pools_ok_def by auto
  ultimately show ?thesis by (intro exI conjI) auto
qed

text \<open>When the stack pool is full the routine is left to the scheduler, which deletes it.\<close>

lemma finish_deletes:
  fixes e :: "'z rtenv_scheme"
  assumes ok: "pools_ok e rs ms ds" and run: "running e r p" and rp: "r \<noteq> p"
    and x: "routines e r = Some x" "\<not> IsMain x" "rt_stack x = Some k" "stks e k = Some s"
    and full: "1000 \<le> length ms + length ds" and t: "items e t = Some ti"
  shows "\<exists>e' e''. RoutineBegin_leave r e = Ret e' \<and> running e' p r \<and>
    after_task os (Some t) True e' = Ret e'' \<and> routines e'' = (routines e)(r := None) \<and>
    items e'' = (items e)(t := None) \<and> map_option IsPendingNeedDelete (scheds e'' (cur_sch e'')) = Some False"
proof -
  obtain sch c d z where sc: "scheds e (cur_sch e) = Some sch" "occupyRoutine sch = Some r" "pendingRoutine sch = Some p"
    "rt_context x = Some c" "routines e p = Some z" "rt_context z = Some d"
    using run x(1) by (auto simp: running_def)
  have f: "RoutineNums (UnSharedStackPool e) \<ge> Max_Keep_Routines_Thread"
    using stack_pool_nums ok full by (fastforce simp: pools_ok_def Max_Keep_Routines_Thread_def)
  let ?y = "x\<lparr>IsBegin := False, rt_args := None, IsDone := True\<rparr>"
  let ?e = "e\<lparr>routines := (routines e)(r \<mapsto> ?y), scheds := (scheds e)(cur_sch e \<mapsto> sch\<lparr>IsPendingNeedDelete := True\<rparr>)\<rparr>"
  have rec: "pbind (upd_routine (Some r) (\<lambda>x. x\<lparr>IsDone := True, IsBegin := False, rt_args := None\<rparr>) e)
      (bRoutineRecycle (Some r)) = Ret (False, ?e)"
    using x sc f by (simp add: bRoutineRecycle_def Let_def)
  let ?e' = "e\<lparr>routines := (routines e)(r \<mapsto> ?y), scheds := (scheds e)(cur_sch e \<mapsto>
    sch\<lparr>IsPendingNeedDelete := True, occupyRoutine := Some p, pendingRoutine := Some r\<rparr>)\<rparr>"
  have "SwapContext ?e = Ret (?e\<lparr>scheds := (scheds ?e)(cur_sch ?e \<mapsto>
      (sch\<lparr>IsPendingNeedDelete := True\<rparr>)\<lparr>occupyRoutine := Some p, pendingRoutine := Some r\<rparr>)\<rparr>)"
    using sc rp x(2) by (intro SwapContext_plain [where x = ?y and y = z and c = c and d = d]) auto
  then have sw: "SwapContext ?e = Ret ?e'" by simp
  have "RoutineBegin_leave r e = Ret ?e'"
    using rec sw x(1) by (auto simp: RoutineBegin_leave_def)
  moreover have "running ?e' p r" using sc rp by (auto simp: running_def)
  moreover have "\<exists>e''. after_task os (Some t) True ?e' = Ret e'' \<and> routines e'' = (routines e)(r := None) \<and>
      items e'' = (items e)(t := None) \<and> map_option IsPendingNeedDelete (scheds e'' (cur_sch e'')) = Some False"
    using x t by (simp add: after_task_def bRoutine_Del_def stack_at_def TaskItem_Delete_def)
  ultimately show ?thesis by blast
qed

section \<open>Facts about the initialisation\<close>

lemma init_pools: "pools_ok (InitializeBRoutineEnv n) [] [] []"
  by (simp add: pools_ok_def InitializeBRoutineEnv_def routine_pool_New stack_pool_New)

text \<open>
  The run of \<open>bRoutineEnv::init\<close>: create, switch to the scheduler's routine, register, take the
  first task, switch to it.
\<close>

definition init_run :: "os \<Rightarrow> nat \<Rightarrow> nat \<Rightarrow> int \<Rightarrow> rtenv prog" where
  "init_run os f arg n =
     pbind (CreatMutProcessEnv_switch os None f arg (InitializeBRoutineEnv n)) (\<lambda>(mainR, e).
     pbind (RoutineBegin_enter mainR e) (\<lambda>e.
     pbind (ProcessBegin_start e) (\<lambda>e.
     pbind (next_task e) (\<lambda>(task, e).
     pbind (run_task task e) (\<lambda>(_, e).
     Ret e)))))"

lemmas init_defs = CreatMutProcessEnv_switch_def bScheduler_get_def InitializeBRoutineEnv_def bSchedulerCreat_def
  TaskItemsList_New_def bRoutine_Alloc_def bRoutine_New_def take_routine_def take_stack_def
  bRoutinePool_pop_def bRoutinePool_New_def PtrList_empty_def bUnSharedStackPool_New_def
  bUnSharedStackPool_pop_def pop_if_any_def LargeStack_def MiniStack_def MediumStack_def
  alloc_stack_def stack_at_def SwapContext_def TaskItem_New_def

lemmas list_run_defs = pushBack_def pushBack_retry.simps lock_head_def lock_tail_def
  unlock_head_def unlock_tail_def pushBackUnsafe_def popHead_def popHeadUnsafe_def
  RemoveSelfFromOwnerlink_def TaskItem_zero_def

lemma init_run_state:
  assumes s: "bRoutineStack_New (os_mmap os) (os_mprotect os) (os_page os) LargeStack = Ret s" and n: "1 \<le> n"
  shows "\<exists>e sch x. init_run os f arg n = Ret e \<and> scheds e (cur_sch e) = Some sch \<and> occupyRoutine sch = Some 0 \<and>
    pendingRoutine sch = Some 1 \<and> sch_ID sch = 0 \<and> routines e 0 = Some x \<and> IsMain x \<and> \<not> IsProgress x \<and>
    rt_id x = 1 \<and> td_size (TaskDistributor e) = 1"
proof -
  obtain k where k: "nat n = Suc k" using n by (cases "nat n") auto
  show ?thesis
    using s k unfolding init_run_def
    by (simp add: init_defs list_run_defs Let_def RoutineBegin_enter_def bRoutine_zero_def
        ProcessBegin_start_def registe_def TaskDistributor_New_def next_task_def run_task_def)
qed

section \<open>Properties\<close>

text \<open>
  C5: one round of the scheduler, from \<open>ProcessBegin\<close> to a routine and back. The first task of
  the worker's list is taken and its routine runs with the scheduler waiting; when it yields,
  the scheduler runs again, the old task is freed and a new task for the routine is at the end of
  the list whose turn it is.
\<close>

theorem dispatch_yield_round_trip:
  fixes e :: "'z rtenv_scheme"
  assumes "dist_ok e Q ls" and "brk_ok e"
    and "scheds e (cur_sch e) = Some sch" and "occupyRoutine sch = Some s" and "\<not> IsPendingNeedDelete sch"
    and "l = ActivetaskItems sch" and "Q l = Some (t # zs)" and "count_of e l \<noteq> 0"
    and "items e t = Some ti" and "ti_self ti = Some r"
    and "routines e r = Some x" and "rt_context x \<noteq> None" and "\<not> IsProgress x"
    and "routines e s = Some y" and "rt_context y \<noteq> None" and "\<not> (IsMain y \<and> IsProgress y)"
    and "k = unat (AddTask_i e)" and "Qr = Q(l \<mapsto> zs)"
  shows "\<exists>e1 e2 e3 e4 n ni. next_task e = Ret (Some t, e1) \<and> run_task (Some t) e1 = Ret (True, e2) \<and>
    running e2 r s \<and> bRoutine_yield e2 = Ret e3 \<and> running e3 s r \<and>
    after_task os (Some t) True e3 = Ret e4 \<and> items e4 t = None \<and>
    dist_ok e4 (Qr(ls ! k \<mapsto> the (Qr (ls ! k)) @ [n])) ls \<and> n \<noteq> t \<and>
    items e4 n = Some ni \<and> ti_self ni = Some r \<and> unat (AddTask_i e4) = (k + 1) mod length ls"
  by (rule dispatch_yield_round [OF assms])

definition ex_os :: os where
  "ex_os = \<lparr>os_mmap = ex_mmap, os_mprotect = (\<lambda>_ _. True), os_page = 4096, RoutineBegin_addr = 777\<rparr>"

lemma ex_os_alloc: "can_alloc ex_os"
  by (simp add: can_alloc_def ex_os_def bRoutineStack_New_def allocateStackMemory_def ex_mmap_def
      MiniStack_def MediumStack_def LargeStack_def MiniStackSize_def MediumStackSize_def LargeStackSize_def
      Let_def)

definition ex_run_env :: rtenv where
  "ex_run_env = (ex_env_of ex_heap (\<lambda>r. if r < 10 then Some ((ex_routine False)\<lparr>rt_context := Some bContext_New\<rparr>) else None))
     \<lparr>scheds := [0 \<mapsto> (ex_sched 0 0)\<lparr>occupyRoutine := Some 9\<rparr>, 1 \<mapsto> ex_sched 1 1]\<rparr>"

lemma ex_run_fields:
  "items ex_run_env = items ex_heap" "lists ex_run_env = lists ex_heap" "cur_sch ex_run_env = 0"
  "item_brk ex_run_env = 15" "list_brk ex_run_env = 2" "AddTask_i ex_run_env = 0"
  "scheds ex_run_env = [0 \<mapsto> (ex_sched 0 0)\<lparr>occupyRoutine := Some 9\<rparr>, 1 \<mapsto> ex_sched 1 1]"
  "routines ex_run_env = (\<lambda>r. if r < 10 then Some ((ex_routine False)\<lparr>rt_context := Some bContext_New\<rparr>) else None)"
  "TaskDistributor ex_run_env = TaskDistributor ex_env"
  by (simp_all add: ex_run_env_def ex_env_def ex_env_of_def ex_heap_def tmem.defs rtenv.defs)

lemma ex_run_dist: "dist_ok ex_run_env ex_Q [0, 1]"
  by (rule dist_ok_cong [OF _ _ _ _ _ ex_env_dist])
    (auto simp: ex_run_fields ex_env_def ex_sched_def split: if_splits)

lemma ex_run_brk: "brk_ok ex_run_env"
  by (simp add: brk_ok_def ex_run_fields ex_heap_def)

theorem dispatch_yield_round_trip_witness:
  "\<exists>e1 e2 e3 e4 n ni. next_task ex_run_env = Ret (Some 10, e1) \<and> run_task (Some 10) e1 = Ret (True, e2) \<and>
    running e2 1 9 \<and> bRoutine_yield e2 = Ret e3 \<and> running e3 9 1 \<and> after_task ex_os (Some 10) True e3 = Ret e4 \<and>
    items e4 10 = None \<and> dist_ok e4 (ex_Q(0 \<mapsto> [11, 12, n])) [0, 1] \<and> items e4 n = Some ni \<and> ti_self ni = Some 1"
proof -
  have c: "count_of ex_run_env 0 \<noteq> 0" by (simp add: count_of_def ex_run_fields ex_heap_def)
  have q: "ex_Q 0 = Some (10 # [11, 12])" by (simp add: ex_Q_def)
  have i: "items ex_run_env 10 = Some (ex_item None (Some 11) (Some 0) 1)" by (simp add: ex_run_fields ex_heap_def)
  have s: "scheds ex_run_env (cur_sch ex_run_env) = Some ((ex_sched 0 0)\<lparr>occupyRoutine := Some 9\<rparr>)"
    by (simp add: ex_run_fields)
  have l: "0 = ActivetaskItems ((ex_sched 0 0)\<lparr>occupyRoutine := Some 9\<rparr>)" by (simp add: ex_sched_def)
  show ?thesis
    using dispatch_yield_round_trip [OF ex_run_dist ex_run_brk s _ _ l q c i, where s = 9 and r = 1 and k = 0
        and Qr = "ex_Q(0 \<mapsto> [11, 12])" and os = ex_os
        and x = "(ex_routine False)\<lparr>rt_context := Some bContext_New\<rparr>"
        and y = "(ex_routine False)\<lparr>rt_context := Some bContext_New\<rparr>"]
    by (simp add: ex_run_fields ex_sched_def ex_routine_def del: One_nat_def) blast
qed

text \<open>
  C27: a new routine, whether its memory and its stack are fresh or recycled, has a clean state, the
  next id, a stack at least as large as asked for, and a context that starts \<open>RoutineBegin\<close>
  with it at the top of that stack; no other routine changes.
\<close>

theorem new_routine_is_fresh:
  fixes e :: "'z rtenv_scheme"
  assumes "pools_ok e rs ms ds" and "can_alloc os" and "level \<in> {MiniStack, MediumStack, LargeStack}"
    and "i = (case rs of [] \<Rightarrow> routine_brk e | r # _ \<Rightarrow> r)" and "distinct rs"
  shows "\<exists>e' ms' ds'. bRoutine_New os level func args e = Ret (i, e') \<and>
    fresh_routine os e' i level func args \<and> pools_ok e' (drop 1 rs) ms' ds' \<and>
    New_id e' = New_id e + 1 \<and> (\<forall>j. j \<noteq> i \<longrightarrow> routines e' j = routines e j)"
  by (rule bRoutine_New_fresh [OF assms])

theorem new_routine_is_fresh_witness:
  "\<exists>e'. bRoutine_New ex_os 2 5 (Some 6) (InitializeBRoutineEnv 4) = Ret (0, e') \<and>
    fresh_routine ex_os e' 0 2 5 (Some 6)"
proof -
  have "(2 :: int) \<in> {MiniStack, MediumStack, LargeStack}" by (simp add: MediumStack_def)
  from new_routine_is_fresh [OF init_pools ex_os_alloc this, of 0 4 5 "Some 6"] show ?thesis
    by (auto simp: InitializeBRoutineEnv_def)
qed

text \<open>
  C28: the end of a routine. While the stack pool has room, the stack goes to it and the routine to
  the pool of routines, behind those that finished before; when it is full, the scheduler that is
  switched back to deletes the routine, with its task, and clears the flag. Either way the scheduler runs.
\<close>

theorem finished_routine:
  fixes e :: "'z rtenv_scheme"
  assumes "pools_ok e rs ms ds" and "running e r p" and "r \<noteq> p"
    and "routines e r = Some x" and "\<not> IsMain x" and "rt_stack x = Some k" and "stks e k = Some s"
    and "StackSize s = of_nat (stack_bytes level)" and "length rs < 2 ^ 64 - 1" and "items e t = Some ti"
  shows "\<exists>e'. RoutineBegin_leave r e = Ret e' \<and> running e' p r \<and>
    (if length ms + length ds < 1000
     then \<exists>ms' ds'. pools_ok e' (rs @ [r]) ms' ds' \<and> length ms' + length ds' = length ms + length ds + 1
     else \<exists>e''. after_task os (Some t) True e' = Ret e'' \<and> routines e'' = (routines e)(r := None) \<and>
       items e'' = (items e)(t := None) \<and> map_option IsPendingNeedDelete (scheds e'' (cur_sch e'')) = Some False)"
proof (cases "length ms + length ds < 1000")
  case True
  then show ?thesis using finish_recycles [OF assms(1-8) _ assms(9)] by auto
next
  case False
  then have "1000 \<le> length ms + length ds" by simp
  from finish_deletes [OF assms(1-7) this assms(10)] show ?thesis using False by auto
qed

definition ex_end_env :: rtenv where
  "ex_end_env = (InitializeBRoutineEnv 1)\<lparr>
     items := [10 \<mapsto> ex_item None None None 1], item_brk := 11, routine_brk := 10, stk_brk := 4,
     routines := [1 \<mapsto> (ex_routine False)\<lparr>rt_context := Some bContext_New, rt_stack := Some 1\<rparr>,
       9 \<mapsto> (ex_routine False)\<lparr>rt_context := Some bContext_New\<rparr>],
     stks := ex_stacks, scheds := [0 \<mapsto> (ex_sched 0 0)\<lparr>occupyRoutine := Some 1, pendingRoutine := Some 9\<rparr>]\<rparr>"

theorem finished_routine_witness:
  "\<exists>e' ms' ds'. RoutineBegin_leave 1 ex_end_env = Ret e' \<and> running e' 9 1 \<and> pools_ok e' [1] ms' ds'"
proof -
  have p: "pools_ok ex_end_env [] [] []"
    by (auto simp: pools_ok_def ex_end_env_def InitializeBRoutineEnv_def routine_pool_New stack_pool_New ex_stacks_def)
  have run: "running ex_end_env 1 9"
    by (simp add: running_def ex_end_env_def InitializeBRoutineEnv_def)
  have st: "StackSize \<lparr>StackPtr = 65536, StackSize = 131072\<rparr> = of_nat (stack_bytes MiniStack)"
    by (simp add: stack_bytes_def MiniStackSize_def)
  show ?thesis
    using finished_routine [OF p run, of "(ex_routine False)\<lparr>rt_context := Some bContext_New, rt_stack := Some 1\<rparr>" 1
        "\<lparr>StackPtr = 65536, StackSize = 131072\<rparr>" MiniStack 10 "ex_item None None None 1" os] st
    by (auto simp: ex_end_env_def InitializeBRoutineEnv_def ex_stacks_def ex_routine_def)
qed

text \<open>
  C29: initialisation starts no worker thread. However many are asked for, when \<open>init\<close> gets back to the main
  routine only the main thread's scheduler is registered, and the loop that starts threads runs
  up to that number instead of the one asked for.
\<close>

theorem init_starts_no_worker:
  assumes "bRoutineStack_New (os_mmap os) (os_mprotect os) (os_page os) LargeStack = Ret s" and "1 \<le> n"
  shows "\<exists>e sch x. init_run os f arg n = Ret e \<and> scheds e (cur_sch e) = Some sch \<and> occupyRoutine sch = Some 0 \<and>
    routines e 0 = Some x \<and> IsMain x \<and> rt_id x = 1 \<and> td_size (TaskDistributor e) = 1 \<and>
    CreatMutProcessEnv_threads e = []"
proof -
  obtain e sch x where e: "init_run os f arg n = Ret e" "scheds e (cur_sch e) = Some sch" "occupyRoutine sch = Some 0"
    "routines e 0 = Some x" "IsMain x" "rt_id x = 1" "td_size (TaskDistributor e) = 1"
    using init_run_state [OF assms, of f arg] by blast
  then have "CreatMutProcessEnv_threads e = []" by (simp add: CreatMutProcessEnv_threads_def)
  with e show ?thesis by blast
qed

theorem init_starts_no_worker_witness:
  "\<exists>e. init_run ex_os 5 6 8 = Ret e \<and> CreatMutProcessEnv_threads e = []"
proof -
  obtain s where s: "bRoutineStack_New (os_mmap ex_os) (os_mprotect ex_os) (os_page ex_os) LargeStack = Ret s"
    using ex_os_alloc by (auto simp: can_alloc_def)
  from init_starts_no_worker [OF s, of 8 5 6] show ?thesis by auto
qed

end
