(* ===== verification/Epoll_Env.thy ===== *)
theory Epoll_Env
  imports Ep_Timer Routines
begin

text \<open>
  \<open>bEpoll\<close> of \<open>b_epoll.h\<close> and \<open>b_epoll.cc\<close>, and the environment that has one. The file
  descriptor of \<open>epoll_create\<close> and the clock readings are arguments.
\<close>

definition BEpollMaxEventsSize :: int where "BEpollMaxEventsSize = 10 ^ 5"

record bEpoll =
  ep_epollFd :: int
  eventCount :: int
  TimeoutScaner :: bEpTimer
  ep_mtx :: bool
  TimeOutTaskList :: laddr
  ActiveTaskList :: laddr
  eventSize :: int
  lastCheckTime :: u64

definition bEpoll_New :: "int \<Rightarrow> u64 \<Rightarrow> u64 \<Rightarrow> 'z tmem_scheme \<Rightarrow> bEpoll \<times> 'z tmem_scheme" where
  "bEpoll_New fd now1 now2 h =
     (case TaskItemsList_New h of (active, h) \<Rightarrow>
      case TaskItemsList_New h of (timeout, h) \<Rightarrow>
      case bEpTimer_New now1 h of (scaner, h) \<Rightarrow>
      (\<lparr>ep_epollFd = fd, eventCount = 0, TimeoutScaner = scaner, ep_mtx = False,
        TimeOutTaskList = timeout, ActiveTaskList = active, eventSize = BEpollMaxEventsSize,
        lastCheckTime = now2\<rparr>, h))"

record epenv = rtenv +
  Epoll :: bEpoll

end
