(* ===== verification/Mutex_Cond.thy ===== *)
theory Mutex_Cond
  imports Epoll_Env
begin

text \<open>
  \<open>b_mutex_cond.h\<close> and \<open>b_mutex_cond.cc\<close>: the list of waiting routines, the mutex and the
  condition. First each function on the memory of the program, given up to its switches; then
  the mutex as a system of routines that step one atomic operation at a time.
\<close>

section \<open>The list of waiters\<close>

type_synonym waitp = nat

record bMutexCondTask =
  mc_prev :: "waitp option"
  mc_next :: "waitp option"
  mc_routine :: rid

record bMutexCondTaskList =
  mc_head :: "waitp option"
  mc_tail :: "waitp option"
  mc_mutex :: bool
  mc_heap :: "waitp \<Rightarrow> bMutexCondTask option"
  mc_brk :: waitp

text \<open>The list that the constructor of \<open>bMutex\<close> makes, its own mutex initialised.\<close>

definition waiters_New :: bMutexCondTaskList where
  "waiters_New = \<lparr>mc_head = None, mc_tail = None, mc_mutex = False, mc_heap = Map.empty, mc_brk = 0\<rparr>"

text \<open>
  The constructor of \<open>bCond\<close> leaves the mutex of its list as it finds it in the allocated memory,
  which may read as locked: \<open>g\<close>.
\<close>

definition bCond_New :: "bool \<Rightarrow> bMutexCondTaskList" where
  "bCond_New g = waiters_New\<lparr>mc_mutex := g\<rparr>"

definition waiter_at :: "waitp option \<Rightarrow> bMutexCondTaskList \<Rightarrow> bMutexCondTask prog" where
  "waiter_at p L = (case p of None \<Rightarrow> Fail NullDeref
     | Some a \<Rightarrow> (case mc_heap L a of None \<Rightarrow> Fail BadAddress | Some n \<Rightarrow> Ret n))"

definition upd_waiter ::
    "waitp option \<Rightarrow> (bMutexCondTask \<Rightarrow> bMutexCondTask) \<Rightarrow> bMutexCondTaskList \<Rightarrow> bMutexCondTaskList prog" where
  "upd_waiter p f L = (case p of None \<Rightarrow> Fail NullDeref
     | Some a \<Rightarrow> (case mc_heap L a of None \<Rightarrow> Fail BadAddress
        | Some n \<Rightarrow> Ret (L\<lparr>mc_heap := (mc_heap L)(a \<mapsto> f n)\<rparr>)))"

text \<open>
  Both operations try the list's own mutex and yield until it is free. Run without interruption
  they find it free, unless the caller holds it, and then they retry for ever: \<open>None\<close>.
\<close>

definition waiters_add :: "rid \<Rightarrow> bMutexCondTaskList \<Rightarrow> bMutexCondTaskList prog" where
  "waiters_add r L =
     (if mc_mutex L then None
      else
        let i = mc_brk L;
            L = L\<lparr>mc_heap := (mc_heap L)(i \<mapsto> \<lparr>mc_prev = None, mc_next = None, mc_routine = r\<rparr>),
                  mc_brk := i + 1\<rparr>
        in if mc_tail L = None then Ret (L\<lparr>mc_head := Some i, mc_tail := Some i\<rparr>)
           else
             pbind (upd_waiter (mc_tail L) (\<lambda>n. n\<lparr>mc_next := Some i\<rparr>) L) (\<lambda>M.
             pbind (upd_waiter (Some i) (\<lambda>n. n\<lparr>mc_prev := mc_tail M\<rparr>) M) (\<lambda>M.
             Ret (M\<lparr>mc_tail := Some i\<rparr>))))"

definition waiters_pop :: "bMutexCondTaskList \<Rightarrow> (waitp option \<times> bMutexCondTaskList) prog" where
  "waiters_pop L =
     (if mc_mutex L then None
      else if mc_head L = None then Ret (None, L)
      else if mc_head L = mc_tail L then Ret (mc_head L, L\<lparr>mc_head := None, mc_tail := None\<rparr>)
      else
        let result = mc_head L in
        pbind (waiter_at result L) (\<lambda>n.
        let L = L\<lparr>mc_head := mc_next n\<rparr> in
        pbind (upd_waiter (mc_head L) (\<lambda>m. m\<lparr>mc_prev := None\<rparr>) L) (\<lambda>L.
        pbind (upd_waiter result (\<lambda>n. n\<lparr>mc_next := None\<rparr>) L) (\<lambda>L.
        Ret (result, L)))))"

text \<open>What every caller does with a popped node: read its routine and delete it.\<close>

definition take_waiter :: "bMutexCondTaskList \<Rightarrow> (rid option \<times> bMutexCondTaskList) prog" where
  "take_waiter L =
     pbind (waiters_pop L) (\<lambda>(t, L).
     if t = None then Ret (None, L)
     else
       pbind (waiter_at t L) (\<lambda>n.
       Ret (Some (mc_routine n), L\<lparr>mc_heap := (mc_heap L)(the t := None)\<rparr>)))"

subsection \<open>A queue of routines\<close>

definition wnxt :: "bMutexCondTaskList \<Rightarrow> waitp \<Rightarrow> waitp option" where
  "wnxt L a = Option.bind (mc_heap L a) mc_next"

definition wprv :: "bMutexCondTaskList \<Rightarrow> waitp \<Rightarrow> waitp option" where
  "wprv L a = Option.bind (mc_heap L a) mc_prev"

definition wnodes_ok :: "bMutexCondTaskList \<Rightarrow> waitp list \<Rightarrow> rid list \<Rightarrow> bool" where
  "wnodes_ok L ps rs \<longleftrightarrow> \<not> mc_mutex L \<and> dseg (wnxt L) (wprv L) (mc_head L) None ps (mc_tail L) None \<and>
     distinct ps \<and> map (\<lambda>p. map_option mc_routine (mc_heap L p)) ps = map Some rs \<and>
     dom (mc_heap L) = set ps \<and> (\<forall>p \<in> set ps. p < mc_brk L)"

definition waiters_rel :: "bMutexCondTaskList \<Rightarrow> rid list \<Rightarrow> bool" where
  "waiters_rel L rs \<longleftrightarrow> (\<exists>ps. wnodes_ok L ps rs)"

lemma waiters_rel_New: "waiters_rel waiters_New []"
  unfolding waiters_rel_def wnodes_ok_def by (rule exI [of _ "[]"]) (simp add: waiters_New_def)

text \<open>
  A new condition is an empty queue if its memory reads as a free mutex; otherwise its first
  \<open>add\<close> or \<open>pop\<close> never returns.
\<close>

lemma bCond_New_queue:
  "waiters_rel (bCond_New g) [] \<longleftrightarrow> \<not> g"
  "waiters_add r (bCond_New True) = None" "waiters_pop (bCond_New True) = None"
  using waiters_rel_New
  by (cases g) (simp_all add: bCond_New_def waiters_New_def waiters_rel_def wnodes_ok_def waiters_add_def waiters_pop_def)

lemma take_waiter_Nil: "waiters_rel L [] \<Longrightarrow> take_waiter L = Ret (None, L)"
  by (auto simp: waiters_rel_def wnodes_ok_def take_waiter_def waiters_pop_def)

lemma take_waiter_Cons:
  assumes "waiters_rel L (r # rs)"
  shows "\<exists>L'. take_waiter L = Ret (Some r, L') \<and> waiters_rel L' rs"
proof -
  obtain qs where qs: "wnodes_ok L qs (r # rs)" using assms by (auto simp: waiters_rel_def)
  then obtain p ps where "qs = p # ps" by (cases qs) (auto simp: wnodes_ok_def)
  with qs obtain n where d: "dseg (wnxt L) (wprv L) (mc_head L) None (p # ps) (mc_tail L) None"
    "distinct (p # ps)" "map (\<lambda>p. map_option mc_routine (mc_heap L p)) ps = map Some rs"
    "dom (mc_heap L) = set (p # ps)" "\<forall>q \<in> set (p # ps). q < mc_brk L"
    and n: "mc_heap L p = Some n" "mc_routine n = r" "\<not> mc_mutex L"
    by (auto simp: wnodes_ok_def)
  have hd: "mc_head L = Some p" using d(1) by simp
  show ?thesis
  proof (cases ps)
    case Nil
    then have tl: "mc_tail L = Some p" and rs: "rs = []" using d by auto
    let ?L = "L\<lparr>mc_head := None, mc_tail := None, mc_heap := (mc_heap L)(p := None)\<rparr>"
    have "take_waiter L = Ret (Some r, ?L)"
      using hd tl n by (auto simp: take_waiter_def waiters_pop_def waiter_at_def)
    moreover have "wnodes_ok ?L [] rs" using d n Nil rs by (auto simp: wnodes_ok_def)
    ultimately show ?thesis by (auto simp: waiters_rel_def)
  next
    case (Cons q qs')
    then obtain m where m: "mc_heap L q = Some m" "mc_next n = Some q"
      using d(1,4) n by (auto simp: wnxt_def)
    have tl: "mc_tail L \<noteq> Some p" using dseg_last [OF d(1)] d(2) Cons by auto
    have qp: "q \<noteq> p" using d(2) Cons by auto
    let ?L = "L\<lparr>mc_head := Some q, mc_heap := (mc_heap L)(q \<mapsto> m\<lparr>mc_prev := None\<rparr>, p := None)\<rparr>"
    have "take_waiter L = Ret (Some r, ?L)"
      using hd tl n m qp by (auto simp: take_waiter_def waiters_pop_def waiter_at_def upd_waiter_def Let_def)
    moreover have "wnodes_ok ?L ps rs"
      unfolding wnodes_ok_def
    proof (intro conjI)
      have lnk: "wnxt ?L = (wnxt L)(p := None)" "wprv ?L = (wprv L)(q := None, p := None)"
        using m by (auto simp: wnxt_def wprv_def)
      have "dseg (wnxt L) (wprv L) (Some q) (Some p) ps (mc_tail L) None"
        using d(1) n m by (auto simp: wnxt_def)
      then have "dseg (wnxt L) ((wprv L)(q := None)) (Some q) None ps (mc_tail L) None"
        unfolding Cons by (rule dseg_redirect_first) (use d(2) Cons in simp)
      then show "dseg (wnxt ?L) (wprv ?L) (mc_head ?L) None ps (mc_tail ?L) None"
        using d(2) by (simp add: lnk)
      have "map (\<lambda>p. map_option mc_routine (mc_heap ?L p)) ps = map (\<lambda>p. map_option mc_routine (mc_heap L p)) ps"
        using d(2) m by (intro map_cong) auto
      then show "map (\<lambda>p. map_option mc_routine (mc_heap ?L p)) ps = map Some rs" using d(3) by metis
      show "dom (mc_heap ?L) = set ps" using d(2,4) Cons by auto
    qed (use d n in auto)
    ultimately show ?thesis by (auto simp: waiters_rel_def)
  qed
qed

lemma waiters_add_snoc:
  assumes "waiters_rel L rs"
  shows "\<exists>L'. waiters_add r L = Ret L' \<and> waiters_rel L' (rs @ [r])"
proof -
  obtain ps where "wnodes_ok L ps rs" using assms by (auto simp: waiters_rel_def)
  then have d: "dseg (wnxt L) (wprv L) (mc_head L) None ps (mc_tail L) None" "distinct ps"
    "map (\<lambda>p. map_option mc_routine (mc_heap L p)) ps = map Some rs" "dom (mc_heap L) = set ps"
    "\<forall>q \<in> set ps. q < mc_brk L" "\<not> mc_mutex L"
    by (auto simp: wnodes_ok_def)
  let ?i = "mc_brk L"
  have fresh: "?i \<notin> set ps" using d(5) by auto
  show ?thesis
  proof (cases ps rule: rev_cases)
    case Nil
    then have rs: "rs = []" and tl: "mc_tail L = None" using d by auto
    let ?L = "L\<lparr>mc_heap := (mc_heap L)(?i \<mapsto> \<lparr>mc_prev = None, mc_next = None, mc_routine = r\<rparr>),
      mc_brk := Suc ?i, mc_head := Some ?i, mc_tail := Some ?i\<rparr>"
    have "waiters_add r L = Ret ?L" using tl d(6) by (auto simp: waiters_add_def Let_def)
    moreover have "wnodes_ok ?L [?i] [r]"
      using d Nil by (auto simp: wnodes_ok_def wnxt_def wprv_def)
    ultimately show ?thesis using rs by (auto simp: waiters_rel_def)
  next
    case (snoc qs p)
    have tl: "mc_tail L = Some p" using d(1) snoc by (simp add: dseg_snoc)
    obtain m where m: "mc_heap L p = Some m" using d(4) snoc by auto
    have pi: "p \<noteq> ?i" using fresh snoc by auto
    let ?L = "L\<lparr>mc_heap := (mc_heap L)(p \<mapsto> m\<lparr>mc_next := Some ?i\<rparr>,
        ?i \<mapsto> \<lparr>mc_prev = Some p, mc_next = None, mc_routine = r\<rparr>), mc_brk := Suc ?i, mc_tail := Some ?i\<rparr>"
    have "waiters_add r L = Ret ?L"
      using tl m pi d(6) by (auto simp: waiters_add_def upd_waiter_def Let_def fun_upd_twist
          intro!: bMutexCondTaskList.equality)
    moreover have "wnodes_ok ?L (ps @ [?i]) (rs @ [r])"
      unfolding wnodes_ok_def
    proof (intro conjI)
      have lnk: "wnxt ?L = (wnxt L)(p := Some ?i, ?i := None)" "wprv ?L = (wprv L)(?i := Some p)"
        using m by (auto simp: wnxt_def wprv_def)
      have "dseg ((wnxt L)(p := Some ?i)) (wprv L) (mc_head L) None ps (mc_tail L) (Some ?i)"
        using d(1,2) unfolding snoc by (rule dseg_redirect_last)
      then show "dseg (wnxt ?L) (wprv ?L) (mc_head ?L) None (ps @ [?i]) (mc_tail ?L) None"
        using fresh tl by (simp add: lnk dseg_snoc)
      have "map (\<lambda>p. map_option mc_routine (mc_heap ?L p)) ps = map (\<lambda>p. map_option mc_routine (mc_heap L p)) ps"
        using fresh m by (intro map_cong) auto
      then show "map (\<lambda>p. map_option mc_routine (mc_heap ?L p)) (ps @ [?i]) = map Some (rs @ [r])"
        using d(3) unfolding map_append by simp
      show "dom (mc_heap ?L) = set (ps @ [?i])" using d(4) snoc by auto
    qed (use d fresh in auto)
    ultimately show ?thesis by (auto simp: waiters_rel_def)
  qed
qed

interpretation waiters: fifo waiters_rel take_waiter "\<lambda>_ _. True" waiters_add n for n :: nat
proof
  show "waiters_rel L [] \<Longrightarrow> \<exists>L'. take_waiter L = Ret (None, L') \<and> waiters_rel L' []" for L
    by (simp add: take_waiter_Nil)
  show "waiters_rel L (r # rs) \<Longrightarrow> \<exists>L'. take_waiter L = Ret (Some r, L') \<and> waiters_rel L' rs" for L r rs
    by (rule take_waiter_Cons)
  show "waiters_rel L rs \<Longrightarrow> True \<Longrightarrow> length rs < n \<Longrightarrow> \<exists>L'. waiters_add r L = Ret L' \<and> waiters_rel L' (rs @ [r])"
    for L r rs by (rule waiters_add_snoc)
qed simp

section \<open>Mutexes and conditions in the program's memory\<close>

type_synonym mid = nat
type_synonym cid = nat

record bMutex =
  lockCount :: int
  m_list :: bMutexCondTaskList

text \<open>\<open>IsTimeout\<close> is the local variable of \<open>timeWait\<close>, one for each routine that is in it.\<close>

record syncenv = epenv +
  bMutexes :: "mid \<Rightarrow> bMutex option"
  bConds :: "cid \<Rightarrow> bMutexCondTaskList option"
  IsTimeout :: "rid \<Rightarrow> int"

definition bMutex_New :: bMutex where
  "bMutex_New = \<lparr>lockCount = 0, m_list = waiters_New\<rparr>"

definition mutex_at :: "mid \<Rightarrow> 'z syncenv_scheme \<Rightarrow> bMutex prog" where
  "mutex_at m e = (case bMutexes e m of None \<Rightarrow> Fail BadAddress | Some x \<Rightarrow> Ret x)"

definition cond_at :: "cid \<Rightarrow> 'z syncenv_scheme \<Rightarrow> bMutexCondTaskList prog" where
  "cond_at c e = (case bConds e c of None \<Rightarrow> Fail BadAddress | Some x \<Rightarrow> Ret x)"

text \<open>
  \<open>compare_exchange_strong\<close>: success, the new value of \<open>expected\<close>, the new value of the
  atomic. On failure \<open>expected\<close> becomes the value that was found.
\<close>

definition compare_exchange_strong :: "int \<Rightarrow> int \<Rightarrow> int \<Rightarrow> bool \<times> int \<times> int" where
  "compare_exchange_strong expected desired v =
     (if v = expected then (True, expected, desired) else (False, v, v))"

definition getSelf :: "'z syncenv_scheme \<Rightarrow> rid prog" where
  "getSelf e = pbind (sched_at (Some (cur_sch e)) e) (\<lambda>sch. deref (occupyRoutine sch))"

text \<open>
  One round of \<open>bMutex::lock\<close>, from \<open>retry\<close> to success or to the switch away, with the
  local \<open>i\<close>. \<open>lock\<close> is rounds until one succeeds; the first has \<open>i = 0\<close>.
\<close>

definition bMutex_lock_round ::
    "mid \<Rightarrow> int \<Rightarrow> 'z syncenv_scheme \<Rightarrow> (bool \<times> int \<times> 'z syncenv_scheme) prog" where
  "bMutex_lock_round m i e =
     pbind (mutex_at m e) (\<lambda>x.
     case compare_exchange_strong i 1 (lockCount x) of (isSuccessLock, i, v) \<Rightarrow>
     let e = e\<lparr>bMutexes := (bMutexes e)(m \<mapsto> x\<lparr>lockCount := v\<rparr>)\<rparr> in
     if isSuccessLock then Ret (True, i, e)
     else
       pbind (getSelf e) (\<lambda>r.
       pbind (waiters_add r (m_list x)) (\<lambda>L.
       pbind (SwapContext (e\<lparr>bMutexes := (bMutexes e)(m \<mapsto> x\<lparr>lockCount := v, m_list := L\<rparr>)\<rparr>)) (\<lambda>e.
       Ret (False, i, e)))))"

definition bMutex_unlock :: "mid \<Rightarrow> 'z syncenv_scheme \<Rightarrow> 'z syncenv_scheme prog" where
  "bMutex_unlock m e =
     pbind (mutex_at m e) (\<lambda>x.
     case compare_exchange_strong 1 0 (lockCount x) of (isSuccessUnLock, _, v) \<Rightarrow>
     if \<not> isSuccessUnLock then Fail Abort
     else
       pbind (take_waiter (m_list x)) (\<lambda>(mt, L).
       let e = e\<lparr>bMutexes := (bMutexes e)(m \<mapsto> x\<lparr>lockCount := v, m_list := L\<rparr>)\<rparr> in
       case mt of None \<Rightarrow> Ret e
       | Some r \<Rightarrow> pbind (task_for (Some r) e) (\<lambda>(t, e). AddTask (Some t) e)))"

text \<open>\<open>bCond::wait\<close> up to its switch; afterwards it locks the mutex again.\<close>

definition bCond_wait :: "cid \<Rightarrow> mid \<Rightarrow> 'z syncenv_scheme \<Rightarrow> 'z syncenv_scheme prog" where
  "bCond_wait c m e =
     pbind (bMutex_unlock m e) (\<lambda>e.
     pbind (cond_at c e) (\<lambda>L.
     pbind (getSelf e) (\<lambda>r.
     pbind (waiters_add r L) (\<lambda>L.
     SwapContext (e\<lparr>bConds := (bConds e)(c \<mapsto> L)\<rparr>)))))"

definition CondTimeOutCallback :: "rid \<Rightarrow> 'z syncenv_scheme \<Rightarrow> 'z syncenv_scheme" where
  "CondTimeOutCallback args e = e\<lparr>IsTimeout := (IsTimeout e)(args := 1)\<rparr>"

text \<open>
  \<open>bCond::timeWait\<close> up to its switch, with the task it made, and what it does when it is
  switched back to: the result, or the task left to lock the mutex for.
\<close>

definition bCond_timeWait :: "cid \<Rightarrow> mid \<Rightarrow> int \<Rightarrow> 'z syncenv_scheme \<Rightarrow> (addr \<times> 'z syncenv_scheme) prog" where
  "bCond_timeWait c m timeout_ms e =
     pbind (bMutex_unlock m e) (\<lambda>e.
     pbind (cond_at c e) (\<lambda>L.
     pbind (getSelf e) (\<lambda>r.
     pbind (waiters_add r L) (\<lambda>L.
     let e = e\<lparr>bConds := (bConds e)(c \<mapsto> L)\<rparr> in
     case TaskItem_New e of (t, e) \<Rightarrow>
     let e = e\<lparr>IsTimeout := (IsTimeout e)(r := 0)\<rparr> in
     pbind (upd_item (Some t) (\<lambda>x. x\<lparr>timeoutCallFunc := Some CondTimeOutCallback_ptr,
       timeoutCallFuncArgs := Some r, ti_self := Some r\<rparr>) e) (\<lambda>e.
     pbind (getBucket (of_int timeout_ms) (TimeoutScaner (Epoll e))) (\<lambda>b.
     pbind (pushBack b (Some t) e) (\<lambda>e.
     pbind (SwapContext e) (\<lambda>e.
     Ret (t, e)))))))))"

datatype time_wait_end = Relock | Return int

definition bCond_timeWait_back ::
    "addr \<Rightarrow> 'z syncenv_scheme \<Rightarrow> (time_wait_end \<times> 'z syncenv_scheme) prog" where
  "bCond_timeWait_back t e =
     pbind (getSelf e) (\<lambda>r.
     if IsTimeout e r = 0 then
       pbind (RemoveSelfFromOwnerlink_Save (Some t) e) (\<lambda>(_, e). Ret (Relock, e))
     else Ret (Return 0, e))"

text \<open>Waking: every waiter, or one.\<close>

definition wake :: "rid \<Rightarrow> 'z syncenv_scheme \<Rightarrow> 'z syncenv_scheme prog" where
  "wake r e = pbind (task_for (Some r) e) (\<lambda>(t, e). AddTask (Some t) e)"

definition take_cond :: "cid \<Rightarrow> 'z syncenv_scheme \<Rightarrow> (rid option \<times> 'z syncenv_scheme) prog" where
  "take_cond c e =
     pbind (cond_at c e) (\<lambda>L.
     pbind (take_waiter L) (\<lambda>(r, L).
     Ret (r, e\<lparr>bConds := (bConds e)(c \<mapsto> L)\<rparr>)))"

definition bCond_signalAll :: "cid \<Rightarrow> 'z syncenv_scheme \<Rightarrow> 'z syncenv_scheme prog" where
  "bCond_signalAll c e = drain (take_cond c) wake e"

text \<open>\<open>signalOnce\<close> follows the popped pointer without looking whether there was a waiter.\<close>

definition bCond_signalOnce :: "cid \<Rightarrow> 'z syncenv_scheme \<Rightarrow> 'z syncenv_scheme prog" where
  "bCond_signalOnce c e =
     pbind (take_cond c e) (\<lambda>(r, e). pbind (deref r) (\<lambda>r. wake r e))"

section \<open>Facts about committing a task for a routine\<close>

lemma epenv_more_eq:
  assumes "rtenv.more e' = rtenv.more e"
  shows "Epoll e' = Epoll e" and "epenv.more e' = epenv.more e"
  using assms by (cases e; cases e'; simp)+

lemma syncenv_more_eq:
  assumes "rtenv.more e' = rtenv.more e"
  shows "bMutexes e' = bMutexes e" and "bConds e' = bConds e" and "IsTimeout e' = IsTimeout e"
  using assms by (cases e; cases e'; simp)+

lemma wake_step:
  fixes e :: "'z syncenv_scheme"
  assumes ok: "dist_ok e Q ls" and brk: "brk_ok e" and r: "routines e r = Some x" "\<not> IsProgress x"
    and k: "k = unat (AddTask_i e)"
  shows "\<exists>e' t'. wake r e = Ret e' \<and> items e (item_brk e) = None \<and>
    dist_ok e' (Q(ls ! k \<mapsto> the (Q (ls ! k)) @ [item_brk e])) ls \<and> brk_ok e' \<and>
    unat (AddTask_i e') = (k + 1) mod length ls \<and> items e' (item_brk e) = Some t' \<and> ti_self t' = Some r \<and>
    (\<forall>a. a \<noteq> item_brk e \<longrightarrow> map_option strip (items e' a) = map_option strip (items e a)) \<and>
    routines e' = routines e \<and> cur_sch e' = cur_sch e \<and> rtenv.more e' = rtenv.more e"
proof -
  let ?t = "item_brk e"
  obtain e1 where e1: "task_for (Some r) e = Ret (?t, e1)" "tasks_ok e1 Q" "brk_ok e1" "items e ?t = None"
    "items e1 = (items e)(?t \<mapsto> TaskItem_zero\<lparr>ti_self := Some r\<rparr>)" "lists e1 = lists e"
    "tmem.more e1 = tmem.more e" "loose ?t e1"
    using ok by (auto simp: dist_ok_def intro: task_for_tasks [OF _ brk])
  note m = rtenv_more_eq [OF e1(7)]
  have ok1: "dist_ok e1 Q ls"
    using ok e1(2) workers_ok_more [OF e1(7)] by (simp add: dist_ok_def m)
  have rd: "task_ready e1 ?t" using e1(5,8) r by (simp add: task_ready_def m TaskItem_zero_def)
  have "k < length ls" using ok k by (simp add: dist_ok_def)
  then have "Q (ls ! k) \<noteq> None" using ok by (simp add: dist_ok_def)
  then have Qk: "Q (ls ! k) = Some (the (Q (ls ! k)))" by simp
  have k1: "k = unat (AddTask_i e1)" using k m by simp
  obtain e2 where e2: "AddTask (Some ?t) e1 = Ret e2"
    "dist_ok e2 (Q(ls ! k \<mapsto> the (Q (ls ! k)) @ [?t])) ls"
    "unat (AddTask_i e2) = (k + 1) mod length ls" "env_frame e1 e2"
    using AddTask_step [OF ok1 rd k1 Qk] by blast
  obtain t' where t': "items e2 ?t = Some t'" "strip t' = strip (TaskItem_zero\<lparr>ti_self := Some r\<rparr>)"
    using env_frame_item [OF e2(4), of ?t] e1(5) by auto
  have "\<forall>a. a \<noteq> ?t \<longrightarrow> map_option strip (items e2 a) = map_option strip (items e a)"
    using e2(4) e1(5) by (simp add: env_frame_def)
  moreover have "ti_self t' = Some r" using strip_payload(1) [OF t'(2)] by simp
  ultimately show ?thesis
    using e1(1,4) e2 t'(1) m env_frame_brk [OF e2(4) e1(3)]
    by (intro exI [of _ e2] exI [of _ t']) (simp add: wake_def env_frame_def)
qed

definition cond_rel :: "cid \<Rightarrow> 'z syncenv_scheme \<Rightarrow> rid list \<Rightarrow> bool" where
  "cond_rel c e rs \<longleftrightarrow> (\<exists>L. bConds e c = Some L \<and> waiters_rel L rs)"

interpretation cond_src: fifo_source "cond_rel c" "take_cond c" for c
proof
  fix e :: "'z syncenv_scheme" and r rs
  show "cond_rel c e [] \<Longrightarrow> \<exists>e'. take_cond c e = Ret (None, e') \<and> cond_rel c e' []"
    by (auto simp: cond_rel_def take_cond_def cond_at_def take_waiter_Nil)
  assume "cond_rel c e (r # rs)"
  then obtain L where L: "bConds e c = Some L" "waiters_rel L (r # rs)" by (auto simp: cond_rel_def)
  from take_waiter_Cons [OF L(2)] obtain L' where "take_waiter L = Ret (Some r, L')" "waiters_rel L' rs" by blast
  then show "\<exists>e'. take_cond c e = Ret (Some r, e') \<and> cond_rel c e' rs"
    using L(1) by (auto simp: cond_rel_def take_cond_def cond_at_def)
qed

text \<open>Taking a waiter leaves the runtime alone.\<close>

lemma take_cond_frame:
  assumes "take_cond c e = Ret (r, e')"
  obtains L where "e' = e\<lparr>bConds := (bConds e)(c \<mapsto> L)\<rparr>"
  using assms by (auto simp: take_cond_def pbind_eq_Ret_iff)

text \<open>Tasks \<open>ts\<close> made for the routines \<open>rs\<close>, one each, and handed out in turn from \<open>k\<close>.\<close>

definition handed_out :: "(laddr \<Rightarrow> addr list option) \<Rightarrow> laddr list \<Rightarrow> nat \<Rightarrow> 'z rtenv_scheme \<Rightarrow> rid list \<Rightarrow> bool" where
  "handed_out Q ls k e rs \<longleftrightarrow> (\<exists>Q' ts. dist_ok e Q' ls \<and> brk_ok e \<and>
     (\<forall>j < length ls. the (Q' (ls ! j)) = the (Q (ls ! j)) @ share (length ls) k j ts) \<and>
     unat (AddTask_i e) = (k + length rs) mod length ls \<and>
     list_all2 (\<lambda>t r. \<exists>x. items e t = Some x \<and> ti_self x = Some r) ts rs)"

lemma handed_out_Nil: "dist_ok e Q ls \<Longrightarrow> brk_ok e \<Longrightarrow> k = unat (AddTask_i e) \<Longrightarrow> handed_out Q ls k e []"
  unfolding handed_out_def by (intro exI [of _ Q] exI [of _ "[]"]) (auto simp: dist_ok_def)

lemma handed_out_wake:
  fixes e :: "'z syncenv_scheme"
  assumes h: "handed_out Q ls k e rs" and k: "k < length ls" and r: "routines e r = Some x" "\<not> IsProgress x"
  shows "\<exists>e'. wake r e = Ret e' \<and> handed_out Q ls k e' (rs @ [r]) \<and> routines e' = routines e \<and>
    rtenv.more e' = rtenv.more e"
proof -
  obtain Q' ts where q: "dist_ok e Q' ls" "brk_ok e"
    "\<And>j. j < length ls \<Longrightarrow> the (Q' (ls ! j)) = the (Q (ls ! j)) @ share (length ls) k j ts"
    "unat (AddTask_i e) = (k + length rs) mod length ls"
    "list_all2 (\<lambda>t r. \<exists>x. items e t = Some x \<and> ti_self x = Some r) ts rs"
    using h by (auto simp: handed_out_def)
  let ?k = "(k + length rs) mod length ls" and ?t = "item_brk e"
  have kl: "?k < length ls" using k by (intro mod_less_divisor) linarith
  have len: "length ts = length rs" by (rule list_all2_lengthD [OF q(5)])
  obtain e' t' where e': "wake r e = Ret e'" "items e ?t = None"
    "dist_ok e' (Q'(ls ! ?k \<mapsto> the (Q' (ls ! ?k)) @ [?t])) ls" "brk_ok e'"
    "unat (AddTask_i e') = (?k + 1) mod length ls" "items e' ?t = Some t'" "ti_self t' = Some r"
    "\<And>a. a \<noteq> ?t \<Longrightarrow> map_option strip (items e' a) = map_option strip (items e a)"
    "routines e' = routines e" "rtenv.more e' = rtenv.more e"
    using wake_step [OF q(1,2) r q(4) [symmetric]] by blast
  have d: "\<And>i j. i < length ls \<Longrightarrow> j < length ls \<Longrightarrow> ls ! i = ls ! j \<longleftrightarrow> i = j"
    using q(1) by (auto simp: dist_ok_def workers_ok_def nth_eq_iff_index_eq)
  have "list_all2 (\<lambda>t r. \<exists>x. items e' t = Some x \<and> ti_self x = Some r) ts rs"
  proof (rule list_all2_mono [OF q(5)])
    fix t r assume "\<exists>x. items e t = Some x \<and> ti_self x = Some r"
    then obtain y where y: "items e t = Some y" "ti_self y = Some r" by blast
    then have "t \<noteq> ?t" using e'(2) by auto
    then have "map_option strip (items e' t) = Some (strip y)" using e'(8) y(1) by simp
    then obtain z where "items e' t = Some z" "strip z = strip y" by blast
    then show "\<exists>x. items e' t = Some x \<and> ti_self x = Some r" using strip_payload(1) y(2) by metis
  qed
  then have "list_all2 (\<lambda>t r. \<exists>x. items e' t = Some x \<and> ti_self x = Some r) (ts @ [?t]) (rs @ [r])"
    using e'(6,7) by (simp add: list_all2_append len)
  moreover have "the ((Q'(ls ! ?k \<mapsto> the (Q' (ls ! ?k)) @ [?t])) (ls ! j)) =
      the (Q (ls ! j)) @ share (length ls) k j (ts @ [?t])" if j: "j < length ls" for j
  proof (cases "?k = j")
    case True
    then show ?thesis using q(3) [OF j] by (simp add: share_append [OF k] len)
  next
    case False
    then have "ls ! j \<noteq> ls ! ?k" using d [OF j kl] by simp
    then show ?thesis using q(3) [OF j] False by (simp add: share_append [OF k] len)
  qed
  moreover have "unat (AddTask_i e') = (k + length (rs @ [r])) mod length ls"
    using e'(5) by (simp add: mod_Suc_eq)
  ultimately show ?thesis using e'(1,3,4,9,10) unfolding handed_out_def by blast
qed

lemma signalAll_wakes:
  fixes e :: "'z syncenv_scheme"
  assumes ok: "dist_ok e Q ls" and brk: "brk_ok e" and k: "k = unat (AddTask_i e)"
    and c: "cond_rel c e rs" and r: "\<And>r. r \<in> set rs \<Longrightarrow> \<exists>x. routines e r = Some x \<and> \<not> IsProgress x"
  shows "\<exists>e'. bCond_signalAll c e = Ret e' \<and> cond_rel c e' [] \<and> handed_out Q ls k e' rs"
proof -
  define J where "J ys (s :: 'z syncenv_scheme) \<longleftrightarrow> handed_out Q ls k s ys \<and> routines s = routines e" for ys s
  have kl: "k < length ls" using ok k by (simp add: dist_ok_def)
  have keep: "J ys (s\<lparr>bConds := B\<rparr>)" if "J ys s" for ys s B
  proof -
    have "dist_ok (s\<lparr>bConds := B\<rparr>) Q' ls = dist_ok s Q' ls" for Q' by (rule dist_ok_above) simp_all
    moreover have "brk_ok (s\<lparr>bConds := B\<rparr>) = brk_ok s" by (simp add: brk_ok_def)
    ultimately show ?thesis using that by (simp add: J_def handed_out_def)
  qed
  have "\<exists>e'. drain (take_cond c) wake e = Ret e' \<and> cond_rel c e' [] \<and> J rs e'"
  proof (rule cond_src.drain_rule [where ys = "[]"])
    show "cond_rel c e rs" by (rule c)
    show "J [] e" using handed_out_Nil [OF ok brk k] by (simp add: J_def)
    show "rs = [] @ rs" by simp
  next
    fix ys x zs and s s1 :: "'z syncenv_scheme"
    assume rs: "rs = ys @ x # zs" and rel: "cond_rel c s (x # zs)" and J: "J ys s"
      and pop: "take_cond c s = Ret (Some x, s1)"
    obtain L where s1: "s1 = s\<lparr>bConds := (bConds s)(c \<mapsto> L)\<rparr>" by (rule take_cond_frame [OF pop])
    have rel1: "cond_rel c s1 zs" using cond_src.pop_Cons [OF rel] pop by auto
    have J1: "J ys s1" unfolding s1 by (rule keep [OF J])
    obtain y where "routines s1 x = Some y" "\<not> IsProgress y" using r [of x] rs J1 by (auto simp: J_def)
    from handed_out_wake [OF _ kl this] J1 obtain s' where
      s': "wake x s1 = Ret s'" "handed_out Q ls k s' (ys @ [x])" "routines s' = routines s1"
        "rtenv.more s' = rtenv.more s1" unfolding J_def by blast
    have "cond_rel c s' zs" using rel1 syncenv_more_eq(2) [OF s'(4)] by (simp add: cond_rel_def)
    then show "\<exists>s'. wake x s1 = Ret s' \<and> cond_rel c s' zs \<and> J (ys @ [x]) s'"
      using s' J1 by (auto simp: J_def)
  next
    fix s s1 :: "'z syncenv_scheme"
    assume J: "J rs s" and pop: "take_cond c s = Ret (None, s1)"
    obtain L where s1: "s1 = s\<lparr>bConds := (bConds s)(c \<mapsto> L)\<rparr>" by (rule take_cond_frame [OF pop])
    show "J rs s1" unfolding s1 by (rule keep [OF J])
  qed
  then show ?thesis by (auto simp: bCond_signalAll_def J_def)
qed

section \<open>The mutex as a system of routines\<close>

text \<open>
  The control point of a routine with respect to one mutex. \<open>AtCas i\<close> is at the exchange of
  \<open>lock\<close> with the local \<open>i\<close>, \<open>AtAdd i\<close> is past its failure, \<open>AtSwitch i\<close> is past \<open>list->add\<close> and
  still runs, \<open>Asleep i\<close> has switched away, \<open>Holding\<close> is past \<open>lock\<close>, \<open>AtPop\<close> is past the exchange
  of \<open>unlock\<close>, \<open>AtCommit w\<close> has taken the routine \<open>w\<close> out of the list and not yet committed its
  task. \<open>add\<close> and \<open>pop\<close> themselves are one step each: they run under the list's own mutex, and a
  routine that finds it taken yields and comes back to where it was.
\<close>

datatype mpc = Outside | AtCas int | AtAdd int | AtSwitch int | Asleep int | Holding | AtPop | AtCommit rid

text \<open>
  \<open>woken\<close> are the routines that have a task in the task lists, \<open>aborted\<close> is \<open>abort()\<close>. \<open>clashed\<close>:
  a worker has switched to a routine that had not switched away, so that two threads run on one
  stack; the system says nothing about what comes then.
\<close>

record mstate =
  lk :: int
  waiting :: "rid list"
  woken :: "rid list"
  mpcs :: "rid \<Rightarrow> mpc"
  aborted :: bool
  clashed :: bool

definition goto :: "rid \<Rightarrow> mpc \<Rightarrow> mstate \<Rightarrow> mstate" where
  "goto r c s = s\<lparr>mpcs := (mpcs s)(r := c)\<rparr>"

definition live :: "mstate \<Rightarrow> bool" where
  "live s \<longleftrightarrow> \<not> aborted s \<and> \<not> clashed s"

text \<open>What happens next: a routine goes on, or a worker switches to the routine of a task.\<close>

datatype mevent = Run rid | Dispatch rid

inductive mstep :: "mstate \<Rightarrow> mevent \<Rightarrow> mstate \<Rightarrow> bool" where
  call_lock: "live s \<Longrightarrow> mpcs s r = Outside \<Longrightarrow> mstep s (Run r) (goto r (AtCas 0) s)"
| cas_ok: "live s \<Longrightarrow> mpcs s r = AtCas i \<Longrightarrow> lk s = i \<Longrightarrow> mstep s (Run r) (goto r Holding (s\<lparr>lk := 1\<rparr>))"
| cas_fail: "live s \<Longrightarrow> mpcs s r = AtCas i \<Longrightarrow> lk s \<noteq> i \<Longrightarrow> mstep s (Run r) (goto r (AtAdd (lk s)) s)"
| add: "live s \<Longrightarrow> mpcs s r = AtAdd i \<Longrightarrow>
    mstep s (Run r) (goto r (AtSwitch i) (s\<lparr>waiting := waiting s @ [r]\<rparr>))"
| switch: "live s \<Longrightarrow> mpcs s r = AtSwitch i \<Longrightarrow> mstep s (Run r) (goto r (Asleep i) s)"
| resume: "live s \<Longrightarrow> r \<in> set (woken s) \<Longrightarrow> mpcs s r = Asleep i \<Longrightarrow>
    mstep s (Dispatch r) (goto r (AtCas i) (s\<lparr>woken := remove1 r (woken s)\<rparr>))"
| clash: "live s \<Longrightarrow> r \<in> set (woken s) \<Longrightarrow> \<forall>i. mpcs s r \<noteq> Asleep i \<Longrightarrow>
    mstep s (Dispatch r) (s\<lparr>clashed := True\<rparr>)"
| unlock_ok: "live s \<Longrightarrow> mpcs s r = Holding \<Longrightarrow> lk s = 1 \<Longrightarrow> mstep s (Run r) (goto r AtPop (s\<lparr>lk := 0\<rparr>))"
| unlock_abort: "live s \<Longrightarrow> mpcs s r = Holding \<Longrightarrow> lk s \<noteq> 1 \<Longrightarrow> mstep s (Run r) (s\<lparr>aborted := True\<rparr>)"
| pop_none: "live s \<Longrightarrow> mpcs s r = AtPop \<Longrightarrow> waiting s = [] \<Longrightarrow> mstep s (Run r) (goto r Outside s)"
| pop_one: "live s \<Longrightarrow> mpcs s r = AtPop \<Longrightarrow> waiting s = w # ws \<Longrightarrow>
    mstep s (Run r) (goto r (AtCommit w) (s\<lparr>waiting := ws\<rparr>))"
| commit: "live s \<Longrightarrow> mpcs s r = AtCommit w \<Longrightarrow>
    mstep s (Run r) (goto r Outside (s\<lparr>woken := woken s @ [w]\<rparr>))"

inductive_cases mstep_cases: "mstep s ev s'"
inductive_simps mstep_dispatch: "mstep s (Dispatch r) s'"

definition minit :: mstate where
  "minit = \<lparr>lk = 0, waiting = [], woken = [], mpcs = (\<lambda>_. Outside), aborted = False, clashed = False\<rparr>"

inductive mreach :: "mstate \<Rightarrow> bool" where
  mreach_init: "mreach minit"
| mreach_step: "mreach s \<Longrightarrow> mstep s ev s' \<Longrightarrow> mreach s'"

lemma goto_simps [simp]:
  "lk (goto r c s) = lk s" "waiting (goto r c s) = waiting s" "woken (goto r c s) = woken s"
  "aborted (goto r c s) = aborted s" "clashed (goto r c s) = clashed s" "mpcs (goto r c s) = (mpcs s)(r := c)"
  "live (goto r c s) = live s"
  by (simp_all add: goto_def live_def)

lemma live_simps [simp]:
  "live (s\<lparr>lk := v\<rparr>) = live s" "live (s\<lparr>waiting := ws\<rparr>) = live s" "live (s\<lparr>woken := ws\<rparr>) = live s"
  by (simp_all add: live_def)

subsection \<open>The invariant\<close>

definition waits :: "mpc \<Rightarrow> bool" where
  "waits c = (case c of AtSwitch _ \<Rightarrow> True | Asleep _ \<Rightarrow> True | _ \<Rightarrow> False)"

definition remembers :: "mpc \<Rightarrow> int option" where
  "remembers c = (case c of AtCas i \<Rightarrow> Some i | AtAdd i \<Rightarrow> Some i | AtSwitch i \<Rightarrow> Some i | Asleep i \<Rightarrow> Some i
     | _ \<Rightarrow> None)"

lemma mpc_simps [simp]:
  "waits Outside = False" "waits (AtCas i) = False" "waits (AtAdd i) = False" "waits (AtSwitch i) = True"
  "waits (Asleep i) = True" "waits Holding = False" "waits AtPop = False" "waits (AtCommit w) = False"
  "remembers Outside = None" "remembers (AtCas i) = Some i" "remembers (AtAdd i) = Some i"
  "remembers (AtSwitch i) = Some i" "remembers (Asleep i) = Some i" "remembers Holding = None"
  "remembers AtPop = None" "remembers (AtCommit w) = None"
  by (simp_all add: waits_def remembers_def)

text \<open>
  The count is 0 or 1; when it is 1 somebody holds the mutex; what a routine remembers of the
  count is 0 or 1.
\<close>

definition count_inv :: "mstate \<Rightarrow> bool" where
  "count_inv s \<longleftrightarrow> lk s \<in> {0, 1} \<and> (lk s = 1 \<longrightarrow> (\<exists>r. mpcs s r = Holding)) \<and>
     (\<forall>r i. remembers (mpcs s r) = Some i \<longrightarrow> i \<in> {0, 1})"

text \<open>
  The routines that wait, switched away or about to, are those in the list, those taken out of it
  by a routine that is about to commit their task, and those with a task, and each is in one of
  these places once.
\<close>

definition queue_inv :: "mstate \<Rightarrow> bool" where
  "queue_inv s \<longleftrightarrow> distinct (waiting s @ woken s) \<and>
     (\<forall>r w. mpcs s r = AtCommit w \<longrightarrow> w \<notin> set (waiting s @ woken s) \<and> (\<forall>q. mpcs s q = AtCommit w \<longrightarrow> q = r)) \<and>
     (\<forall>w. w \<in> set (waiting s @ woken s) \<or> (\<exists>r. mpcs s r = AtCommit w) \<longleftrightarrow> waits (mpcs s w))"

definition minv :: "mstate \<Rightarrow> bool" where
  "minv s \<longleftrightarrow> count_inv s \<and> queue_inv s"

lemma minv_init: "minv minit"
  by (simp add: minv_def count_inv_def queue_inv_def minit_def)

lemma count_inv_step:
  assumes st: "mstep s ev s'" and inv: "count_inv s"
  shows "count_inv s'"
proof -
  have H: "\<exists>a. a \<noteq> r \<and> mpcs s a = Holding" if one: "lk s = 1" "mpcs s r \<noteq> Holding" for r
  proof -
    obtain a where "mpcs s a = Holding" using inv one by (auto simp: count_inv_def)
    moreover from this have "a \<noteq> r" using one by auto
    ultimately show ?thesis by blast
  qed
  have I: "i \<in> {0, 1}" if "remembers (mpcs s r) = Some i" for r i
    using inv that unfolding count_inv_def by blast
  note inv' = inv [unfolded count_inv_def]
  show ?thesis using st
  proof (cases rule: mstep.cases)
    case (add r i)
    then show ?thesis using inv' H [of r] I [of r i] unfolding count_inv_def by (auto split: if_splits)
  next
    case (switch r i)
    then show ?thesis using inv' H [of r] I [of r i] unfolding count_inv_def by (auto split: if_splits)
  next
    case (resume r i)
    then show ?thesis using inv' H [of r] I [of r i] unfolding count_inv_def by (auto split: if_splits)
  next
    case (call_lock r)
    then show ?thesis using inv' H [of r] unfolding count_inv_def by (auto split: if_splits)
  next
    case (cas_ok r i)
    then show ?thesis using inv' unfolding count_inv_def by (auto split: if_splits)
  next
    case (cas_fail r i)
    then show ?thesis using inv' H [of r] unfolding count_inv_def by (auto split: if_splits)
  next
    case (unlock_ok r)
    then show ?thesis using inv' unfolding count_inv_def by (auto split: if_splits)
  next
    case (pop_none r)
    then show ?thesis using inv' H [of r] unfolding count_inv_def by (auto split: if_splits)
  next
    case (pop_one r w ws)
    then show ?thesis using inv' H [of r] unfolding count_inv_def by (auto split: if_splits)
  next
    case (commit r w)
    then show ?thesis using inv' H [of r] unfolding count_inv_def by (auto split: if_splits)
  qed (use inv' in \<open>auto simp: count_inv_def\<close>)
qed

text \<open>A routine that goes on without touching the queues, or that waiting is none of its business.\<close>

lemma queue_inv_goto:
  assumes inv: "queue_inv s" and "waits c = waits (mpcs s r)" and "\<And>w. mpcs s r \<noteq> AtCommit w" and "\<And>w. c \<noteq> AtCommit w"
    and s': "mpcs s' = mpcs s" "waiting s' = waiting s" "woken s' = woken s"
  shows "queue_inv (goto r c s')"
proof -
  have com: "mpcs (goto r c s') q = AtCommit w \<longleftrightarrow> mpcs s q = AtCommit w" for q w using assms(3,4) by (simp add: s'(1))
  have wt: "waits (mpcs (goto r c s') q) = waits (mpcs s q)" for q using assms(2) by (simp add: s'(1))
  show ?thesis using inv unfolding queue_inv_def com wt goto_simps(2,3) s'(2,3) .
qed

text \<open>The invariant of a state is shown from its three clauses.\<close>

lemma queue_invI:
  assumes "distinct (waiting s @ woken s)"
    and "\<And>r w. mpcs s r = AtCommit w \<Longrightarrow> w \<notin> set (waiting s @ woken s)"
    and "\<And>r q w. mpcs s r = AtCommit w \<Longrightarrow> mpcs s q = AtCommit w \<Longrightarrow> q = r"
    and "\<And>w. w \<in> set (waiting s @ woken s) \<or> (\<exists>r. mpcs s r = AtCommit w) \<longleftrightarrow> waits (mpcs s w)"
  shows "queue_inv s"
  using assms unfolding queue_inv_def by blast

lemma queue_invD:
  assumes "queue_inv s"
  shows "distinct (waiting s @ woken s)"
    and "mpcs s r = AtCommit w \<Longrightarrow> w \<notin> set (waiting s @ woken s)"
    and "mpcs s r = AtCommit w \<Longrightarrow> mpcs s q = AtCommit w \<Longrightarrow> q = r"
    and "w \<in> set (waiting s @ woken s) \<or> (\<exists>r. mpcs s r = AtCommit w) \<longleftrightarrow> waits (mpcs s w)"
  using assms unfolding queue_inv_def by blast+

text \<open>A routine that does not wait is nowhere in the queues.\<close>

lemma queue_inv_out:
  assumes "queue_inv s" and "\<not> waits (mpcs s r)"
  shows "r \<notin> set (waiting s)" and "r \<notin> set (woken s)" and "mpcs s q \<noteq> AtCommit r"
  using queue_invD(4) [OF assms(1), of r] assms(2) by auto

text \<open>The four steps that move a routine from one place to the next.\<close>

lemma queue_inv_add:
  assumes inv: "queue_inv s" and at: "mpcs s r = AtAdd i"
  shows "queue_inv (goto r (AtSwitch i) (s\<lparr>waiting := waiting s @ [r]\<rparr>))" (is "queue_inv ?s")
proof (rule queue_invI)
  have new: "r \<notin> set (waiting s)" "r \<notin> set (woken s)" "\<And>q. mpcs s q \<noteq> AtCommit r"
    using queue_inv_out [OF inv, of r] at by auto
  have co: "mpcs ?s q = AtCommit w \<longleftrightarrow> mpcs s q = AtCommit w" for q w using at by simp
  show "distinct (waiting ?s @ woken ?s)" using queue_invD(1) [OF inv] new by auto
  show "w \<in> set (waiting ?s @ woken ?s) \<or> (\<exists>q. mpcs ?s q = AtCommit w) \<longleftrightarrow> waits (mpcs ?s w)" for w
    using queue_invD(4) [OF inv, of w] unfolding co by (cases "w = r") simp_all
  show "w \<notin> set (waiting ?s @ woken ?s)" if "mpcs ?s q = AtCommit w" for q w
    using queue_invD(2) [OF inv, of q w] new(3) [of q] that unfolding co by auto
  show "q' = q" if "mpcs ?s q = AtCommit w" "mpcs ?s q' = AtCommit w" for q q' w
    using queue_invD(3) [OF inv] that unfolding co by blast
qed

lemma queue_inv_resume:
  assumes inv: "queue_inv s" and at: "mpcs s r = Asleep i" "r \<in> set (woken s)"
  shows "queue_inv (goto r (AtCas i) (s\<lparr>woken := remove1 r (woken s)\<rparr>))" (is "queue_inv ?s")
proof (rule queue_invI)
  have one: "r \<notin> set (waiting s)" "\<And>q. mpcs s q \<noteq> AtCommit r" "set (remove1 r (woken s)) = set (woken s) - {r}"
    using queue_invD(1) [OF inv] queue_invD(2) [OF inv, of _ r] at(2) by auto
  have co: "mpcs ?s q = AtCommit w \<longleftrightarrow> mpcs s q = AtCommit w" for q w using at(1) by simp
  show "distinct (waiting ?s @ woken ?s)" using queue_invD(1) [OF inv] one by auto
  show "w \<in> set (waiting ?s @ woken ?s) \<or> (\<exists>q. mpcs ?s q = AtCommit w) \<longleftrightarrow> waits (mpcs ?s w)" for w
    using queue_invD(4) [OF inv, of w] one unfolding co by (cases "w = r") simp_all
  show "w \<notin> set (waiting ?s @ woken ?s)" if "mpcs ?s q = AtCommit w" for q w
    using queue_invD(2) [OF inv, of q w] that one unfolding co by auto
  show "q' = q" if "mpcs ?s q = AtCommit w" "mpcs ?s q' = AtCommit w" for q q' w
    using queue_invD(3) [OF inv] that unfolding co by blast
qed

lemma queue_inv_pop:
  assumes inv: "queue_inv s" and at: "mpcs s r = AtPop" "waiting s = w # ws"
  shows "queue_inv (goto r (AtCommit w) (s\<lparr>waiting := ws\<rparr>))" (is "queue_inv ?s")
proof (rule queue_invI)
  have new: "\<And>q. mpcs s q \<noteq> AtCommit w" using queue_invD(2) [OF inv, of _ w] at(2) by auto
  have co: "mpcs ?s q = AtCommit v \<longleftrightarrow> q = r \<and> v = w \<or> mpcs s q = AtCommit v" for q v using at(1) by auto
  show "distinct (waiting ?s @ woken ?s)" using queue_invD(1) [OF inv] at by auto
  show "v \<in> set (waiting ?s @ woken ?s) \<or> (\<exists>q. mpcs ?s q = AtCommit v) \<longleftrightarrow> waits (mpcs ?s v)" for v
    using queue_invD(4) [OF inv, of v] at unfolding co by (cases "v = r"; cases "v = w") auto
  show "v \<notin> set (waiting ?s @ woken ?s)" if "mpcs ?s q = AtCommit v" for q v
    using queue_invD(2) [OF inv, of q v] that queue_invD(1) [OF inv] at unfolding co by auto
  show "q' = q" if "mpcs ?s q = AtCommit v" "mpcs ?s q' = AtCommit v" for q q' v
    using queue_invD(3) [OF inv] that new unfolding co by blast
qed

lemma queue_inv_commit:
  assumes inv: "queue_inv s" and at: "mpcs s r = AtCommit w"
  shows "queue_inv (goto r Outside (s\<lparr>woken := woken s @ [w]\<rparr>))" (is "queue_inv ?s")
proof (rule queue_invI)
  have new: "w \<notin> set (waiting s)" "w \<notin> set (woken s)" "\<And>q. mpcs s q = AtCommit w \<longleftrightarrow> q = r"
    using queue_invD(2,3) [OF inv] at by auto
  have co: "mpcs ?s q = AtCommit v \<longleftrightarrow> q \<noteq> r \<and> mpcs s q = AtCommit v" for q v by simp
  have ex: "(\<exists>q. q \<noteq> r \<and> mpcs s q = AtCommit v) \<longleftrightarrow> v \<noteq> w \<and> (\<exists>q. mpcs s q = AtCommit v)" for v
    using new(3) at by (metis mpc.inject(5))
  show "distinct (waiting ?s @ woken ?s)" using queue_invD(1) [OF inv] new by auto
  show "v \<in> set (waiting ?s @ woken ?s) \<or> (\<exists>q. mpcs ?s q = AtCommit v) \<longleftrightarrow> waits (mpcs ?s v)" for v
    using queue_invD(4) [OF inv, of v] queue_invD(4) [OF inv, of w] new at unfolding co ex
    by (cases "v = r"; cases "v = w") auto
  show "v \<notin> set (waiting ?s @ woken ?s)" if "mpcs ?s q = AtCommit v" for q v
    using queue_invD(2) [OF inv, of q v] that new unfolding co by auto
  show "q' = q" if "mpcs ?s q = AtCommit v" "mpcs ?s q' = AtCommit v" for q q' v
    using queue_invD(3) [OF inv] that unfolding co by blast
qed

lemma queue_inv_step:
  assumes st: "mstep s ev s'" and inv: "queue_inv s"
  shows "queue_inv s'"
  using st
proof (cases rule: mstep.cases)
  case (add r i)
  then show ?thesis using queue_inv_add [OF inv] by simp
next
  case (resume r i)
  then show ?thesis using queue_inv_resume [OF inv] by simp
next
  case (pop_one r w ws)
  then show ?thesis using queue_inv_pop [OF inv] by simp
next
  case (commit r w)
  then show ?thesis using queue_inv_commit [OF inv] by simp
next
  case (clash r)
  then show ?thesis using inv by (simp add: queue_inv_def)
next
  case (unlock_abort r)
  then show ?thesis using inv by (simp add: queue_inv_def)
qed (auto intro!: queue_inv_goto [OF inv])

lemma minv_reach: "mreach s \<Longrightarrow> minv s"
proof (induction rule: mreach.induct)
  case mreach_init
  show ?case by (rule minv_init)
next
  case (mreach_step s ev s')
  then show ?case using count_inv_step queue_inv_step unfolding minv_def by blast
qed

subsection \<open>The functions take these steps\<close>

definition mview :: "'z syncenv_scheme \<Rightarrow> mid \<Rightarrow> mstate \<Rightarrow> bool" where
  "mview e m s \<longleftrightarrow> (\<exists>x. bMutexes e m = Some x \<and> lockCount x = lk s \<and> waiters_rel (m_list x) (waiting s))"

lemma running_above: "scheds e' = scheds e \<Longrightarrow> routines e' = routines e \<Longrightarrow> cur_sch e' = cur_sch e \<Longrightarrow>
    running e' r p = running e r p"
  by (simp add: running_def)

lemma lock_round_ok:
  assumes "mview e m s" and "live s" and "mpcs s r = AtCas i" and "lk s = i"
  shows "\<exists>e' s'. bMutex_lock_round m i e = Ret (True, i, e') \<and> mstep s (Run r) s' \<and> mview e' m s' \<and>
    mpcs s' r = Holding"
proof -
  obtain x where x: "bMutexes e m = Some x" "lockCount x = lk s" "waiters_rel (m_list x) (waiting s)"
    using assms(1) by (auto simp: mview_def)
  have "mstep s (Run r) (goto r Holding (s\<lparr>lk := 1\<rparr>))" by (rule cas_ok [OF assms(2-4)])
  then show ?thesis using x assms(4)
    by (auto simp: bMutex_lock_round_def mutex_at_def compare_exchange_strong_def mview_def Let_def)
qed

lemma lock_round_fail:
  fixes e :: "'z syncenv_scheme"
  assumes "mview e m s" and lv: "live s" and "mpcs s r = AtCas i" and "lk s \<noteq> i"
    and run: "running e r p" and rx: "routines e r = Some y" "\<not> (IsMain y \<and> IsProgress y)"
  shows "\<exists>e' s1 s2 s3. bMutex_lock_round m i e = Ret (False, lk s, e') \<and> mstep s (Run r) s1 \<and> mstep s1 (Run r) s2 \<and>
    mstep s2 (Run r) s3 \<and> mview e' m s3 \<and> mpcs s3 r = Asleep (lk s) \<and> running e' p r"
proof -
  obtain x where x: "bMutexes e m = Some x" "lockCount x = lk s" "waiters_rel (m_list x) (waiting s)"
    using assms(1) by (auto simp: mview_def)
  obtain L where L: "waiters_add r (m_list x) = Ret L" "waiters_rel L (waiting s @ [r])"
    using waiters_add_snoc [OF x(3)] by blast
  let ?x = "x\<lparr>lockCount := lk s, m_list := L\<rparr>"
  let ?e = "e\<lparr>bMutexes := (bMutexes e)(m \<mapsto> ?x)\<rparr>"
  have self: "getSelf (e\<lparr>bMutexes := B\<rparr>) = Ret r" for B using run by (auto simp: getSelf_def running_def)
  have run': "running ?e r p" using run running_above [of ?e e] by simp
  obtain e' where e': "SwapContext ?e = Ret e'" "running e' p r" "rtenv.more e' = rtenv.more ?e"
    using SwapContext_running [OF run', of y] rx by auto
  define s1 where "s1 = goto r (AtAdd (lk s)) s"
  define s2 where "s2 = goto r (AtSwitch (lk s)) (s1\<lparr>waiting := waiting s1 @ [r]\<rparr>)"
  have "mstep s (Run r) s1" unfolding s1_def by (rule cas_fail [OF assms(2-4)])
  moreover have "mstep s1 (Run r) s2" unfolding s2_def by (rule add) (simp_all add: s1_def lv)
  moreover have "mstep s2 (Run r) (goto r (Asleep (lk s)) s2)" by (rule switch) (simp_all add: s2_def s1_def lv)
  moreover have "bMutexes e' m = Some ?x" using syncenv_more_eq(1) [OF e'(3)] by simp
  then have "mview e' m (goto r (Asleep (lk s)) s2)" using L(2) by (simp add: mview_def s2_def s1_def)
  moreover have "bMutex_lock_round m i e = Ret (False, lk s, e')"
    using x assms(4) L(1) e'(1) self
    by (simp add: bMutex_lock_round_def mutex_at_def compare_exchange_strong_def Let_def)
  ultimately show ?thesis using e'(2)
    by (intro exI [of _ e'] exI [of _ s1] exI [of _ s2] exI [of _ "goto r (Asleep (lk s)) s2"]) simp
qed

text \<open>The steps of \<open>unlock\<close>: free the mutex, take a waiter out, and commit its task if there was one.\<close>

definition unlock_run :: "mstate \<Rightarrow> rid \<Rightarrow> mstate \<Rightarrow> bool" where
  "unlock_run s r s' \<longleftrightarrow> (\<exists>s1 s2. mstep s (Run r) s1 \<and> mstep s1 (Run r) s2 \<and>
     (if waiting s = [] then s' = s2 else mstep s2 (Run r) s'))"

lemma unlock_steps:
  fixes e :: "'z syncenv_scheme"
  assumes v: "mview e m s" and ab: "live s" "mpcs s r = Holding" "lk s = 1"
    and ok: "dist_ok e Q ls" and brk: "brk_ok e" and k: "k = unat (AddTask_i e)"
    and ws: "\<And>w. w \<in> set (waiting s) \<Longrightarrow> \<exists>x. routines e w = Some x \<and> \<not> IsProgress x"
  shows "\<exists>e' s'. bMutex_unlock m e = Ret e' \<and> unlock_run s r s' \<and> mview e' m s' \<and>
    mpcs s' r = Outside \<and> woken s' = woken s @ take 1 (waiting s) \<and> handed_out Q ls k e' (take 1 (waiting s))"
proof -
  obtain x where x: "bMutexes e m = Some x" "lockCount x = 1" "waiters_rel (m_list x) (waiting s)"
    using v ab(3) by (auto simp: mview_def)
  define s1 where "s1 = goto r AtPop (s\<lparr>lk := 0\<rparr>)"
  have s1: "mstep s (Run r) s1" unfolding s1_def by (rule unlock_ok [OF ab])
  have kl: "k < length ls" using ok k by (simp add: dist_ok_def)
  have h0: "handed_out Q ls k (e\<lparr>bMutexes := B\<rparr>) []" for B
    using handed_out_Nil [of "e\<lparr>bMutexes := B\<rparr>" Q ls k] dist_ok_above [of "e\<lparr>bMutexes := B\<rparr>" e Q ls] ok brk k
    by (simp add: brk_ok_def)
  show ?thesis
  proof (cases "waiting s")
    case Nil
    have t: "take_waiter (m_list x) = Ret (None, m_list x)" using take_waiter_Nil x(3) Nil by simp
    let ?e = "e\<lparr>bMutexes := (bMutexes e)(m \<mapsto> x\<lparr>lockCount := 0\<rparr>)\<rparr>"
    have "bMutex_unlock m e = Ret ?e"
      using x t by (simp add: bMutex_unlock_def mutex_at_def compare_exchange_strong_def Let_def)
    moreover have "mstep s1 (Run r) (goto r Outside s1)" by (rule pop_none) (simp_all add: s1_def ab Nil)
    then have "unlock_run s r (goto r Outside s1)" using s1 Nil by (auto simp: unlock_run_def)
    moreover have "mview ?e m (goto r Outside s1)" using x Nil by (simp add: mview_def s1_def)
    ultimately show ?thesis using h0 Nil
      by (intro exI [of _ ?e] exI [of _ "goto r Outside s1"]) (simp add: s1_def)
  next
    case (Cons w ws')
    obtain L where L: "take_waiter (m_list x) = Ret (Some w, L)" "waiters_rel L ws'"
      using take_waiter_Cons [of "m_list x" w ws'] x(3) Cons by auto
    let ?x = "x\<lparr>lockCount := 0, m_list := L\<rparr>"
    let ?e = "e\<lparr>bMutexes := (bMutexes e)(m \<mapsto> ?x)\<rparr>"
    obtain y where "routines ?e w = Some y" "\<not> IsProgress y" using ws [of w] Cons by auto
    from handed_out_wake [OF h0 kl this] obtain e' where
      e': "wake w ?e = Ret e'" "handed_out Q ls k e' ([] @ [w])" "rtenv.more e' = rtenv.more ?e" by blast
    define s2 where "s2 = goto r (AtCommit w) (s1\<lparr>waiting := ws'\<rparr>)"
    let ?s3 = "goto r Outside (s2\<lparr>woken := woken s2 @ [w]\<rparr>)"
    have "bMutex_unlock m e = Ret e'"
      using x L(1) e'(1) by (simp add: bMutex_unlock_def mutex_at_def compare_exchange_strong_def Let_def wake_def)
    moreover have "mstep s1 (Run r) s2" unfolding s2_def by (rule pop_one) (simp_all add: s1_def ab Cons)
    moreover have "mstep s2 (Run r) ?s3" by (rule commit) (simp_all add: s2_def s1_def ab)
    ultimately have "bMutex_unlock m e = Ret e'" "unlock_run s r ?s3"
      using s1 Cons by (auto simp: unlock_run_def)
    moreover have "bMutexes e' m = Some ?x" using syncenv_more_eq(1) [OF e'(3)] by simp
    then have "mview e' m ?s3" using L(2) by (simp add: mview_def s2_def s1_def)
    ultimately show ?thesis using e'(2) Cons
      by (intro exI [of _ e'] exI [of _ ?s3]) (simp add: s2_def s1_def)
  qed
qed

subsection \<open>The step for an event as a function\<close>

definition mnext :: "mevent \<Rightarrow> mstate \<Rightarrow> mstate option" where
  "mnext ev s = (if \<not> live s then None else case ev of
       Run r \<Rightarrow> (case mpcs s r of
           Outside \<Rightarrow> Some (goto r (AtCas 0) s)
         | AtCas i \<Rightarrow> Some (if lk s = i then goto r Holding (s\<lparr>lk := 1\<rparr>) else goto r (AtAdd (lk s)) s)
         | AtAdd i \<Rightarrow> Some (goto r (AtSwitch i) (s\<lparr>waiting := waiting s @ [r]\<rparr>))
         | AtSwitch i \<Rightarrow> Some (goto r (Asleep i) s)
         | Asleep i \<Rightarrow> None
         | Holding \<Rightarrow> Some (if lk s = 1 then goto r AtPop (s\<lparr>lk := 0\<rparr>) else s\<lparr>aborted := True\<rparr>)
         | AtPop \<Rightarrow> Some (case waiting s of [] \<Rightarrow> goto r Outside s
             | w # ws \<Rightarrow> goto r (AtCommit w) (s\<lparr>waiting := ws\<rparr>))
         | AtCommit w \<Rightarrow> Some (goto r Outside (s\<lparr>woken := woken s @ [w]\<rparr>)))
     | Dispatch r \<Rightarrow> (if r \<notin> set (woken s) then None else case mpcs s r of
           Asleep i \<Rightarrow> Some (goto r (AtCas i) (s\<lparr>woken := remove1 r (woken s)\<rparr>))
         | _ \<Rightarrow> Some (s\<lparr>clashed := True\<rparr>)))"

lemma mnext_iff: "mnext ev s = Some s' \<longleftrightarrow> mstep s ev s'"
proof
  assume a: "mnext ev s = Some s'"
  then have lv: "live s" by (auto simp: mnext_def split: if_splits)
  show "mstep s ev s'"
  proof (cases ev)
    case (Dispatch r)
    then show ?thesis using a lv
      by (cases "mpcs s r") (auto simp: mnext_def split: if_splits intro: resume clash)
  next
    case (Run r)
    show ?thesis
    proof (cases "mpcs s r")
      case (AtCas i)
      then show ?thesis using a lv Run cas_ok [OF lv AtCas] cas_fail [OF lv AtCas]
        by (cases "lk s = i") (auto simp: mnext_def)
    next
      case Holding
      then show ?thesis using a lv Run unlock_ok [OF lv Holding] unlock_abort [OF lv Holding]
        by (cases "lk s = 1") (auto simp: mnext_def)
    qed (use a lv Run in \<open>auto simp: mnext_def split: if_splits list.splits intro: mstep.intros\<close>)
  qed
next
  show "mstep s ev s' \<Longrightarrow> mnext ev s = Some s'"
    by (erule mstep_cases) (auto simp: mnext_def split: mpc.splits)
qed

fun mrun :: "mevent list \<Rightarrow> mstate \<Rightarrow> mstate option" where
  "mrun [] s = Some s"
| "mrun (ev # evs) s = Option.bind (mnext ev s) (mrun evs)"

lemma mrun_reach: "mrun evs s = Some s' \<Longrightarrow> mreach s \<Longrightarrow> mreach s'"
  by (induction evs arbitrary: s) (auto simp: mnext_iff split: bind_splits intro: mreach_step)

lemmas mrun_simps = mnext_def goto_def minit_def live_def

section \<open>A concrete environment with mutexes and conditions\<close>

definition ex_epoll :: bEpoll where
  "ex_epoll = \<lparr>ep_epollFd = 3, eventCount = 0, TimeoutScaner = \<lparr>TaskItemBucket = [1, 1, 1],
       TaskItemBucketSize = 3, LastCheckTime = 1000, BucketPosNow = 0\<rparr>, ep_mtx = False,
     TimeOutTaskList = 1, ActiveTaskList = 1, eventSize = 100000, lastCheckTime = 1000\<rparr>"

text \<open>Routine 1 runs on worker 0, the scheduler's routine 9 waits to be switched back to.\<close>

definition ex_sync ::
    "(mid \<Rightarrow> bMutex option) \<Rightarrow> (cid \<Rightarrow> bMutexCondTaskList option) \<Rightarrow> (rid \<Rightarrow> int) \<Rightarrow> syncenv" where
  "ex_sync B C T = \<lparr>items = items ex_heap, lists = lists ex_heap, item_brk = 15, list_brk = 2,
     routines = routines ex_run_env, routine_brk = 10, stks = Map.empty, stk_brk = 0,
     scheds = [0 \<mapsto> (ex_sched 0 0)\<lparr>occupyRoutine := Some 1, pendingRoutine := Some 9\<rparr>, 1 \<mapsto> ex_sched 1 1],
     sched_brk = 2, RoutinePool = bRoutinePool_New, UnSharedStackPool = bUnSharedStackPool_New,
     TaskDistributor = TaskDistributor ex_env, AddTask_i = 0, New_id = 0, cur_sch = 0,
     Epoll = ex_epoll, bMutexes = B, bConds = C, IsTimeout = T\<rparr>"

lemma ex_sync_dist: "dist_ok (ex_sync B C T) ex_Q [0, 1]"
proof -
  have "tasks_ok (ex_sync B C T) ex_Q"
    using tasks_ok_cong [of "ex_sync B C T" ex_heap] ex_heap_ok by (simp add: ex_sync_def)
  moreover have "workers_ok (ex_sync B C T) [0, 1]"
    by (simp add: workers_ok_def all_less_2 ex_sched_def ex_sync_def ex_env_def)
  ultimately show ?thesis by (simp add: dist_ok_def ex_Q_def ex_sync_def)
qed

lemma ex_sync_facts:
  "brk_ok (ex_sync B C T)" "running (ex_sync B C T) 1 9" "AddTask_i (ex_sync B C T) = 0"
  "r < 10 \<Longrightarrow> routines (ex_sync B C T) r = Some ((ex_routine False)\<lparr>rt_context := Some bContext_New\<rparr>)"
  "bMutexes (ex_sync B C T) = B" "bConds (ex_sync B C T) = C" "IsTimeout (ex_sync B C T) = T"
  by (simp_all add: brk_ok_def running_def ex_sync_def ex_run_fields ex_heap_def)

definition ex_waiters :: bMutexCondTaskList where
  "ex_waiters = waiters_New\<lparr>mc_head := Some 0, mc_tail := Some 1, mc_brk := 2, mc_heap :=
     [0 \<mapsto> \<lparr>mc_prev = None, mc_next = Some 1, mc_routine = 1\<rparr>, 1 \<mapsto> \<lparr>mc_prev = Some 0, mc_next = None, mc_routine = 2\<rparr>]\<rparr>"

lemma ex_waiters_rel: "waiters_rel ex_waiters [1, 2]"
  unfolding waiters_rel_def wnodes_ok_def
  by (rule exI [of _ "[0, 1]"]) (auto simp: ex_waiters_def waiters_New_def wnxt_def wprv_def)

section \<open>Properties\<close>

text \<open>
  the waiters of a mutex or a condition are served in the order they came: routines added to a
  new list are taken from it in the same order.
\<close>

theorem waiters_fifo:
  assumes "distinct rs"
  shows "\<exists>L. pbind (push_list waiters_add rs waiters_New) (pop_times take_waiter (length rs)) =
      Ret (map Some rs, L) \<and> take_waiter L = Ret (None, L)"
  using waiters.push_list_pop_times [OF waiters_rel_New assms, of "length rs"] take_waiter_Nil by auto

theorem waiters_fifo_witness:
  "\<exists>L. pbind (push_list waiters_add [4, 2, 7] waiters_New) (pop_times take_waiter 3) =
      Ret ([Some 4, Some 2, Some 7], L)"
proof -
  have "distinct [4, 2, 7 :: rid]" by simp
  from waiters_fifo [OF this] show ?thesis by (auto simp: numeral_3_eq_3)
qed

text \<open>
  C30: \<open>signalAll\<close> returns with nobody waiting, and has committed one task for every routine that
  was, in the order they came, handed to the workers in turn.
\<close>

theorem signalAll_wakes_everyone:
  fixes e :: "'z syncenv_scheme"
  assumes "dist_ok e Q ls" and "brk_ok e" and "k = unat (AddTask_i e)" and "cond_rel c e rs"
    and "\<And>r. r \<in> set rs \<Longrightarrow> \<exists>x. routines e r = Some x \<and> \<not> IsProgress x"
  shows "\<exists>e'. bCond_signalAll c e = Ret e' \<and> cond_rel c e' [] \<and> handed_out Q ls k e' rs"
  by (rule signalAll_wakes [OF assms])

theorem signalAll_wakes_everyone_witness:
  "\<exists>e'. bCond_signalAll 0 (ex_sync Map.empty [0 \<mapsto> ex_waiters] (\<lambda>_. 0)) = Ret e' \<and> cond_rel 0 e' [] \<and>
    handed_out ex_Q [0, 1] 0 e' [1, 2]"
proof -
  let ?e = "ex_sync Map.empty [0 \<mapsto> ex_waiters] (\<lambda>_. 0)"
  have c: "cond_rel 0 ?e [1, 2]" using ex_waiters_rel by (simp add: cond_rel_def ex_sync_facts)
  have r: "\<exists>x. routines ?e r = Some x \<and> \<not> IsProgress x" if "r \<in> set [1, 2]" for r
    using that by (auto simp: ex_sync_facts ex_routine_def)
  show ?thesis
    by (rule signalAll_wakes_everyone [OF ex_sync_dist ex_sync_facts(1) _ c r]) (simp_all add: ex_sync_facts)
qed

text \<open>
  C31: a round of \<open>lock\<close> on the program's memory is what the system of routines does: one step to
  \<open>Holding\<close> when the exchange finds the expected value, and otherwise the failed exchange, which
  stores the value found in the local \<open>i\<close>, the enqueueing and the switch, after which the routine
  that was waiting to be switched back to runs.
\<close>

theorem lock_round_refines:
  fixes e :: "'z syncenv_scheme"
  assumes "mview e m s" and "live s" and "mpcs s r = AtCas i"
    and "running e r p" and "routines e r = Some y" and "\<not> (IsMain y \<and> IsProgress y)"
  shows "\<exists>e' s1 s2 s3. bMutex_lock_round m i e = Ret (lk s = i, lk s, e') \<and> mstep s (Run r) s1 \<and> mview e' m s3 \<and>
    (if lk s = i then s3 = s1 \<and> mpcs s3 r = Holding
     else mstep s1 (Run r) s2 \<and> mstep s2 (Run r) s3 \<and> mpcs s3 r = Asleep (lk s) \<and> running e' p r)"
proof (cases "lk s = i")
  case True
  then show ?thesis using lock_round_ok [OF assms(1-3) True] by auto
next
  case False
  then show ?thesis using lock_round_fail [OF assms(1-3) False assms(4-6)] by auto
qed

definition ex_mstate :: mstate where
  "ex_mstate = \<lparr>lk = 1, waiting = [], woken = [], mpcs = (\<lambda>_. Outside)(2 := Holding, 1 := AtCas 0),
     aborted = False, clashed = False\<rparr>"

theorem lock_round_refines_witness:
  "\<exists>e' s1 s2 s3. bMutex_lock_round 0 0 (ex_sync [0 \<mapsto> bMutex_New\<lparr>lockCount := 1\<rparr>] Map.empty (\<lambda>_. 0)) =
      Ret (False, 1, e') \<and> mstep ex_mstate (Run 1) s1 \<and> mstep s1 (Run 1) s2 \<and> mstep s2 (Run 1) s3 \<and>
      mpcs s3 1 = Asleep 1"
proof -
  let ?e = "ex_sync [0 \<mapsto> bMutex_New\<lparr>lockCount := 1\<rparr>] Map.empty (\<lambda>_. 0)"
  have v: "mview ?e 0 ex_mstate"
    by (simp add: mview_def ex_sync_facts bMutex_New_def ex_mstate_def waiters_rel_New)
  show ?thesis
    using lock_round_refines [OF v _ _ ex_sync_facts(2) ex_sync_facts(4), of 0]
    by (auto simp: ex_mstate_def live_def ex_routine_def)
qed

text \<open>
  C32: \<open>unlock\<close> of a held mutex frees it, takes the routine that waited longest, if any, and commits
  one task for it: the steps of the system, of which the third is taken only with a waiter. On a
  free mutex it aborts, as the system does.
\<close>

theorem unlock_refines:
  fixes e :: "'z syncenv_scheme"
  assumes "mview e m s" and "live s" and "mpcs s r = Holding"
    and "dist_ok e Q ls" and "brk_ok e" and "k = unat (AddTask_i e)"
    and "\<And>w. w \<in> set (waiting s) \<Longrightarrow> \<exists>x. routines e w = Some x \<and> \<not> IsProgress x"
  shows "if lk s = 1
    then \<exists>e' s1 s2 s3. bMutex_unlock m e = Ret e' \<and> mstep s (Run r) s1 \<and> mstep s1 (Run r) s2 \<and>
      (if waiting s = [] then s3 = s2 else mstep s2 (Run r) s3) \<and> mview e' m s3 \<and>
      mpcs s3 r = Outside \<and> woken s3 = woken s @ take 1 (waiting s) \<and> handed_out Q ls k e' (take 1 (waiting s))
    else bMutex_unlock m e = Fail Abort \<and> (\<exists>s'. mstep s (Run r) s' \<and> aborted s')"
proof (cases "lk s = 1")
  case True
  from unlock_steps [OF assms(1-3) True assms(4-7)] obtain e' s3 where
    "bMutex_unlock m e = Ret e'" "unlock_run s r s3" "mview e' m s3" "mpcs s3 r = Outside"
    "woken s3 = woken s @ take 1 (waiting s)" "handed_out Q ls k e' (take 1 (waiting s))" by blast
  then show ?thesis using True unfolding unlock_run_def by (metis (full_types))
next
  case False
  then have "bMutex_unlock m e = Fail Abort"
    using assms(1) by (auto simp: mview_def bMutex_unlock_def mutex_at_def compare_exchange_strong_def)
  moreover have "mstep s (Run r) (s\<lparr>aborted := True\<rparr>)" by (rule unlock_abort [OF assms(2,3) False])
  ultimately show ?thesis using False by auto
qed

theorem unlock_refines_witness:
  "\<exists>e'. bMutex_unlock 0 (ex_sync [0 \<mapsto> \<lparr>lockCount = 1, m_list = ex_waiters\<rparr>] Map.empty (\<lambda>_. 0)) = Ret e' \<and>
    handed_out ex_Q [0, 1] 0 e' [1]"
proof -
  let ?e = "ex_sync [0 \<mapsto> \<lparr>lockCount = 1, m_list = ex_waiters\<rparr>] Map.empty (\<lambda>_. 0)"
  let ?s = "ex_mstate\<lparr>waiting := [1, 2], mpcs := (\<lambda>_. Outside)(5 := Holding, 1 := Asleep 1, 2 := Asleep 1)\<rparr>"
  have v: "mview ?e 0 ?s" using ex_waiters_rel by (simp add: mview_def ex_sync_facts ex_mstate_def)
  have w: "\<exists>x. routines ?e w = Some x \<and> \<not> IsProgress x" if "w \<in> set (waiting ?s)" for w
    using that by (auto simp: ex_sync_facts ex_routine_def)
  show ?thesis
    using unlock_refines [OF v _ _ ex_sync_dist ex_sync_facts(1) _ w, of 5 0]
    by (auto simp: ex_mstate_def live_def ex_sync_facts)
qed

text \<open>
  C6: in every reachable state of the system, whatever the order in which the routines go on and
  the workers switch to the routines of tasks, the count is 0 or 1 and somebody holds the mutex when
  it is 1. The routines that wait in \<open>lock\<close>, from the return of \<open>list->add\<close> on, are exactly those in
  the waiting list, those that an \<open>unlock\<close> has popped and not yet committed, and those with a task,
  and each is in one of these places, once: no waiter is lost or woken twice, wherever \<open>lock\<close> and
  \<open>unlock\<close> are interrupted. A waiter may be popped, and have its task, while it still runs between
  \<open>list->add\<close> and its switch; if a worker switches to it there the system stops (\<open>clashed\<close>), and
  nothing is said of what comes then.
\<close>

theorem mutex_waiters_conserved:
  assumes "mreach s"
  shows "lk s \<in> {0, 1} \<and> (lk s = 1 \<longrightarrow> (\<exists>r. mpcs s r = Holding)) \<and> distinct (waiting s @ woken s) \<and>
    (\<forall>r w. mpcs s r = AtCommit w \<longrightarrow> w \<notin> set (waiting s @ woken s) \<and> (\<forall>q. mpcs s q = AtCommit w \<longrightarrow> q = r)) \<and>
    (\<forall>w. w \<in> set (waiting s @ woken s) \<or> (\<exists>r. mpcs s r = AtCommit w) \<longleftrightarrow>
       (\<exists>i. mpcs s w \<in> {AtSwitch i, Asleep i}))"
proof -
  have "waits c \<longleftrightarrow> (\<exists>i. c \<in> {AtSwitch i, Asleep i})" for c by (cases c) simp_all
  then show ?thesis
    using minv_reach [OF assms] unfolding minv_def count_inv_def queue_inv_def by simp
qed

text \<open>A routine is taken out of the list while it is still running in \<open>lock\<close>.\<close>

theorem mutex_waiters_conserved_witness:
  "\<exists>s. mrun [Run 0, Run 0, Run 1, Run 1, Run 1, Run 0, Run 0] minit = Some s \<and> waiting s = [] \<and> woken s = [] \<and>
    mpcs s 0 = AtCommit 1 \<and> (\<exists>i. mpcs s 1 \<in> {AtSwitch i, Asleep i})"
proof -
  obtain s where s: "mrun [Run 0, Run 0, Run 1, Run 1, Run 1, Run 0, Run 0] minit = Some s" "waiting s = []"
    "woken s = []" "mpcs s 0 = AtCommit 1" by (simp add: mrun_simps)
  from mutex_waiters_conserved [OF mrun_reach [OF s(1) mreach_init]] s show ?thesis by blast
qed

text \<open>
  A waiter can be switched to before it has switched away: between \<open>list->add\<close> and \<open>SwapContext\<close>
  another thread's \<open>unlock\<close> takes it out of the list and commits its task, and a worker switches to
  the context the routine saved some time before.
\<close>

theorem waiter_dispatched_early:
  "\<exists>s s'. mreach s \<and> mpcs s 1 = AtSwitch 1 \<and> mstep s (Dispatch 1) s' \<and> clashed s'"
proof -
  obtain s where s: "mrun [Run 0, Run 0, Run 1, Run 1, Run 1, Run 0, Run 0, Run 0] minit = Some s"
    "mpcs s 1 = AtSwitch 1" "1 \<in> set (woken s)" "live s" by (simp add: mrun_simps)
  have "mstep s (Dispatch 1) (s\<lparr>clashed := True\<rparr>)" by (rule clash [OF s(4,3)]) (use s(2) in simp)
  then show ?thesis using mrun_reach [OF s(1) mreach_init] s(2) by (intro exI) auto
qed

text \<open>
  C33: the mutex does not exclude. Two routines can be past \<open>lock\<close> at once: one is woken after the
  other has locked again, and its exchange, which now expects 1, succeeds. When both have
  unlocked the program has aborted.
\<close>

theorem mutex_two_holders:
  "\<exists>s s'. mreach s \<and> mpcs s 0 = Holding \<and> mpcs s 1 = Holding \<and> mrun [Run 0, Run 0, Run 1] s = Some s' \<and> aborted s'"
proof -
  let ?run = "[Run 0, Run 0, Run 1, Run 1, Run 1, Run 1, Run 0, Run 0, Run 0, Run 0, Run 0, Dispatch 1, Run 1]"
  obtain s where s: "mrun ?run minit = Some s" "mpcs s 0 = Holding" "mpcs s 1 = Holding"
    "\<exists>s'. mrun [Run 0, Run 0, Run 1] s = Some s' \<and> aborted s'"
    by (simp add: mrun_simps)
  then show ?thesis using mrun_reach [OF s(1) mreach_init] by blast
qed

text \<open>
  after one failed attempt the test of \<open>lock\<close> is the wrong way round: a routine that retries
  with 1 in its local \<open>i\<close> gets in exactly when the mutex is locked, and then beside another holder.
\<close>

theorem retry_enters_only_when_held:
  assumes "mreach s" and "mpcs s r = AtCas 1" and "mstep s (Run r) s'"
  shows "(mpcs s' r = Holding \<longleftrightarrow> lk s = 1) \<and>
    (mpcs s' r = Holding \<longrightarrow> (\<exists>a. a \<noteq> r \<and> mpcs s' a = Holding))"
proof -
  have e: "mpcs s' r = Holding \<longleftrightarrow> lk s = 1" "lk s = 1 \<Longrightarrow> mpcs s' = (mpcs s)(r := Holding)"
    using assms(2,3) by (auto simp: mnext_iff [symmetric] mnext_def split: if_splits)
  have "\<exists>a. a \<noteq> r \<and> mpcs s a = Holding" if one: "lk s = 1"
  proof -
    obtain a where "mpcs s a = Holding"
      using minv_reach [OF assms(1)] one by (auto simp: minv_def count_inv_def)
    moreover from this have "a \<noteq> r" using assms(2) by auto
    ultimately show ?thesis by blast
  qed
  then show ?thesis using e by auto
qed

theorem retry_enters_only_when_held_witness:
  "\<exists>s s' a. mreach s \<and> mpcs s 1 = AtCas 1 \<and> mstep s (Run 1) s' \<and> mpcs s' 1 = Holding \<and> a \<noteq> (1 :: rid) \<and>
    mpcs s' a = Holding"
proof -
  obtain s where s: "mrun [Run 0, Run 0, Run 1, Run 1, Run 1, Run 1, Run 0, Run 0, Run 0, Run 0, Run 0, Dispatch 1] minit =
      Some s" "mpcs s 1 = AtCas 1" "lk s = 1" "live s" by (simp add: mrun_simps)
  have r: "mreach s" by (rule mrun_reach [OF s(1) mreach_init])
  have st: "mstep s (Run 1) (goto 1 Holding (s\<lparr>lk := 1\<rparr>))" by (rule cas_ok [OF s(4,2,3)])
  obtain a where "a \<noteq> 1" "mpcs (goto 1 Holding (s\<lparr>lk := 1\<rparr>)) a = Holding"
    using retry_enters_only_when_held [OF r s(2) st] by auto
  then show ?thesis
    using r s(2) st by (intro exI [of _ s] exI [of _ "goto 1 Holding (s\<lparr>lk := 1\<rparr>)"] exI [of _ a]) simp
qed

text \<open>
  C34: a contended lock is not handed over. When the holder unlocks and the one waiter is woken, the
  waiter finds the mutex free, does not take it and goes back to sleep: nobody holds the mutex,
  and the waiter cannot move until some other routine has locked and unlocked it.
\<close>

theorem handoff_is_lost:
  assumes "live s" and "lk s = 1" and "mpcs s a = Holding" and "mpcs s b = Asleep 1" and "a \<noteq> b"
    and "waiting s = [b]" and "woken s = []"
  shows "\<exists>s'. mrun [Run a, Run a, Run a, Dispatch b, Run b, Run b, Run b] s = Some s' \<and> lk s' = 0 \<and> waiting s' = [b] \<and>
    woken s' = [] \<and> mpcs s' = (mpcs s)(a := Outside, b := Asleep 0) \<and>
    (\<forall>s''. \<not> mstep s' (Run b) s'' \<and> \<not> mstep s' (Dispatch b) s'')"
proof -
  let ?s = "s\<lparr>lk := 0, waiting := [b], woken := [], mpcs := (mpcs s)(a := Outside, b := Asleep 0)\<rparr>"
  have "mrun [Run a, Run a, Run a, Dispatch b, Run b, Run b, Run b] s = Some ?s"
    using assms by (auto simp: mnext_def goto_def live_def intro!: mstate.equality)
  moreover have "\<not> mstep ?s (Run b) s''" "\<not> mstep ?s (Dispatch b) s''" for s''
    by (simp_all add: mnext_iff [symmetric] mnext_def)
  ultimately show ?thesis by (intro exI [of _ ?s]) simp
qed

theorem handoff_is_lost_witness:
  "\<exists>s s'. mreach s \<and> mrun [Run 0, Run 0, Run 0, Dispatch 1, Run 1, Run 1, Run 1] s = Some s' \<and> lk s' = 0 \<and>
    waiting s' = [1] \<and> (\<forall>s''. \<not> mstep s' (Run 1) s'' \<and> \<not> mstep s' (Dispatch 1) s'')"
proof -
  obtain s where s: "mrun [Run 0, Run 0, Run 1, Run 1, Run 1, Run 1] minit = Some s" "live s" "lk s = 1" "mpcs s 0 = Holding"
    "mpcs s 1 = Asleep 1" "waiting s = [1]" "woken s = []" by (simp add: mrun_simps)
  have "(0 :: rid) \<noteq> 1" by simp
  from handoff_is_lost [OF s(2-5) this s(6,7)] mrun_reach [OF s(1) mreach_init] show ?thesis by blast
qed

text \<open>
  \<open>signalOnce\<close> with no waiter follows a null pointer; with waiters it commits a task for the one
  that came first.
\<close>

theorem signalOnce_needs_a_waiter:
  fixes e :: "'z syncenv_scheme"
  assumes "dist_ok e Q ls" and "brk_ok e" and "k = unat (AddTask_i e)" and "cond_rel c e rs"
    and "\<And>r. r \<in> set rs \<Longrightarrow> \<exists>x. routines e r = Some x \<and> \<not> IsProgress x"
  shows "case rs of [] \<Rightarrow> bCond_signalOnce c e = Fail NullDeref
    | r # rs' \<Rightarrow> \<exists>e'. bCond_signalOnce c e = Ret e' \<and> cond_rel c e' rs' \<and> handed_out Q ls k e' [r]"
proof (cases rs)
  case Nil
  then obtain e' where "take_cond c e = Ret (None, e')" using cond_src.pop_Nil [of c e] assms(4) by auto
  then show ?thesis using Nil by (simp add: bCond_signalOnce_def)
next
  case (Cons r rs')
  then obtain e1 where e1: "take_cond c e = Ret (Some r, e1)" "cond_rel c e1 rs'"
    using cond_src.pop_Cons [of c e r rs'] assms(4) by auto
  obtain L where L: "e1 = e\<lparr>bConds := (bConds e)(c \<mapsto> L)\<rparr>" by (rule take_cond_frame [OF e1(1)])
  have "dist_ok e1 Q ls" unfolding L using assms(1) by (subst dist_ok_above) simp_all
  moreover have "brk_ok e1" using assms(2) by (simp add: L brk_ok_def)
  moreover have "k = unat (AddTask_i e1)" using assms(3) L by simp
  ultimately have h: "handed_out Q ls k e1 []" by (intro handed_out_Nil)
  have kl: "k < length ls" using assms(1,3) by (simp add: dist_ok_def)
  obtain x where "routines e1 r = Some x" "\<not> IsProgress x" using assms(5) [of r] Cons L by auto
  from handed_out_wake [OF h kl this] obtain e' where
    e': "wake r e1 = Ret e'" "handed_out Q ls k e' ([] @ [r])" "rtenv.more e' = rtenv.more e1" by blast
  have "cond_rel c e' rs'" using e1(2) syncenv_more_eq(2) [OF e'(3)] by (simp add: cond_rel_def)
  then show ?thesis using Cons e1(1) e'(1,2) by (simp add: bCond_signalOnce_def)
qed

theorem signalOnce_needs_a_waiter_witness:
  "bCond_signalOnce 0 (ex_sync Map.empty [0 \<mapsto> waiters_New] (\<lambda>_. 0)) = Fail NullDeref"
proof -
  let ?e = "ex_sync Map.empty [0 \<mapsto> waiters_New] (\<lambda>_. 0)"
  have c: "cond_rel 0 ?e []" using waiters_rel_New by (simp add: cond_rel_def ex_sync_facts)
  show ?thesis using signalOnce_needs_a_waiter [OF ex_sync_dist ex_sync_facts(1) refl c] by simp
qed

end
