(* ===== verification/Hooks.thy ===== *)
theory Hooks
  imports Distributor "HOL-Library.Signed_Division"
begin

unbundle bit_operations_syntax

text \<open>
  The hooked system calls of \<open>b_hook.cc\<close> but \<open>poll\<close>: the table of descriptors and \<open>read\<close>,
  \<open>write\<close>, \<open>fcntl\<close>, \<open>socket\<close>, \<open>accept\<close>, \<open>connect\<close>, \<open>close\<close>, \<open>sendto\<close>, \<open>recvfrom\<close>, \<open>send\<close>,
  \<open>recv\<close> and \<open>setsockopt\<close>. The system calls they wrap are parameters over a world \<open>'w\<close>, and so is
  the call of \<open>poll\<close>, which suspends the routine.
\<close>

section \<open>Descriptors\<close>

definition HookContralFdNums :: int where "HookContralFdNums = 102400"
definition HookContralFdTimeout_S :: int where "HookContralFdTimeout_S = 1"
definition HookContralFdTimeout_MS :: int where "HookContralFdTimeout_MS = 0"

definition O_NONBLOCK :: u32 where "O_NONBLOCK = 0x800"
definition POLLIN :: u16 where "POLLIN = 0x001"
definition POLLPRI :: u16 where "POLLPRI = 0x002"
definition POLLOUT :: u16 where "POLLOUT = 0x004"
definition POLLERR :: u16 where "POLLERR = 0x008"
definition POLLHUP :: u16 where "POLLHUP = 0x010"
definition POLLRDHUP :: u16 where "POLLRDHUP = 0x2000"
definition EAGAIN :: int where "EAGAIN = 11"
definition EINPROGRESS :: int where "EINPROGRESS = 115"
definition ETIMEDOUT :: int where "ETIMEDOUT = 110"
definition SOL_SOCKET :: int where "SOL_SOCKET = 1"
definition SO_RCVTIMEO :: int where "SO_RCVTIMEO = 20"
definition SO_SNDTIMEO :: int where "SO_SNDTIMEO = 21"

record timeval =
  tv_sec :: int
  tv_usec :: int

record fileDesc =
  userFlags :: u32
  fd_addr :: "nat list"
  fd_domain :: int
  Rtimeout :: timeval
  Wtimeout :: timeval

text \<open>The table, \<open>errno\<close> and the world. A system call may set \<open>errno\<close>.\<close>

record 'w hst =
  hooksFdSet :: "int \<Rightarrow> fileDesc option"
  errno :: int
  world :: 'w

type_synonym 'w call = "int \<Rightarrow> 'w \<Rightarrow> int \<times> int \<times> 'w"

definition sys :: "'w call \<Rightarrow> 'w hst \<Rightarrow> int \<times> 'w hst" where
  "sys c s = (case c (errno s) (world s) of (r, e, w) \<Rightarrow> (r, s\<lparr>errno := e, world := w\<rparr>))"

definition isEnableHook :: "bRoutine \<Rightarrow> bool" where
  "isEnableHook r = (if IsProgress r \<and> \<not> IsMain r then False else IsEnableHook r)"

definition disableHook :: "bRoutine \<Rightarrow> bRoutine" where
  "disableHook r = r\<lparr>IsEnableHook := False\<rparr>"

definition enableHook :: "bRoutine \<Rightarrow> bRoutine" where
  "enableHook r = r\<lparr>IsEnableHook := True\<rparr>"

text \<open>\<open>allocFileDesc\<close> stores at the index it is given, inside the table or not.\<close>

definition new_fileDesc :: fileDesc where
  "new_fileDesc = \<lparr>userFlags = 0, fd_addr = replicate 16 0, fd_domain = - 1,
     Rtimeout = \<lparr>tv_sec = HookContralFdTimeout_S, tv_usec = HookContralFdTimeout_MS\<rparr>,
     Wtimeout = \<lparr>tv_sec = HookContralFdTimeout_S, tv_usec = HookContralFdTimeout_MS\<rparr>\<rparr>"

definition allocFileDesc :: "int \<Rightarrow> 'w hst \<Rightarrow> 'w hst prog" where
  "allocFileDesc fd s =
     (if fd < 0 \<or> HookContralFdNums \<le> fd then Fail OutOfBounds
      else Ret (s\<lparr>hooksFdSet := (hooksFdSet s)(fd \<mapsto> new_fileDesc)\<rparr>))"

definition getFileDesc :: "int \<Rightarrow> 'w hst \<Rightarrow> fileDesc option" where
  "getFileDesc fd s = (if fd > - 1 \<and> fd < HookContralFdNums then hooksFdSet s fd else None)"

definition freeFileDesc :: "int \<Rightarrow> 'w hst \<Rightarrow> 'w hst" where
  "freeFileDesc fd s =
     (if fd > - 1 \<and> fd < HookContralFdNums \<and> hooksFdSet s fd \<noteq> None
      then s\<lparr>hooksFdSet := (hooksFdSet s)(fd := None)\<rparr> else s)"

definition upd_desc :: "int \<Rightarrow> (fileDesc \<Rightarrow> fileDesc) \<Rightarrow> 'w hst \<Rightarrow> 'w hst" where
  "upd_desc fd f s = s\<lparr>hooksFdSet := (hooksFdSet s)(fd := map_option f (hooksFdSet s fd))\<rparr>"

text \<open>The descriptors the hooks leave to the system call: unknown ones and non-blocking ones.\<close>

definition blocking_desc :: "bRoutine \<Rightarrow> int \<Rightarrow> 'w hst \<Rightarrow> fileDesc option" where
  "blocking_desc r fd s = (if \<not> isEnableHook r then None else
     case getFileDesc fd s of None \<Rightarrow> None
     | Some d \<Rightarrow> if userFlags d AND O_NONBLOCK \<noteq> 0 then None else Some d)"

definition timeout_ms :: "timeval \<Rightarrow> int" where
  "timeout_ms t = sint (word_of_int (tv_sec t * 1000 + tv_usec t sdiv 1000) :: 32 word)"

text \<open>
  \<open>poll(&pf, 1, timeout)\<close> for one descriptor: the result and \<open>revents\<close>. The routine may be
  suspended in it, and others run meanwhile: any part of the state may have changed.
\<close>

type_synonym 'w poll1 = "int \<Rightarrow> u16 \<Rightarrow> int \<Rightarrow> 'w hst \<Rightarrow> (int \<times> u16) \<times> 'w hst"

definition rd_events :: u16 where "rd_events = POLLIN OR POLLERR OR POLLHUP"
definition wr_events :: u16 where "wr_events = POLLOUT OR POLLERR OR POLLHUP"

section \<open>Reading\<close>

text \<open>\<open>while (0 == poll(&pf, 1, timeout));\<close>\<close>

partial_function (option) wait_readable :: "'w poll1 \<Rightarrow> int \<Rightarrow> int \<Rightarrow> 'w hst \<Rightarrow> 'w hst prog" where
  "wait_readable poll fd timeout s =
     (let (r, s) = poll fd rd_events timeout s in
      if fst r = 0 then wait_readable poll fd timeout s else Ret s)"

definition hook_read ::
    "'w poll1 \<Rightarrow> (int \<Rightarrow> nat \<Rightarrow> 'w call) \<Rightarrow> bRoutine \<Rightarrow> int \<Rightarrow> nat \<Rightarrow> 'w hst \<Rightarrow> (int \<times> 'w hst) prog" where
  "hook_read poll sys_read r fd nbyte s = (case blocking_desc r fd s of
       None \<Rightarrow> Ret (sys (sys_read fd nbyte) s)
     | Some d \<Rightarrow>
         pbind (wait_readable poll fd (timeout_ms (Rtimeout d)) s) (\<lambda>s.
         Ret (sys (sys_read fd nbyte) s)))"

text \<open>\<open>recv\<close> is the same with its flags.\<close>

definition hook_recv ::
    "'w poll1 \<Rightarrow> (int \<Rightarrow> nat \<Rightarrow> int \<Rightarrow> 'w call) \<Rightarrow> bRoutine \<Rightarrow> int \<Rightarrow> nat \<Rightarrow> int \<Rightarrow> 'w hst \<Rightarrow> (int \<times> 'w hst) prog" where
  "hook_recv poll sys_recv r socket len flags s = (case blocking_desc r socket s of
       None \<Rightarrow> Ret (sys (sys_recv socket len flags) s)
     | Some d \<Rightarrow>
         pbind (wait_readable poll socket (timeout_ms (Rtimeout d)) s) (\<lambda>s.
         Ret (sys (sys_recv socket len flags) s)))"

text \<open>\<open>recvfrom\<close> polls once, whatever comes of it.\<close>

definition hook_recvfrom ::
    "'w poll1 \<Rightarrow> (int \<Rightarrow> nat \<Rightarrow> int \<Rightarrow> 'w call) \<Rightarrow> bRoutine \<Rightarrow> int \<Rightarrow> nat \<Rightarrow> int \<Rightarrow> 'w hst \<Rightarrow> int \<times> 'w hst" where
  "hook_recvfrom poll sys_recvfrom r socket len flags s = (case blocking_desc r socket s of
       None \<Rightarrow> sys (sys_recvfrom socket len flags) s
     | Some d \<Rightarrow>
         (case poll socket rd_events (timeout_ms (Rtimeout d)) s of (_, s) \<Rightarrow>
          sys (sys_recvfrom socket len flags) s))"

section \<open>Writing\<close>

text \<open>
  The loop of \<open>write\<close> and \<open>send\<close>: \<open>out off\<close> is the system call on the bytes from \<open>off\<close> on.
  It ends because every round writes something or is the last.
\<close>

function write_loop ::
    "'w poll1 \<Rightarrow> (nat \<Rightarrow> 'w call) \<Rightarrow> int \<Rightarrow> int \<Rightarrow> nat \<Rightarrow> nat \<Rightarrow> int \<Rightarrow> 'w hst \<Rightarrow> (nat \<times> int) \<times> 'w hst" where
  "write_loop poll out fd timeout nbyte wrotelen writeret s =
     (if wrotelen < nbyte then
        (case poll fd wr_events timeout s of (_, s) \<Rightarrow>
         case sys (out wrotelen) s of (writeret, s) \<Rightarrow>
         if writeret \<le> 0 then ((wrotelen, writeret), s)
         else write_loop poll out fd timeout nbyte (wrotelen + nat writeret) writeret s)
      else ((wrotelen, writeret), s))"
  by pat_completeness auto

termination
  by (relation "measure (\<lambda>(poll, out, fd, timeout, nbyte, wrotelen, writeret, s). nbyte - wrotelen)") auto

declare write_loop.simps [simp del]

definition write_all ::
    "'w poll1 \<Rightarrow> (nat \<Rightarrow> 'w call) \<Rightarrow> int \<Rightarrow> int \<Rightarrow> nat \<Rightarrow> 'w hst \<Rightarrow> int \<times> 'w hst" where
  "write_all poll out fd timeout nbyte s =
     (case sys (out 0) s of (writeret, s) \<Rightarrow>
      if writeret = 0 then (writeret, s)
      else
        case write_loop poll out fd timeout nbyte (if writeret > 0 then nat writeret else 0) writeret s of
          ((wrotelen, writeret), s) \<Rightarrow>
          if writeret \<le> 0 \<and> wrotelen = 0 then (writeret, s) else (int wrotelen, s))"

definition hook_write ::
    "'w poll1 \<Rightarrow> (int \<Rightarrow> 'b list \<Rightarrow> 'w call) \<Rightarrow> bRoutine \<Rightarrow> int \<Rightarrow> 'b list \<Rightarrow> 'w hst \<Rightarrow> int \<times> 'w hst" where
  "hook_write poll sys_write r fd buf s = (case blocking_desc r fd s of
       None \<Rightarrow> sys (sys_write fd buf) s
     | Some d \<Rightarrow> write_all poll (\<lambda>off. sys_write fd (drop off buf)) fd (timeout_ms (Wtimeout d)) (length buf) s)"

definition hook_send ::
    "'w poll1 \<Rightarrow> (int \<Rightarrow> 'b list \<Rightarrow> int \<Rightarrow> 'w call) \<Rightarrow> bRoutine \<Rightarrow> int \<Rightarrow> 'b list \<Rightarrow> int \<Rightarrow> 'w hst \<Rightarrow> int \<times> 'w hst" where
  "hook_send poll sys_send r socket buf flags s = (case blocking_desc r socket s of
       None \<Rightarrow> sys (sys_send socket buf flags) s
     | Some d \<Rightarrow> write_all poll (\<lambda>off. sys_send socket (drop off buf) flags) socket (timeout_ms (Wtimeout d)) (length buf) s)"

text \<open>\<open>sendto\<close> tries, waits once if the call would block, and tries again.\<close>

definition hook_sendto ::
    "'w poll1 \<Rightarrow> (int \<Rightarrow> 'b list \<Rightarrow> int \<Rightarrow> 'w call) \<Rightarrow> bRoutine \<Rightarrow> int \<Rightarrow> 'b list \<Rightarrow> int \<Rightarrow> 'w hst \<Rightarrow> int \<times> 'w hst" where
  "hook_sendto poll sys_sendto r socket msg flags s = (case blocking_desc r socket s of
       None \<Rightarrow> sys (sys_sendto socket msg flags) s
     | Some d \<Rightarrow>
         (case sys (sys_sendto socket msg flags) s of (ret, s) \<Rightarrow>
          if ret < 0 \<and> EAGAIN = errno s then
            (case poll socket wr_events (timeout_ms (Wtimeout d)) s of (_, s) \<Rightarrow>
             sys (sys_sendto socket msg flags) s)
          else (ret, s)))"

section \<open>Flags\<close>

definition F_DUPFD :: int where "F_DUPFD = 0"
definition F_GETFD :: int where "F_GETFD = 1"
definition F_SETFD :: int where "F_SETFD = 2"
definition F_GETFL :: int where "F_GETFL = 3"
definition F_SETFL :: int where "F_SETFL = 4"
definition F_GETLK :: int where "F_GETLK = 5"
definition F_SETLK :: int where "F_SETLK = 6"
definition F_SETLKW :: int where "F_SETLKW = 7"
definition F_SETOWN :: int where "F_SETOWN = 8"
definition F_GETOWN :: int where "F_GETOWN = 9"

text \<open>The third argument of \<open>fcntl\<close>: none, an \<open>int\<close>, or the address of a lock.\<close>

datatype farg = NoArg | IntArg u32 | LockArg nat

type_synonym 'w fcntl = "int \<Rightarrow> int \<Rightarrow> farg \<Rightarrow> 'w call"

text \<open>\<open>param\<close> and \<open>lockp\<close> are what \<open>va_arg\<close> reads as an \<open>int\<close> and as a pointer.\<close>

definition hook_fcntl ::
    "'w fcntl \<Rightarrow> bRoutine \<Rightarrow> int \<Rightarrow> int \<Rightarrow> u32 \<Rightarrow> nat \<Rightarrow> 'w hst \<Rightarrow> int \<times> 'w hst" where
  "hook_fcntl sys_fcntl r fildes cmd param lockp s =
     (if fildes < 0 then (357, s)
      else let lp = getFileDesc fildes s in
      if cmd = F_DUPFD then sys (sys_fcntl fildes cmd (IntArg param)) s
      else if cmd = F_GETFD then sys (sys_fcntl fildes cmd NoArg) s
      else if cmd = F_SETFD then sys (sys_fcntl fildes cmd (IntArg param)) s
      else if cmd = F_GETFL then
        (case sys (sys_fcntl fildes cmd NoArg) s of (ret, s) \<Rightarrow>
         case lp of None \<Rightarrow> (ret, s)
         | Some d \<Rightarrow> (if userFlags d AND O_NONBLOCK \<noteq> 0 then ret
                      else sint ((word_of_int ret :: u32) AND NOT O_NONBLOCK), s))
      else if cmd = F_SETFL then
        let flag = if isEnableHook r \<and> lp \<noteq> None then param OR O_NONBLOCK else param in
        (case sys (sys_fcntl fildes cmd (IntArg flag)) s of (ret, s) \<Rightarrow>
         (ret, if ret = 0 \<and> lp \<noteq> None then upd_desc fildes (\<lambda>d. d\<lparr>userFlags := param\<rparr>) s else s))
      else if cmd = F_GETOWN then sys (sys_fcntl fildes cmd NoArg) s
      else if cmd = F_SETOWN then sys (sys_fcntl fildes cmd (IntArg param)) s
      else if cmd = F_GETLK \<or> cmd = F_SETLK \<or> cmd = F_SETLKW
        then sys (sys_fcntl fildes cmd (LockArg lockp)) s
      else (- 1, s))"

section \<open>Making and closing sockets\<close>

definition hook_socket ::
    "(int \<Rightarrow> int \<Rightarrow> int \<Rightarrow> 'w call) \<Rightarrow> 'w fcntl \<Rightarrow> bRoutine \<Rightarrow> int \<Rightarrow> int \<Rightarrow> int \<Rightarrow> 'w hst \<Rightarrow> (int \<times> 'w hst) prog" where
  "hook_socket sys_socket sys_fcntl r domain type protocol s =
     (if \<not> isEnableHook r then Ret (sys (sys_socket domain type protocol) s)
      else case sys (sys_socket domain type protocol) s of (fd, s) \<Rightarrow>
        if fd < 0 then Ret (fd, s)
        else pbind (allocFileDesc fd s) (\<lambda>s.
          let s = upd_desc fd (\<lambda>d. d\<lparr>fd_domain := domain\<rparr>) s in
          case sys (sys_fcntl fd F_GETFL (IntArg 0)) s of (flags, s) \<Rightarrow>
          case hook_fcntl sys_fcntl r fd F_SETFL (word_of_int flags) 0 s of (_, s) \<Rightarrow> Ret (fd, s)))"

definition hook_accept :: "(int \<Rightarrow> 'w call) \<Rightarrow> bRoutine \<Rightarrow> int \<Rightarrow> 'w hst \<Rightarrow> (int \<times> 'w hst) prog" where
  "hook_accept sys_accept r fd s =
     (if \<not> isEnableHook r then Ret (sys (sys_accept fd) s)
      else case sys (sys_accept fd) s of (cli, s) \<Rightarrow>
        if cli < 0 then Ret (cli, s)
        else pbind (allocFileDesc cli s) (\<lambda>s. Ret (cli, s)))"

definition hook_close :: "(int \<Rightarrow> 'w call) \<Rightarrow> bRoutine \<Rightarrow> int \<Rightarrow> 'w hst \<Rightarrow> int \<times> 'w hst" where
  "hook_close sys_close r fd s =
     (if \<not> isEnableHook r then sys (sys_close fd) s
      else sys (sys_close fd) (freeFileDesc fd s))"

definition hook_setsockopt ::
    "(int \<Rightarrow> int \<Rightarrow> int \<Rightarrow> 'o \<Rightarrow> nat \<Rightarrow> 'w call) \<Rightarrow> ('o \<Rightarrow> timeval) \<Rightarrow> bRoutine \<Rightarrow> int \<Rightarrow> int \<Rightarrow> int \<Rightarrow> 'o \<Rightarrow> nat \<Rightarrow> 'w hst \<Rightarrow> int \<times> 'w hst" where
  "hook_setsockopt sys_setsockopt as_timeval r fd level option_name option_value option_len s =
     (if \<not> isEnableHook r then sys (sys_setsockopt fd level option_name option_value option_len) s
      else
        let s = (if getFileDesc fd s \<noteq> None \<and> level = SOL_SOCKET then
                   if option_name = SO_RCVTIMEO then upd_desc fd (\<lambda>d. d\<lparr>Rtimeout := as_timeval option_value\<rparr>) s
                   else if option_name = SO_SNDTIMEO then upd_desc fd (\<lambda>d. d\<lparr>Wtimeout := as_timeval option_value\<rparr>) s
                   else s
                 else s)
        in sys (sys_setsockopt fd level option_name option_value option_len) s)"

text \<open>
  The loop of \<open>connect\<close>, at most three waits of 25 s: the \<open>revents\<close> of the last.
\<close>

fun connect_wait :: "'w poll1 \<Rightarrow> int \<Rightarrow> nat \<Rightarrow> u16 \<Rightarrow> 'w hst \<Rightarrow> u16 \<times> 'w hst" where
  "connect_wait poll fd 0 revents s = (revents, s)"
| "connect_wait poll fd (Suc n) revents s =
     (case poll fd wr_events 25000 s of ((pollret, revents), s) \<Rightarrow>
      if pollret = 1 then (revents, s) else connect_wait poll fd n revents s)"

text \<open>\<open>sys_getsockopt\<close> is \<open>getsockopt(fd, SOL_SOCKET, SO_ERROR, ..)\<close> with the error it reads.\<close>

definition connect_result ::
    "(int \<Rightarrow> int \<Rightarrow> 'w \<Rightarrow> (int \<times> int) \<times> int \<times> 'w) \<Rightarrow> int \<Rightarrow> int \<Rightarrow> u16 \<Rightarrow> 'w hst \<Rightarrow> int \<times> 'w hst" where
  "connect_result sys_getsockopt fd ret revents s =
     (if revents AND POLLOUT \<noteq> 0 then
        (case sys_getsockopt fd (errno s) (world s) of ((ret, err), e, w) \<Rightarrow>
         let s = s\<lparr>errno := e, world := w\<rparr> in
         if ret < 0 then (ret, s)
         else if err \<noteq> 0 then (- 1, s\<lparr>errno := err\<rparr>)
         else (0, s\<lparr>errno := 0\<rparr>))
      else (ret, s\<lparr>errno := ETIMEDOUT\<rparr>))"

definition hook_connect ::
    "'w poll1 \<Rightarrow> (int \<Rightarrow> nat list \<Rightarrow> 'w call) \<Rightarrow> (int \<Rightarrow> int \<Rightarrow> 'w \<Rightarrow> (int \<times> int) \<times> int \<times> 'w) \<Rightarrow>
     bRoutine \<Rightarrow> int \<Rightarrow> nat list \<Rightarrow> 'w hst \<Rightarrow> int \<times> 'w hst" where
  "hook_connect poll sys_connect sys_getsockopt r fd address s =
     (if \<not> isEnableHook r then sys (sys_connect fd address) s
      else case sys (sys_connect fd address) s of (ret, s) \<Rightarrow>
        case getFileDesc fd s of None \<Rightarrow> (ret, s)
        | Some d \<Rightarrow>
            let s = (if length address \<le> 16
                     then upd_desc fd (\<lambda>d. d\<lparr>fd_addr := address @ drop (length address) (fd_addr d)\<rparr>) s else s) in
            if userFlags d AND O_NONBLOCK \<noteq> 0 then (ret, s)
            else if \<not> (ret < 0 \<and> errno s = EINPROGRESS) then (ret, s)
            else case connect_wait poll fd 3 0 s of (revents, s) \<Rightarrow>
              connect_result sys_getsockopt fd ret revents s)"

section \<open>Reading waits until the descriptor is ready\<close>

lemma wait_readable_step:
  "wait_readable poll fd timeout s =
     (if fst (fst (poll fd rd_events timeout s)) = 0
      then wait_readable poll fd timeout (snd (poll fd rd_events timeout s))
      else Ret (snd (poll fd rd_events timeout s)))"
  by (subst wait_readable.simps) (simp add: case_prod_beta' Let_def)

definition polled :: "'w poll1 \<Rightarrow> int \<Rightarrow> u16 \<Rightarrow> int \<Rightarrow> nat \<Rightarrow> 'w hst \<Rightarrow> 'w hst" where
  "polled poll fd ev timeout n = ((\<lambda>s. snd (poll fd ev timeout s)) ^^ n)"

lemma polled_0 [simp]: "polled poll fd ev timeout 0 s = s"
  by (simp add: polled_def)

lemma polled_Suc: "polled poll fd ev timeout (Suc n) s = polled poll fd ev timeout n (snd (poll fd ev timeout s))"
  by (simp add: polled_def funpow_Suc_right del: funpow.simps)

definition expires :: "'w poll1 \<Rightarrow> int \<Rightarrow> int \<Rightarrow> nat \<Rightarrow> 'w hst \<Rightarrow> bool" where
  "expires poll fd timeout k s = (fst (fst (poll fd rd_events timeout (polled poll fd rd_events timeout k s))) = 0)"

lemma expires_Suc: "expires poll fd timeout (Suc k) s = expires poll fd timeout k (snd (poll fd rd_events timeout s))"
  by (simp add: expires_def polled_Suc)

lemma wait_readable_ready:
  assumes "\<forall>k<n. expires poll fd timeout k s" and "\<not> expires poll fd timeout n s"
  shows "wait_readable poll fd timeout s = Ret (polled poll fd rd_events timeout (Suc n) s)"
  using assms
proof (induction n arbitrary: s)
  case 0
  then show ?case by (subst wait_readable_step) (simp add: expires_def polled_Suc)
next
  case (Suc n)
  have "expires poll fd timeout 0 s" using Suc.prems(1) by blast
  moreover have "\<forall>k<n. expires poll fd timeout k (snd (poll fd rd_events timeout s))"
    using Suc.prems(1) by (simp add: expires_Suc [symmetric])
  moreover have "\<not> expires poll fd timeout n (snd (poll fd rd_events timeout s))"
    using Suc.prems(2) by (simp add: expires_Suc)
  ultimately show ?case
    using Suc.IH [of "snd (poll fd rd_events timeout s)"]
    by (subst wait_readable_step) (simp add: expires_def polled_Suc)
qed

text \<open>A fixpoint argument: no approximation of the loop returns while every poll expires.\<close>

lemma wait_readable_result:
  assumes "wait_readable poll fd timeout s = Some r"
  shows "\<exists>k. \<not> expires poll fd timeout k s"
proof (rule wait_readable.raw_induct
    [where P = "\<lambda>poll fd timeout s r. \<exists>k. \<not> expires poll fd timeout k s", OF _ assms])
  fix wr :: "'a poll1 \<Rightarrow> int \<Rightarrow> int \<Rightarrow> 'a hst \<Rightarrow> 'a hst prog"
    and poll :: "'a poll1" and fd timeout :: int and s :: "'a hst" and y
  assume IH: "\<And>poll fd timeout s r. wr poll fd timeout s = Some r \<Longrightarrow> \<exists>k. \<not> expires poll fd timeout k s"
    and body: "(let (r, s) = poll fd rd_events timeout s in
                if fst r = 0 then wr poll fd timeout s else Ret s) = Some y"
  show "\<exists>k. \<not> expires poll fd timeout k s"
  proof (cases "fst (fst (poll fd rd_events timeout s)) = 0")
    case True
    then have "wr poll fd timeout (snd (poll fd rd_events timeout s)) = Some y"
      using body by (simp add: case_prod_beta' Let_def)
    then obtain k where "\<not> expires poll fd timeout k (snd (poll fd rd_events timeout s))"
      using IH by blast
    then show ?thesis by (auto simp: expires_Suc [symmetric])
  next
    case False
    then have "\<not> expires poll fd timeout 0 s" by (simp add: expires_def)
    then show ?thesis by blast
  qed
qed

lemma wait_readable_never:
  "wait_readable poll fd timeout s = None \<longleftrightarrow> (\<forall>k. expires poll fd timeout k s)"
proof
  assume none: "wait_readable poll fd timeout s = None"
  show "\<forall>k. expires poll fd timeout k s"
  proof (rule ccontr)
    assume "\<not> ?thesis"
    then have ex: "\<exists>k. \<not> expires poll fd timeout k s" by blast
    define n where "n = (LEAST k. \<not> expires poll fd timeout k s)"
    have "\<not> expires poll fd timeout n s" unfolding n_def by (rule LeastI_ex [OF ex])
    moreover have "\<forall>k<n. expires poll fd timeout k s" unfolding n_def using not_less_Least by blast
    ultimately show False using wait_readable_ready [of n poll fd timeout s] none by simp
  qed
next
  assume "\<forall>k. expires poll fd timeout k s"
  then show "wait_readable poll fd timeout s = None"
    using wait_readable_result by (cases "wait_readable poll fd timeout s") fastforce+
qed

text \<open>
  C12: \<open>read\<close> of a registered, blocking descriptor waits with the descriptor's receive timeout as
  often as the waits expire, and calls the system's \<open>read\<close> once, right after the first wait
  that does not expire. It fails to return exactly when every wait expires: the receive timeout
  never makes it return.
\<close>

theorem read_waits_until_ready:
  fixes sys_read :: "int \<Rightarrow> nat \<Rightarrow> 'w call"
  assumes desc: "blocking_desc r fd s = Some d"
  shows "((\<forall>k<n. expires poll fd (timeout_ms (Rtimeout d)) k s) \<and> \<not> expires poll fd (timeout_ms (Rtimeout d)) n s \<longrightarrow>
           hook_read poll sys_read r fd nbyte s =
             Ret (sys (sys_read fd nbyte) (polled poll fd rd_events (timeout_ms (Rtimeout d)) (Suc n) s))) \<and>
         (hook_read poll sys_read r fd nbyte s = None \<longleftrightarrow> (\<forall>k. expires poll fd (timeout_ms (Rtimeout d)) k s))"
  using wait_readable_never [of poll fd "timeout_ms (Rtimeout d)" s]
  by (auto simp: hook_read_def desc wait_readable_ready pbind_eq_None_iff)

section \<open>Writing delivers a prefix, and all of it when no call fails\<close>

text \<open>
  What the write loop relies on: the system call takes a prefix of the bytes it is given, as
  long as its result, and waiting does not write to the descriptor. \<open>got\<close> is what the peer of
  the descriptor has been given so far.
\<close>

definition takes_prefix :: "('w \<Rightarrow> 'b list) \<Rightarrow> ('b list \<Rightarrow> 'w call) \<Rightarrow> bool" where
  "takes_prefix got out = (\<forall>bs e w. case out bs e w of (n, e', w') \<Rightarrow>
     n \<le> int (length bs) \<and> got w' = got w @ take (nat n) bs)"

definition poll_keeps :: "('w \<Rightarrow> 'a) \<Rightarrow> 'w poll1 \<Rightarrow> bool" where
  "poll_keeps got poll = (\<forall>fd ev t s. got (world (snd (poll fd ev t s))) = got (world s))"

definition always_some :: "('b list \<Rightarrow> 'w call) \<Rightarrow> bool" where
  "always_some out = (\<forall>bs e w. bs \<noteq> [] \<longrightarrow> 0 < fst (out bs e w))"

lemma takes_prefixD:
  assumes "takes_prefix got out" and "sys (out bs) s = (n, s')"
  shows "n \<le> int (length bs)" and "got (world s') = got (world s) @ take (nat n) bs"
proof -
  obtain e' w' where c: "out bs (errno s) (world s) = (n, e', w')" and s': "s' = s\<lparr>errno := e', world := w'\<rparr>"
    using assms(2) by (auto simp: sys_def split: prod.splits)
  have "n \<le> int (length bs) \<and> got w' = got (world s) @ take (nat n) bs"
  proof -
    have "case out bs (errno s) (world s) of (n, e', w') \<Rightarrow>
        n \<le> int (length bs) \<and> got w' = got (world s) @ take (nat n) bs"
      using assms(1) unfolding takes_prefix_def
      by (elim allE [where x = bs] allE [where x = "errno s"] allE [where x = "world s"])
    then show ?thesis by (simp add: c)
  qed
  then show "n \<le> int (length bs)" and "got (world s') = got (world s) @ take (nat n) bs"
    by (simp_all add: s')
qed

lemma always_someD:
  "always_some out \<Longrightarrow> sys (out bs) s = (n, s') \<Longrightarrow> bs \<noteq> [] \<Longrightarrow> 0 < n"
  by (auto simp: always_some_def sys_def split: prod.splits) (metis fst_conv)

lemma take_more: "take (n + m) xs = take n xs @ take m (drop n xs)"
  by (simp add: take_add)

lemma write_loop_prefix:
  fixes out :: "'b list \<Rightarrow> 'w call"
  assumes "takes_prefix got out" and "poll_keeps got poll" and "wrotelen \<le> length buf"
    and "write_loop poll (\<lambda>off. out (drop off buf)) fd timeout (length buf) wrotelen ret s = ((m, ret'), s')"
    and "got (world s) = old @ take wrotelen buf"
  shows "wrotelen \<le> m \<and> m \<le> length buf \<and> got (world s') = old @ take m buf \<and>
         (m < length buf \<longrightarrow> ret' \<le> 0) \<and> (always_some out \<longrightarrow> m = length buf)"
  using assms(3-5)
proof (induction "length buf - wrotelen" arbitrary: wrotelen ret s rule: less_induct)
  case less
  show ?case
  proof (cases "wrotelen < length buf")
    case False
    then show ?thesis using less.prems by (subst (asm) write_loop.simps) simp
  next
    case True
    define s1 where "s1 = snd (poll fd wr_events timeout s)"
    obtain n s2 where n: "sys (out (drop wrotelen buf)) s1 = (n, s2)" by fastforce
    have gs1: "got (world s1) = old @ take wrotelen buf"
      using assms(2) less.prems(3) by (simp add: poll_keeps_def s1_def)
    note out = takes_prefixD [where bs = "drop wrotelen buf", OF assms(1) n]
    have loop: "write_loop poll (\<lambda>off. out (drop off buf)) fd timeout (length buf) wrotelen ret s =
        (if n \<le> 0 then ((wrotelen, n), s2)
         else write_loop poll (\<lambda>off. out (drop off buf)) fd timeout (length buf) (wrotelen + nat n) n s2)"
      using True n by (subst write_loop.simps) (simp add: s1_def case_prod_beta')
    show ?thesis
    proof (cases "n \<le> 0")
      case nonpos: True
      have "\<not> always_some out" using always_someD [where bs = "drop wrotelen buf" and out = out, OF _ n] True nonpos by fastforce
      then show ?thesis using less.prems loop nonpos out gs1 True by auto
    next
      case False
      have "got (world s2) = old @ take (wrotelen + nat n) buf"
        using out(2) gs1 by (simp add: take_more)
      moreover have "wrotelen + nat n \<le> length buf" using out(1) True by simp
      moreover have "length buf - (wrotelen + nat n) < length buf - wrotelen" using False True by simp
      ultimately show ?thesis
        using less.hyps [of "wrotelen + nat n" n s2] less.prems(2) loop False by auto
    qed
  qed
qed

definition delivered :: "('w \<Rightarrow> 'b list) \<Rightarrow> 'w hst \<Rightarrow> 'b list \<Rightarrow> int \<times> 'w hst \<Rightarrow> bool" where
  "delivered got s buf res = (case res of (n, s') \<Rightarrow>
     n \<le> int (length buf) \<and> got (world s') = got (world s) @ take (nat n) buf)"

lemma write_all_delivers:
  fixes out :: "'b list \<Rightarrow> 'w call"
  assumes "takes_prefix got out" and "poll_keeps got poll"
    and res: "res = write_all poll (\<lambda>off. out (drop off buf)) fd timeout (length buf) s"
  shows "delivered got s buf res \<and> (always_some out \<and> buf \<noteq> [] \<longrightarrow> fst res = int (length buf))"
proof -
  obtain n s1 where n: "sys (out buf) s = (n, s1)" by fastforce
  note out = takes_prefixD [where bs = buf, OF assms(1) n]
  obtain m ret' s' where
    loop: "write_loop poll (\<lambda>off. out (drop off buf)) fd timeout (length buf) (nat n) n s1 = ((m, ret'), s')"
    by (metis prod.exhaust)
  have start: "nat n \<le> length buf" using out(1) by simp
  note more = write_loop_prefix [OF assms(1,2) start loop out(2)]
  have "(if n > 0 then nat n else 0) = nat n" by simp
  then have val: "res = (if n = 0 then (n, s1)
      else if ret' \<le> 0 \<and> m = 0 then (ret', s') else (int m, s'))"
    using n loop by (simp add: res write_all_def)
  show ?thesis
  proof (cases "n = 0")
    case True
    have "buf = [] \<or> \<not> always_some out" using True always_someD [where bs = buf and out = out, OF _ n] by fastforce
    then show ?thesis using val True out by (auto simp: delivered_def)
  next
    case False
    then show ?thesis using val more by (auto simp: delivered_def)
  qed
qed

text \<open>
  C11: \<open>write\<close> and \<open>send\<close>, on a descriptor that blocks or not, hand the system a prefix of the
  buffer and nothing else, as long as the number they return (none when it is negative), for
  every way the system cuts the calls short. On a blocking descriptor, while no call fails or
  writes nothing, they return only when the whole buffer is written.
\<close>

theorem write_delivers_a_prefix:
  fixes sys_write :: "int \<Rightarrow> 'b list \<Rightarrow> 'w call" and sys_send :: "int \<Rightarrow> 'b list \<Rightarrow> int \<Rightarrow> 'w call"
  assumes wr: "takes_prefix got (sys_write fd)" and sd: "takes_prefix got (\<lambda>bs. sys_send fd bs flags)"
    and po: "poll_keeps got poll"
  shows "delivered got s buf (hook_write poll sys_write r fd buf s) \<and>
         delivered got s buf (hook_send poll sys_send r fd buf flags s) \<and>
         (blocking_desc r fd s \<noteq> None \<and> buf \<noteq> [] \<longrightarrow>
            (always_some (sys_write fd) \<longrightarrow> fst (hook_write poll sys_write r fd buf s) = int (length buf)) \<and>
            (always_some (\<lambda>bs. sys_send fd bs flags) \<longrightarrow>
               fst (hook_send poll sys_send r fd buf flags s) = int (length buf)))"
proof (cases "blocking_desc r fd s")
  case None
  then show ?thesis
    using takes_prefixD [OF wr, where bs = buf and s = s] takes_prefixD [OF sd, where bs = buf and s = s]
    by (auto simp: hook_write_def hook_send_def delivered_def split: prod.splits)
next
  case (Some d)
  let ?t = "timeout_ms (Wtimeout d)"
  show ?thesis
    using write_all_delivers [OF wr po refl, where buf = buf and fd = fd and timeout = ?t and s = s]
      write_all_delivers [OF sd po refl, where buf = buf and fd = fd and timeout = ?t and s = s] Some
    by (simp add: hook_write_def hook_send_def)
qed

section \<open>The non-blocking flag stays hidden\<close>

lemma bit_O_NONBLOCK: "bit O_NONBLOCK i \<longleftrightarrow> i = 11"
proof -
  have nb: "O_NONBLOCK = 2 ^ 11" by (simp add: O_NONBLOCK_def)
  have "bit O_NONBLOCK i \<longleftrightarrow> possible_bit TYPE(u32) i \<and> 11 = i" unfolding nb bit_exp_iff by blast
  then show ?thesis by auto
qed

lemma nonblock_iff: "w AND O_NONBLOCK \<noteq> 0 \<longleftrightarrow> bit w 11"
proof -
  have nb: "O_NONBLOCK = 2 ^ 11" by (simp add: O_NONBLOCK_def)
  show ?thesis by (simp only: nb and_exp_eq_0_iff_not_bit not_not)
qed

text \<open>
  The documented behaviour of \<open>fcntl\<close>, which may fail at any call: \<open>F_SETFL\<close> returns 0 and has
  then set the status flags in \<open>settable\<close>, which has \<open>O_NONBLOCK\<close>, or returns -1, and nothing is
  said about the flags; \<open>F_GETFL\<close> returns the flags or -1.
\<close>

definition fcntl_spec :: "'w fcntl \<Rightarrow> ('w \<Rightarrow> int \<Rightarrow> u32) \<Rightarrow> u32 \<Rightarrow> bool" where
  "fcntl_spec sys_fcntl kf settable \<longleftrightarrow> bit settable 11 \<and>
     (\<forall>fd x e w. case sys_fcntl fd F_SETFL (IntArg x) e w of (ret, e', w') \<Rightarrow>
        ret = - 1 \<or> ret = 0 \<and> kf w' fd = (kf w fd AND NOT settable) OR (x AND settable)) \<and>
     (\<forall>fd a e w. fst (sys_fcntl fd F_GETFL a e w) \<in> {- 1, sint (kf w fd)})"

lemmas fcntl_cmds = F_DUPFD_def F_GETFD_def F_SETFD_def F_GETFL_def F_SETFL_def F_GETLK_def
  F_SETLK_def F_SETLKW_def F_SETOWN_def F_GETOWN_def

lemma hook_fcntl_cases:
  assumes "0 \<le> fd"
  shows "hook_fcntl sys_fcntl r fd F_GETFL param lockp s =
      (case sys (sys_fcntl fd F_GETFL NoArg) s of (ret, s1) \<Rightarrow> case getFileDesc fd s of None \<Rightarrow> (ret, s1)
         | Some d \<Rightarrow> (if userFlags d AND O_NONBLOCK \<noteq> 0 then ret
                      else sint ((word_of_int ret :: u32) AND NOT O_NONBLOCK), s1))"
    and "hook_fcntl sys_fcntl r fd F_SETFL param lockp s =
      (case sys (sys_fcntl fd F_SETFL (IntArg (if isEnableHook r \<and> getFileDesc fd s \<noteq> None
         then param OR O_NONBLOCK else param))) s of (ret, s1) \<Rightarrow>
         (ret, if ret = 0 \<and> getFileDesc fd s \<noteq> None then upd_desc fd (\<lambda>d. d\<lparr>userFlags := param\<rparr>) s1 else s1))"
  using assms by (simp_all add: hook_fcntl_def fcntl_cmds Let_def)

lemma sys_fields:
  "sys c s = (n, s1) \<Longrightarrow> hooksFdSet s1 = hooksFdSet s \<and>
     n = fst (c (errno s) (world s)) \<and> world s1 = snd (snd (c (errno s) (world s)))"
  by (auto simp: sys_def split: prod.splits)

lemma sys_table: "sys c s = (n, s1) \<Longrightarrow> sys c (s\<lparr>hooksFdSet := T\<rparr>) = (n, s1\<lparr>hooksFdSet := T\<rparr>)"
  by (auto simp: sys_def split: prod.splits)

lemma getFileDesc_upd:
  "getFileDesc fd (upd_desc fd' f s) = (if fd = fd' then map_option f (getFileDesc fd s) else getFileDesc fd s)"
  by (simp add: getFileDesc_def upd_desc_def)

lemma getFileDesc_same: "hooksFdSet s1 = hooksFdSet s \<Longrightarrow> getFileDesc fd s1 = getFileDesc fd s"
  by (simp add: getFileDesc_def)

lemma upd_desc_world [simp]: "world (upd_desc fd f s) = world s" "errno (upd_desc fd f s) = errno s"
  by (simp_all add: upd_desc_def)

lemma fcntl_specD:
  assumes spec: "fcntl_spec sys_fcntl kf m"
  shows "bit m 11"
    and "sys (sys_fcntl fd F_SETFL (IntArg x)) s = (ret, s1) \<Longrightarrow>
      ret = - 1 \<or> ret = 0 \<and> kf (world s1) fd = (kf (world s) fd AND NOT m) OR (x AND m)"
    and "sys (sys_fcntl fd F_GETFL a) s = (n, s1) \<Longrightarrow> n \<in> {- 1, sint (kf (world s) fd)}"
proof -
  show "bit m 11" using spec by (simp add: fcntl_spec_def)
  assume "sys (sys_fcntl fd F_SETFL (IntArg x)) s = (ret, s1)"
  note f = sys_fields [OF this]
  have "case sys_fcntl fd F_SETFL (IntArg x) (errno s) (world s) of (ret, e', w') \<Rightarrow>
      ret = - 1 \<or> ret = 0 \<and> kf w' fd = (kf (world s) fd AND NOT m) OR (x AND m)"
    using spec unfolding fcntl_spec_def by (elim conjE allE)
  then show "ret = - 1 \<or> ret = 0 \<and> kf (world s1) fd = (kf (world s) fd AND NOT m) OR (x AND m)"
    using f by (simp add: case_prod_beta')
next
  assume "sys (sys_fcntl fd F_GETFL a) s = (n, s1)"
  then have "n = fst (sys_fcntl fd F_GETFL a (errno s) (world s))" by (rule sys_fields [THEN conjunct2, THEN conjunct1])
  then show "n \<in> {- 1, sint (kf (world s) fd)}" using spec unfolding fcntl_spec_def by blast
qed

text \<open>What the hooked \<open>F_SETFL\<close> of a registered descriptor does, by the result of the system's.\<close>

lemma setfl_result:
  assumes desc: "getFileDesc fd s = Some d" and en: "isEnableHook r"
    and call: "sys (sys_fcntl fd F_SETFL (IntArg (p OR O_NONBLOCK))) s = (ret, s2)"
  shows "hook_fcntl sys_fcntl r fd F_SETFL p lockp s =
      (ret, if ret = 0 then upd_desc fd (\<lambda>d. d\<lparr>userFlags := p\<rparr>) s2 else s2)"
    and "0 \<le> fd" and "getFileDesc fd s2 = Some d"
proof -
  show fd: "0 \<le> fd" using desc by (auto simp: getFileDesc_def split: if_splits)
  show "hook_fcntl sys_fcntl r fd F_SETFL p lockp s =
      (ret, if ret = 0 then upd_desc fd (\<lambda>d. d\<lparr>userFlags := p\<rparr>) s2 else s2)"
    using call desc en by (simp add: hook_fcntl_cases [OF fd])
  show "getFileDesc fd s2 = Some d" using sys_fields [OF call] desc getFileDesc_same by metis
qed

lemma hidden_flag:
  assumes "bit m 11"
  shows "bit (((k :: u32) AND NOT m) OR ((p OR O_NONBLOCK) AND m)) 11"
    and "bit p 11 \<Longrightarrow> (k AND NOT m) OR ((p OR O_NONBLOCK) AND m) = (k AND NOT m) OR (p AND m)"
    and "\<not> bit p 11 \<Longrightarrow> ((k AND NOT m) OR ((p OR O_NONBLOCK) AND m)) AND NOT O_NONBLOCK = (k AND NOT m) OR (p AND m)"
  using assms by (auto intro!: bit_word_eqI simp: bit_simps bit_O_NONBLOCK)

text \<open>The mask applied to the -1 of a call that failed.\<close>

lemma masked_error: "sint ((word_of_int (- 1) :: u32) AND NOT O_NONBLOCK) = - 2049"
  by (simp add: O_NONBLOCK_def)

text \<open>
  C13: For a routine with hooks enabled and a registered descriptor, setting the flags \<open>p\<close> asks the
  system for \<open>p\<close> with \<open>O_NONBLOCK\<close> and returns the system's answer. If that is 0 the system's
  descriptor is non-blocking whatever \<open>p\<close> says, and yet a \<open>F_GETFL\<close> that succeeds answers what it
  would have answered had the system been given \<open>p\<close> itself, and the hooked calls wait on the
  descriptor exactly when \<open>p\<close> has no \<open>O_NONBLOCK\<close>; a \<open>F_GETFL\<close> that fails answers -1 only when
  \<open>p\<close> has \<open>O_NONBLOCK\<close>, and otherwise -2049, the -1 of the system under the mask. If the system
  refused, the answer is -1 and the descriptor is treated as before.
\<close>

theorem flags_stay_hidden:
  assumes spec: "fcntl_spec sys_fcntl kf m" and desc: "getFileDesc fd s = Some d"
    and en: "isEnableHook r" and set: "hook_fcntl sys_fcntl r fd F_SETFL p lockp s = (ret, s1)"
  shows "ret = fst (sys (sys_fcntl fd F_SETFL (IntArg (p OR O_NONBLOCK))) s) \<and>
    (if ret = 0 then
       kf (world s1) fd AND O_NONBLOCK \<noteq> 0 \<and>
       fst (hook_fcntl sys_fcntl r fd F_GETFL q lockp s1) =
         (if fst (sys (sys_fcntl fd F_GETFL NoArg) s1) \<noteq> - 1 then sint ((kf (world s) fd AND NOT m) OR (p AND m))
          else if p AND O_NONBLOCK \<noteq> 0 then - 1 else - 2049) \<and>
       (blocking_desc r fd s1 = None \<longleftrightarrow> p AND O_NONBLOCK \<noteq> 0)
     else ret = - 1 \<and> getFileDesc fd s1 = Some d \<and> blocking_desc r fd s1 = blocking_desc r fd s)"
proof -
  obtain n s2 where n: "sys (sys_fcntl fd F_SETFL (IntArg (p OR O_NONBLOCK))) s = (n, s2)" by fastforce
  note R = setfl_result [where sys_fcntl = sys_fcntl and p = p, OF desc en n]
  have v: "ret = n" "s1 = (if n = 0 then upd_desc fd (\<lambda>d. d\<lparr>userFlags := p\<rparr>) s2 else s2)"
    using set unfolding R(1) by auto
  show ?thesis
  proof (cases "n = 0")
    case True
    have kf: "kf (world s1) fd = (kf (world s) fd AND NOT m) OR ((p OR O_NONBLOCK) AND m)"
      using fcntl_specD(2) [OF spec n] True by (simp add: v)
    have d1: "getFileDesc fd s1 = Some (d\<lparr>userFlags := p\<rparr>)" by (simp add: v True getFileDesc_upd R(3))
    note h = hidden_flag [OF fcntl_specD(1) [OF spec], where k = "kf (world s) fd" and p = p]
    obtain g s3 where g: "sys (sys_fcntl fd F_GETFL NoArg) s1 = (g, s3)" by fastforce
    have "fst (hook_fcntl sys_fcntl r fd F_GETFL q lockp s1) =
        (if g \<noteq> - 1 then sint ((kf (world s) fd AND NOT m) OR (p AND m)) else if p AND O_NONBLOCK \<noteq> 0 then - 1 else - 2049)"
      using fcntl_specD(3) [OF spec g] h masked_error
      by (auto simp: hook_fcntl_cases [OF R(2)] g d1 kf nonblock_iff)
    then show ?thesis using True v(1) n g d1 en h(1) by (simp add: kf nonblock_iff blocking_desc_def)
  next
    case False
    then show ?thesis
      using fcntl_specD(2) [OF spec n] v n R(3) desc by (auto simp: blocking_desc_def)
  qed
qed

section \<open>Descriptors of new sockets\<close>

definition table_ok :: "'w hst \<Rightarrow> bool" where
  "table_ok s \<longleftrightarrow> dom (hooksFdSet s) \<subseteq> {0..<HookContralFdNums}"

text \<open>
  C36: A socket made by \<open>socket\<close> with hooks enabled is registered with its domain and the default
  timeouts of a second, and the system is asked for its flags and then to set them with
  \<open>O_NONBLOCK\<close>. Neither answer is looked at. If the second is 0 the system's descriptor is
  non-blocking and the answer of the first, the flags or the -1 of a failure, is what the hooks take
  for the program's flags; after -1 they are all set, and the hooks never wait on the descriptor. If
  the second is not 0 the descriptor stays as the system made it and yet counts as blocking. A
  socket made by \<open>accept\<close> is registered with the defaults, and the system is asked nothing. Neither
  looks at the size of the table: a descriptor past it is stored out of bounds.
\<close>

theorem new_sockets_registered:
  assumes spec: "fcntl_spec sys_fcntl kf m" and en: "isEnableHook r"
    and sock: "sys (sys_socket domain type protocol) s = (fd, s1)"
    and get: "sys (sys_fcntl fd F_GETFL (IntArg 0)) s1 = (flags, s2)"
    and set: "sys (sys_fcntl fd F_SETFL (IntArg (word_of_int flags OR O_NONBLOCK))) s2 = (ret, s3)"
    and acc: "sys (sys_accept lfd) s = (cli, s4)" and fd: "0 \<le> fd" "0 \<le> cli"
  shows "(if fd < HookContralFdNums then
            \<exists>s'. hook_socket sys_socket sys_fcntl r domain type protocol s = Ret (fd, s') \<and>
              getFileDesc fd s' = Some (new_fileDesc\<lparr>fd_domain := domain, userFlags := if ret = 0 then word_of_int flags else 0\<rparr>) \<and>
              (blocking_desc r fd s' = None \<longleftrightarrow> ret = 0 \<and> (flags = - 1 \<or> kf (world s1) fd AND O_NONBLOCK \<noteq> 0)) \<and>
              world s' = world s3 \<and> (ret = 0 \<longrightarrow> kf (world s') fd AND O_NONBLOCK \<noteq> 0) \<and> (table_ok s \<longrightarrow> table_ok s')
          else hook_socket sys_socket sys_fcntl r domain type protocol s = Fail OutOfBounds) \<and>
         (if cli < HookContralFdNums then
            \<exists>s'. hook_accept sys_accept r lfd s = Ret (cli, s') \<and>
              getFileDesc cli s' = Some new_fileDesc \<and> world s' = world s4 \<and> (table_ok s \<longrightarrow> table_ok s')
          else hook_accept sys_accept r lfd s = Fail OutOfBounds)"
    (is "?socket \<and> ?accept")
proof
  show ?accept
    using en acc fd sys_fields [OF acc]
    by (auto simp: hook_accept_def allocFileDesc_def getFileDesc_def table_ok_def)
  show ?socket
  proof (cases "fd < HookContralFdNums")
    case False
    then show ?thesis using en sock fd by (simp add: hook_socket_def allocFileDesc_def)
  next
    case True
    let ?T = "(hooksFdSet s1)(fd \<mapsto> new_fileDesc\<lparr>fd_domain := domain\<rparr>)"
    have get': "sys (sys_fcntl fd F_GETFL (IntArg 0)) (s1\<lparr>hooksFdSet := ?T\<rparr>) = (flags, s2\<lparr>hooksFdSet := ?T\<rparr>)"
      and set': "sys (sys_fcntl fd F_SETFL (IntArg (word_of_int flags OR O_NONBLOCK))) (s2\<lparr>hooksFdSet := ?T\<rparr>) =
        (ret, s3\<lparr>hooksFdSet := ?T\<rparr>)"
      by (rule sys_table [OF get], rule sys_table [OF set])
    have d: "getFileDesc fd (s2\<lparr>hooksFdSet := ?T\<rparr>) = Some (new_fileDesc\<lparr>fd_domain := domain\<rparr>)"
      using fd True by (simp add: getFileDesc_def)
    note R = setfl_result [where sys_fcntl = sys_fcntl and p = "word_of_int flags", OF d en set']
    define s' where "s' = (if ret = 0 then upd_desc fd (\<lambda>d. d\<lparr>userFlags := word_of_int flags\<rparr>) (s3\<lparr>hooksFdSet := ?T\<rparr>)
      else s3\<lparr>hooksFdSet := ?T\<rparr>)"
    have a: "upd_desc fd (\<lambda>d. d\<lparr>fd_domain := domain\<rparr>) (s1\<lparr>hooksFdSet := (hooksFdSet s1)(fd \<mapsto> new_fileDesc)\<rparr>) =
        s1\<lparr>hooksFdSet := ?T\<rparr>" by (simp add: upd_desc_def)
    have "hook_socket sys_socket sys_fcntl r domain type protocol s = Ret (fd, s')"
      using en sock fd True get' by (simp add: hook_socket_def allocFileDesc_def Let_def a R(1) s'_def)
    moreover have g: "getFileDesc fd s' =
        Some (new_fileDesc\<lparr>fd_domain := domain, userFlags := if ret = 0 then word_of_int flags else 0\<rparr>)"
      using R(3) by (simp add: s'_def getFileDesc_upd) (simp add: new_fileDesc_def)
    moreover have w: "world s' = world s3" by (simp add: s'_def)
    moreover have "ret = 0 \<longrightarrow> kf (world s') fd AND O_NONBLOCK \<noteq> 0"
      using fcntl_specD(2) [OF spec set] hidden_flag(1) [OF fcntl_specD(1) [OF spec]] by (auto simp: w nonblock_iff)
    moreover have "blocking_desc r fd s' = None \<longleftrightarrow> ret = 0 \<and> (flags = - 1 \<or> kf (world s1) fd AND O_NONBLOCK \<noteq> 0)"
      using fcntl_specD(3) [OF spec get] en by (auto simp: blocking_desc_def g O_NONBLOCK_def)
    moreover have "dom (hooksFdSet s') = insert fd (dom (hooksFdSet s))"
      using sys_fields [OF sock] by (auto simp: s'_def upd_desc_def)
    then have "table_ok s \<longrightarrow> table_ok s'" using fd True by (simp add: table_ok_def)
    ultimately show ?thesis using True by simp
  qed
qed

section \<open>Connecting\<close>

definition connect_polled :: "'w poll1 \<Rightarrow> int \<Rightarrow> nat \<Rightarrow> 'w hst \<Rightarrow> int \<times> u16" where
  "connect_polled poll fd k s = fst (poll fd wr_events 25000 (polled poll fd wr_events 25000 k s))"

lemma connect_polled_Suc:
  "connect_polled poll fd (Suc k) s = connect_polled poll fd k (snd (poll fd wr_events 25000 s))"
  by (simp add: connect_polled_def polled_Suc)

lemma connect_wait_result:
  assumes "connect_wait poll fd (Suc m) ev s = (revents, s')"
  shows "\<exists>n\<le>m. (\<forall>k<n. fst (connect_polled poll fd k s) \<noteq> 1) \<and> (n < m \<longrightarrow> fst (connect_polled poll fd n s) = 1) \<and>
    revents = snd (connect_polled poll fd n s) \<and> s' = polled poll fd wr_events 25000 (Suc n) s"
  using assms
proof (induction m arbitrary: ev s)
  case 0
  then show ?case by (auto simp: connect_polled_def polled_Suc split: prod.splits if_splits)
next
  case (Suc m)
  obtain r re s1 where one: "poll fd wr_events 25000 s = ((r, re), s1)" by (metis prod.exhaust)
  show ?case
  proof (cases "r = 1")
    case True
    then show ?thesis using Suc.prems one by (intro exI [of _ 0]) (auto simp: connect_polled_def polled_Suc)
  next
    case False
    then have "connect_wait poll fd (Suc m) re s1 = (revents, s')"
      using Suc.prems one by (simp del: connect_wait.simps add: connect_wait.simps(2) [of poll fd "Suc m"])
    from Suc.IH [OF this] obtain n where
      n: "n \<le> m" "\<forall>k<n. fst (connect_polled poll fd k s1) \<noteq> 1" "n < m \<longrightarrow> fst (connect_polled poll fd n s1) = 1"
        "revents = snd (connect_polled poll fd n s1)" "s' = polled poll fd wr_events 25000 (Suc n) s1"
      by blast
    have "\<forall>k<Suc n. fst (connect_polled poll fd k s) \<noteq> 1"
    proof (intro allI impI)
      fix k assume "k < Suc n"
      then show "fst (connect_polled poll fd k s) \<noteq> 1"
        using n(2) False one by (cases k) (auto simp: connect_polled_Suc, simp add: connect_polled_def)
    qed
    then show ?thesis
      using n one by (intro exI [of _ "Suc n"]) (simp add: connect_polled_Suc polled_Suc [of poll fd wr_events _ "Suc n"])
  qed
qed

text \<open>
  C37: A connection that the system starts and does not finish (\<open>EINPROGRESS\<close>), on a registered
  blocking descriptor, is waited for with at most three waits of 25 seconds, the last of them
  the first that reports one ready descriptor. The call returns 0 exactly when that wait
  reports the socket writable and \<open>getsockopt\<close> then reads no error; it is \<open>ETIMEDOUT\<close> whenever
  that wait does not report the socket writable.
\<close>

theorem connect_waits_three_times:
  assumes conn: "sys (sys_connect fd address) s = (ret, s1)" and prog: "ret < 0" "errno s1 = EINPROGRESS"
    and desc: "blocking_desc r fd s = Some d"
    and s2: "s2 = (if length address \<le> 16
      then upd_desc fd (\<lambda>d. d\<lparr>fd_addr := address @ drop (length address) (fd_addr d)\<rparr>) s1 else s1)"
    and res: "hook_connect poll sys_connect sys_getsockopt r fd address s = (result, s')"
  shows "\<exists>n\<le>2. (\<forall>k<n. fst (connect_polled poll fd k s2) \<noteq> 1) \<and> (n < 2 \<longrightarrow> fst (connect_polled poll fd n s2) = 1) \<and>
    (let s3 = polled poll fd wr_events 25000 (Suc n) s2; opt = fst (sys_getsockopt fd (errno s3) (world s3));
         writable = (snd (connect_polled poll fd n s2) AND POLLOUT \<noteq> 0) in
     (result = 0 \<longleftrightarrow> writable \<and> 0 \<le> fst opt \<and> snd opt = 0) \<and> (\<not> writable \<longrightarrow> errno s' = ETIMEDOUT) \<and>
     (writable \<and> 0 \<le> fst opt \<longrightarrow> errno s' = snd opt))"
proof -
  have d: "getFileDesc fd s1 = Some d" "isEnableHook r" "\<not> userFlags d AND O_NONBLOCK \<noteq> 0"
    using desc sys_fields [OF conn]
    by (auto simp: blocking_desc_def getFileDesc_same [of s1 s] split: if_splits option.splits)
  obtain revents s3 where w3: "connect_wait poll fd 3 0 s2 = (revents, s3)" by fastforce
  have "(3::nat) = Suc 2" by simp
  then have w: "connect_wait poll fd (Suc 2) 0 s2 = (revents, s3)" using w3 by (simp only:)
  have "errno s2 = EINPROGRESS" using prog(2) by (simp add: s2)
  then have out: "(result, s') = connect_result sys_getsockopt fd ret revents s3"
    using res d conn prog(1) w3 by (simp add: hook_connect_def Let_def flip: s2)
  from connect_wait_result [OF w] obtain n where
    n: "n \<le> 2" "\<forall>k<n. fst (connect_polled poll fd k s2) \<noteq> 1" "n < 2 \<longrightarrow> fst (connect_polled poll fd n s2) = 1"
      "revents = snd (connect_polled poll fd n s2)" "s3 = polled poll fd wr_events 25000 (Suc n) s2"
    by blast
  have "let opt = fst (sys_getsockopt fd (errno s3) (world s3)); writable = (revents AND POLLOUT \<noteq> 0) in
     (result = 0 \<longleftrightarrow> writable \<and> 0 \<le> fst opt \<and> snd opt = 0) \<and> (\<not> writable \<longrightarrow> errno s' = ETIMEDOUT) \<and>
     (writable \<and> 0 \<le> fst opt \<longrightarrow> errno s' = snd opt)"
    using out prog(1) by (auto simp: connect_result_def Let_def split: prod.splits if_splits)
  then show ?thesis using n by (intro exI [of _ n]) (simp add: Let_def)
qed

section \<open>Timeouts\<close>

text \<open>
  \<open>setsockopt\<close> of a receive timeout on a registered blocking descriptor makes the next
  \<open>read\<close> wait with that timeout, whether the system accepted the option or not; so the timeout 0,
  which for the system means none, makes every wait a \<open>poll\<close> that returns at once, and
  \<open>read\<close> goes round its loop until the descriptor is ready.
\<close>

theorem receive_timeout_is_the_wait:
  fixes sys_read :: "int \<Rightarrow> nat \<Rightarrow> 'w call"
  assumes desc: "blocking_desc r fd s = Some d"
    and set: "hook_setsockopt sys_setsockopt as_timeval r fd SOL_SOCKET SO_RCVTIMEO v len s = (ret, s1)"
  shows "blocking_desc r fd s1 = Some (d\<lparr>Rtimeout := as_timeval v\<rparr>) \<and>
    hook_read poll sys_read r fd nbyte s1 =
      pbind (wait_readable poll fd (timeout_ms (as_timeval v)) s1) (\<lambda>s. Ret (sys (sys_read fd nbyte) s)) \<and>
    (as_timeval v = \<lparr>tv_sec = 0, tv_usec = 0\<rparr> \<longrightarrow> timeout_ms (as_timeval v) = 0)"
proof -
  have d: "isEnableHook r" "getFileDesc fd s = Some d" "\<not> userFlags d AND O_NONBLOCK \<noteq> 0"
    using desc by (auto simp: blocking_desc_def split: if_splits option.splits)
  let ?s = "upd_desc fd (\<lambda>d. d\<lparr>Rtimeout := as_timeval v\<rparr>) s"
  have "sys (sys_setsockopt fd SOL_SOCKET SO_RCVTIMEO v len) ?s = (ret, s1)"
    using set d by (simp add: hook_setsockopt_def Let_def)
  note f = sys_fields [OF this]
  have b: "blocking_desc r fd s1 = Some (d\<lparr>Rtimeout := as_timeval v\<rparr>)"
    using d f by (simp add: blocking_desc_def getFileDesc_same [of s1 ?s] getFileDesc_upd)
  then show ?thesis by (simp add: hook_read_def timeout_ms_def)
qed

section \<open>Concrete systems\<close>

text \<open>Descriptor 3 is registered, and the descriptor of the world \<open>w\<close> is ready after \<open>w\<close> waits.\<close>

definition ex_hst :: "'w \<Rightarrow> 'w hst" where
  "ex_hst w = \<lparr>hooksFdSet = [3 \<mapsto> new_fileDesc], errno = 0, world = w\<rparr>"

definition ex_poll :: "nat poll1" where
  "ex_poll fd ev t s = (if world s = 0 then ((1, ev), s) else ((0, 0), s\<lparr>world := world s - 1\<rparr>))"

definition ex_read :: "int \<Rightarrow> nat \<Rightarrow> nat call" where
  "ex_read fd nbyte e w = (7, e, w)"

lemma ex_desc: "blocking_desc (ex_routine False) 3 (ex_hst w) = Some new_fileDesc"
  by (simp add: blocking_desc_def isEnableHook_def ex_routine_def getFileDesc_def ex_hst_def
      HookContralFdNums_def new_fileDesc_def)

theorem read_waits_until_ready_witness:
  "hook_read ex_poll ex_read (ex_routine False) 3 10 (ex_hst 2) = Ret (7, ex_hst 0)"
proof -
  have p1: "ex_poll 3 rd_events t (ex_hst 2) = ((0, 0), ex_hst 1)" for t by (simp add: ex_poll_def ex_hst_def)
  have p2: "ex_poll 3 rd_events t (ex_hst (Suc 0)) = ((0, 0), ex_hst 0)" for t by (simp add: ex_poll_def ex_hst_def)
  have p3: "ex_poll 3 rd_events t (ex_hst 0) = ((1, rd_events), ex_hst 0)" for t by (simp add: ex_poll_def ex_hst_def)
  have pol: "polled ex_poll 3 rd_events t (Suc 0) (ex_hst 2) = ex_hst 1"
    "polled ex_poll 3 rd_events t (Suc (Suc 0)) (ex_hst 2) = ex_hst 0"
    "polled ex_poll 3 rd_events t (Suc 2) (ex_hst 2) = ex_hst 0" for t
    by (simp_all add: polled_Suc p1 p2 p3 numeral_eq_Suc)
       (simp_all add: polled_def p1 p2 p3 flip: numeral_2_eq_2)
  have "(\<forall>k<2. expires ex_poll 3 t k (ex_hst 2)) \<and> \<not> expires ex_poll 3 t 2 (ex_hst 2)" for t
    using pol(1,2) [of t] by (simp add: numeral_2_eq_2 All_less_Suc expires_def p1 [unfolded numeral_2_eq_2] p2 p3)
  then show ?thesis
    using read_waits_until_ready [OF ex_desc [of 2], where poll = ex_poll and n = 2 and nbyte = 10 and sys_read = ex_read] pol(3)
    by (simp add: sys_def ex_read_def ex_hst_def)
qed

text \<open>A device that takes two bytes at a time.\<close>

definition ex_write :: "int \<Rightarrow> nat list \<Rightarrow> (nat list) call" where
  "ex_write fd bs e w = (int (min 2 (length bs)), e, w @ take 2 bs)"

theorem write_delivers_a_prefix_witness:
  "fst (hook_write (\<lambda>fd ev t s. ((1, ev), s)) ex_write (ex_routine False) 3 [1, 2, 3, 4, 5] (ex_hst [])) = 5 \<and>
   world (snd (hook_write (\<lambda>fd ev t s. ((1, ev), s)) ex_write (ex_routine False) 3 [1, 2, 3, 4, 5] (ex_hst [])))
     = [1, 2, 3, 4, 5]"
proof -
  let ?poll = "\<lambda>fd (ev :: u16) t (s :: nat list hst). ((1, ev), s)"
  have wr: "takes_prefix (\<lambda>w. w) (ex_write 3)" and sd: "takes_prefix (\<lambda>w. w) (\<lambda>bs. (\<lambda>fd bs flags. ex_write fd bs) 3 bs 0)"
    by (auto simp: takes_prefix_def ex_write_def min_def)
  have po: "poll_keeps (\<lambda>w. w) ?poll" by (simp add: poll_keeps_def)
  have w: "world (ex_hst []) = []" by (simp add: ex_hst_def)
  have "always_some (ex_write 3)" by (simp add: always_some_def ex_write_def)
  then show ?thesis
    using write_delivers_a_prefix [where fd = 3 and sys_write = ex_write and flags = 0
          and sys_send = "\<lambda>fd bs flags. ex_write fd bs", OF wr sd po, where s = "ex_hst []" and buf = "[1,2,3,4,5]" and r = "ex_routine False"]
    by (simp del: One_nat_def add: delivered_def ex_desc case_prod_beta' w)
qed

text \<open>
  A system whose world is the status flags of the one descriptor there is, 3 or 5; on any other it
  fails with \<open>EBADF\<close>.
\<close>

definition ex_fcntl :: "u32 fcntl" where
  "ex_fcntl fd cmd a e w =
     (if fd \<noteq> 3 \<and> fd \<noteq> 5 then (- 1, 9, w)
      else if cmd = F_SETFL then (case a of IntArg x \<Rightarrow> (0, e, x) | _ \<Rightarrow> (- 1, e, w)) else (sint w, e, w))"

lemma ex_fcntl_spec: "fcntl_spec ex_fcntl (\<lambda>w fd. w) (- 1)"
  by (simp add: fcntl_spec_def ex_fcntl_def F_SETFL_def F_GETFL_def)

theorem flags_stay_hidden_witness:
  "fst (hook_fcntl ex_fcntl (ex_routine False) 3 F_GETFL 0 0
     (snd (hook_fcntl ex_fcntl (ex_routine False) 3 F_SETFL 2 0 (ex_hst 0)))) = 2"
proof -
  have en: "isEnableHook (ex_routine False)" by (simp add: isEnableHook_def ex_routine_def)
  have d: "getFileDesc 3 (ex_hst (0 :: u32)) = Some new_fileDesc"
    by (simp add: getFileDesc_def ex_hst_def HookContralFdNums_def)
  let ?s = "(ex_hst 0)\<lparr>hooksFdSet := [3 \<mapsto> new_fileDesc\<lparr>userFlags := 2\<rparr>], world := 2 OR O_NONBLOCK\<rparr>"
  have call: "sys (ex_fcntl 3 F_SETFL (IntArg (2 OR O_NONBLOCK))) (ex_hst 0) = (0, (ex_hst 0)\<lparr>world := 2 OR O_NONBLOCK\<rparr>)"
    by (simp add: sys_def ex_fcntl_def ex_hst_def)
  have set: "hook_fcntl ex_fcntl (ex_routine False) 3 F_SETFL 2 0 (ex_hst 0) = (0, ?s)"
    using setfl_result(1) [where sys_fcntl = ex_fcntl and p = 2, OF d en call] by (simp add: upd_desc_def ex_hst_def)
  have "fst (sys (ex_fcntl 3 F_GETFL NoArg) ?s) = sint (2 OR O_NONBLOCK)"
    by (simp add: sys_def ex_fcntl_def F_GETFL_def F_SETFL_def ex_hst_def)
  also have "\<dots> \<noteq> - 1" by (simp add: O_NONBLOCK_def)
  finally show ?thesis
    unfolding set snd_conv using flags_stay_hidden [OF ex_fcntl_spec d en set, where q = 0] by (simp add: ex_hst_def)
qed

definition ex_socket :: "int \<Rightarrow> int \<Rightarrow> int \<Rightarrow> u32 call" where
  "ex_socket domain type protocol e w = (5, e, 2)"
definition ex_accept :: "int \<Rightarrow> u32 call" where
  "ex_accept fd e w = (102400, e, 2)"

theorem new_sockets_registered_witness:
  "(\<exists>s'. hook_socket ex_socket ex_fcntl (ex_routine False) 2 1 0 (ex_hst 0) = Ret (5, s') \<and>
      world s' AND O_NONBLOCK \<noteq> 0) \<and>
   hook_accept ex_accept (ex_routine False) 3 (ex_hst 0) = Fail OutOfBounds"
proof -
  have en: "isEnableHook (ex_routine False)" by (simp add: isEnableHook_def ex_routine_def)
  have "sys (ex_socket 2 1 0) (ex_hst 0) = (5, (ex_hst 0)\<lparr>world := 2\<rparr>)"
    and "sys (ex_fcntl 5 F_GETFL (IntArg 0)) ((ex_hst 0)\<lparr>world := 2\<rparr>) = (2, (ex_hst 0)\<lparr>world := 2\<rparr>)"
    and "sys (ex_fcntl 5 F_SETFL (IntArg (word_of_int 2 OR O_NONBLOCK))) ((ex_hst 0)\<lparr>world := 2\<rparr>) =
      (0, (ex_hst 0)\<lparr>world := 2 OR O_NONBLOCK\<rparr>)"
    and "sys (ex_accept 3) (ex_hst 0) = (102400, (ex_hst 0)\<lparr>world := 2\<rparr>)"
    by (simp_all add: sys_def ex_socket_def ex_accept_def ex_hst_def ex_fcntl_def F_GETFL_def F_SETFL_def)
  from new_sockets_registered [where sys_socket = ex_socket and sys_accept = ex_accept
        and domain = 2 and type = 1 and protocol = 0 and lfd = 3, OF ex_fcntl_spec en this] show ?thesis
    by (auto simp: HookContralFdNums_def)
qed

text \<open>A connection that is refused: the third wait reports \<open>POLLERR\<close> alone.\<close>

definition ex_connect :: "int \<Rightarrow> nat list \<Rightarrow> nat call" where
  "ex_connect fd a e w = (- 1, EINPROGRESS, w)"
definition ex_sockopt :: "int \<Rightarrow> int \<Rightarrow> nat \<Rightarrow> (int \<times> int) \<times> int \<times> nat" where
  "ex_sockopt fd e w = ((0, 111), e, w)"
definition ex_refused :: "nat poll1" where
  "ex_refused fd ev t s = (if world s = 0 then ((1, POLLERR), s) else ((0, 0), s\<lparr>world := world s - 1\<rparr>))"

theorem connect_waits_three_times_witness:
  "errno (snd (hook_connect ex_refused ex_connect ex_sockopt (ex_routine False) 3 [1, 2] (ex_hst 0))) = ETIMEDOUT"
proof -
  let ?s1 = "(ex_hst (0 :: nat))\<lparr>errno := EINPROGRESS\<rparr>"
  let ?s2 = "if length [1, 2 :: nat] \<le> 16
      then upd_desc 3 (\<lambda>d. d\<lparr>fd_addr := [1, 2] @ drop (length [1, 2 :: nat]) (fd_addr d)\<rparr>) ?s1 else ?s1"
  have conn: "sys (ex_connect 3 [1, 2]) (ex_hst 0) = (- 1, ?s1)"
    by (simp add: sys_def ex_connect_def ex_hst_def)
  have w: "world (polled ex_refused 3 wr_events 25000 k ?s2) = 0" for k
    by (induction k) (simp_all add: polled_def ex_refused_def ex_hst_def)
  have "snd (connect_polled ex_refused 3 k ?s2) AND POLLOUT = 0" for k
    using w [of k] by (simp add: connect_polled_def ex_refused_def POLLERR_def POLLOUT_def)
  moreover have "errno ?s1 = EINPROGRESS" by simp
  ultimately show ?thesis
    using connect_waits_three_times [where fd = 3 and sys_connect = ex_connect and address = "[1, 2]",
        OF conn _ _ ex_desc refl prod.collapse [symmetric], where poll = ex_refused and sys_getsockopt = ex_sockopt]
    unfolding Let_def by fastforce
qed

definition ex_sso :: "int \<Rightarrow> int \<Rightarrow> int \<Rightarrow> timeval \<Rightarrow> nat \<Rightarrow> nat call" where
  "ex_sso fd level name v len e w = (0, e, w)"

theorem receive_timeout_is_the_wait_witness:
  "fst (hook_setsockopt ex_sso (\<lambda>v. v) (ex_routine False) 3 SOL_SOCKET SO_RCVTIMEO \<lparr>tv_sec = 0, tv_usec = 0\<rparr> 16 (ex_hst 1)) = 0 \<and>
   (\<exists>d. blocking_desc (ex_routine False) 3
     (snd (hook_setsockopt ex_sso (\<lambda>v. v) (ex_routine False) 3 SOL_SOCKET SO_RCVTIMEO \<lparr>tv_sec = 0, tv_usec = 0\<rparr> 16 (ex_hst 1)))
       = Some d \<and> timeout_ms (Rtimeout d) = 0)"
proof -
  let ?h = "hook_setsockopt ex_sso (\<lambda>v. v) (ex_routine False) 3 SOL_SOCKET SO_RCVTIMEO \<lparr>tv_sec = 0, tv_usec = 0\<rparr> 16 (ex_hst 1)"
  have "?h = (fst ?h, snd ?h)" by simp
  note wait = receive_timeout_is_the_wait [OF ex_desc this, where poll = ex_poll and nbyte = 1 and sys_read = ex_read]
  have "fst ?h = 0" by (simp add: hook_setsockopt_def sys_def ex_sso_def Let_def)
  then show ?thesis using wait by auto
qed

end
