(* ===== verification/Poll.thy ===== *)
theory Poll
  imports Mutex_Cond Hooks
begin

unbundle bit_operations_syntax

text \<open>
  \<open>poll\<close> of \<open>b_hook.cc\<close>: the translation of the event masks, the message a polling routine
  leaves on its stack, and the three callbacks that work on it. \<open>epoll_ctl\<close> calls are kept as
  a log. The event loop that calls the callbacks is in the theory \<open>Deal_Loop\<close>.
\<close>

section \<open>Event masks\<close>

definition EPOLLIN :: u32 where "EPOLLIN = 0x001"
definition EPOLLPRI :: u32 where "EPOLLPRI = 0x002"
definition EPOLLOUT :: u32 where "EPOLLOUT = 0x004"
definition EPOLLERR :: u32 where "EPOLLERR = 0x008"
definition EPOLLHUP :: u32 where "EPOLLHUP = 0x010"
definition EPOLLRDHUP :: u32 where "EPOLLRDHUP = 0x2000"

definition epoll_to_poll_events :: "u32 \<Rightarrow> u16" where
  "epoll_to_poll_events epoll_events =
     (let p = 0;
          p = (if epoll_events AND EPOLLIN \<noteq> 0 then p OR POLLIN else p);
          p = (if epoll_events AND EPOLLOUT \<noteq> 0 then p OR POLLOUT else p);
          p = (if epoll_events AND EPOLLPRI \<noteq> 0 then p OR POLLPRI else p);
          p = (if epoll_events AND EPOLLERR \<noteq> 0 then p OR POLLERR else p);
          p = (if epoll_events AND EPOLLHUP \<noteq> 0 then p OR POLLHUP else p)
      in if epoll_events AND EPOLLRDHUP \<noteq> 0 then p OR POLLRDHUP else p)"

text \<open>The \<open>short\<close> is widened to \<open>int\<close> for the test; the masks are positive.\<close>

definition poll_to_epoll_events :: "u16 \<Rightarrow> u32" where
  "poll_to_epoll_events poll_events =
     (let p = 0;
          p = (if poll_events AND POLLIN \<noteq> 0 then p OR EPOLLIN else p);
          p = (if poll_events AND POLLOUT \<noteq> 0 then p OR EPOLLOUT else p);
          p = (if poll_events AND POLLPRI \<noteq> 0 then p OR EPOLLPRI else p);
          p = (if poll_events AND POLLERR \<noteq> 0 then p OR EPOLLERR else p);
          p = (if poll_events AND POLLHUP \<noteq> 0 then p OR EPOLLHUP else p)
      in if poll_events AND POLLRDHUP \<noteq> 0 then p OR EPOLLRDHUP else p)"

section \<open>Messages\<close>

type_synonym pmid = nat

record pollfd =
  pfd_fd :: int
  pfd_events :: u16
  pfd_revents :: u16

text \<open>
  The message and the array it points to, which nobody else touches while the routine is away.
  \<open>fdSize\<close> is the length of the array.
\<close>

record poll_message =
  pollfds :: "pollfd list"
  pm_task :: "addr option"
  eachFdTask :: "addr list"
  activeFdsNums :: u64
  activeFdsNums2 :: u64
  IsJoinActiveList :: bool
  IsRemoveFromTimeoutList :: bool

datatype ctl_op = CTL_ADD | CTL_DEL

text \<open>The environment with the messages, the mutex of \<open>Deal\<close> and the log of \<open>epoll_ctl\<close>.\<close>

record pollenv = syncenv +
  pmsgs :: "pmid \<Rightarrow> poll_message option"
  pm_brk :: pmid
  bEpollDealLock :: bool
  ctl_log :: "(ctl_op \<times> int \<times> addr option \<times> u32) list"

definition pm_at :: "pmid option \<Rightarrow> 'z pollenv_scheme \<Rightarrow> poll_message prog" where
  "pm_at p e = (case p of None \<Rightarrow> Fail NullDeref
     | Some m \<Rightarrow> (case pmsgs e m of None \<Rightarrow> Fail BadAddress | Some x \<Rightarrow> Ret x))"

definition put_pm :: "pmid \<Rightarrow> poll_message \<Rightarrow> 'z pollenv_scheme \<Rightarrow> 'z pollenv_scheme" where
  "put_pm p x e = e\<lparr>pmsgs := (pmsgs e)(p \<mapsto> x)\<rparr>"

text \<open>The constructor: its loop over the descriptors, then the whole.\<close>

definition fd_task :: "pmid \<Rightarrow> pollfd \<Rightarrow> addr \<Rightarrow> TaskItem \<Rightarrow> TaskItem" where
  "fd_task p f a t = t\<lparr>perpareFuncPtr := Some pollPerpare_ptr, perpareFuncArgs := Some p,
     callbackFuncPtr := Some pollCallback_ptr, callbackFunArgs := Some p,
     bEpollEvent_events := poll_to_epoll_events (pfd_events f), bEpollEvent_ptr := Some a,
     epollFd := pfd_fd f\<rparr>"

fun new_fd_tasks :: "pmid \<Rightarrow> pollfd list \<Rightarrow> 'z tmem_scheme \<Rightarrow> (addr list \<times> 'z tmem_scheme) prog" where
  "new_fd_tasks p [] h = Ret ([], h)"
| "new_fd_tasks p (f # fs) h =
     (case TaskItem_New h of (a, h) \<Rightarrow>
      pbind (upd_item (Some a) (fd_task p f a) h) (\<lambda>h.
      pbind (new_fd_tasks p fs h) (\<lambda>(as, h). Ret (a # as, h))))"

definition poll_message_New :: "pollfd list \<Rightarrow> 'z pollenv_scheme \<Rightarrow> (pmid \<times> 'z pollenv_scheme) prog" where
  "poll_message_New fds e =
     (let p = pm_brk e; e = e\<lparr>pm_brk := p + 1\<rparr> in
      case TaskItem_New e of (t, e) \<Rightarrow>
      pbind (getSelf e) (\<lambda>r.
      pbind (upd_item (Some t) (\<lambda>x. x\<lparr>ti_self := Some r\<rparr>) e) (\<lambda>e.
      pbind (new_fd_tasks p fds e) (\<lambda>(as, e).
      pbind (upd_item (Some t) (\<lambda>x. x\<lparr>timeoutCallFunc := Some pollTimeout_ptr, timeoutCallFuncArgs := Some p\<rparr>) e) (\<lambda>e.
      Ret (p, put_pm p \<lparr>pollfds = map (\<lambda>f. f\<lparr>pfd_revents := 0\<rparr>) fds, pm_task = Some t, eachFdTask = as,
        activeFdsNums = 0, activeFdsNums2 = 0, IsJoinActiveList = False, IsRemoveFromTimeoutList = False\<rparr> e))))))"

text \<open>\<open>epoll_ctl\<close> for every descriptor of a message. Its result is not looked at.\<close>

fun ctl_items :: "ctl_op \<Rightarrow> addr list \<Rightarrow> 'z pollenv_scheme \<Rightarrow> 'z pollenv_scheme prog" where
  "ctl_items op [] e = Ret e"
| "ctl_items op (a # as) e =
     pbind (item_at (Some a) e) (\<lambda>t.
     ctl_items op as (e\<lparr>ctl_log := ctl_log e @ [(op, epollFd t, bEpollEvent_ptr t, bEpollEvent_events t)]\<rparr>))"

definition ctl_each :: "ctl_op \<Rightarrow> pmid option \<Rightarrow> 'z pollenv_scheme \<Rightarrow> 'z pollenv_scheme prog" where
  "ctl_each op p e = pbind (pm_at p e) (\<lambda>x. ctl_items op (eachFdTask x) e)"

section \<open>The callbacks\<close>

definition pollTimeout :: "pmid option \<Rightarrow> 'z pollenv_scheme \<Rightarrow> 'z pollenv_scheme prog" where
  "pollTimeout args e = ctl_each CTL_DEL args e"

text \<open>The first entry of the array with the descriptor gets the events.\<close>

fun set_revents :: "int \<Rightarrow> u16 \<Rightarrow> pollfd list \<Rightarrow> pollfd list" where
  "set_revents fd ev [] = []"
| "set_revents fd ev (f # fs) =
     (if pfd_fd f = fd then f\<lparr>pfd_revents := ev\<rparr> # fs else f # set_revents fd ev fs)"

text \<open>An event of \<open>epoll_wait\<close>: the pointer it carries and its mask.\<close>

type_synonym epoll_event = "addr option \<times> u32"

definition pollPerpare :: "pmid option \<Rightarrow> epoll_event \<Rightarrow> 'z pollenv_scheme \<Rightarrow> 'z pollenv_scheme prog" where
  "pollPerpare args ee e =
     pbind (pm_at args e) (\<lambda>pm.
     pbind (item_at (fst ee) e) (\<lambda>t.
     let pm = pm\<lparr>pollfds := set_revents (epollFd t) (epoll_to_poll_events (snd ee)) (pollfds pm),
                 activeFdsNums := activeFdsNums pm + 1, activeFdsNums2 := activeFdsNums2 pm + 1\<rparr> in
     if \<not> IsRemoveFromTimeoutList pm then
       pbind (RemoveSelfFromOwnerlink_Save (pm_task pm) (put_pm (the args) (pm\<lparr>IsRemoveFromTimeoutList := True\<rparr>) e))
         (\<lambda>(_, e). Ret e)
     else Ret (put_pm (the args) pm e)))"

definition pollCallback :: "pmid option \<Rightarrow> 'z pollenv_scheme \<Rightarrow> 'z pollenv_scheme prog" where
  "pollCallback args e =
     pbind (pm_at args e) (\<lambda>pm.
     let pm = pm\<lparr>activeFdsNums2 := activeFdsNums2 pm - 1\<rparr> in
     if \<not> IsJoinActiveList pm \<and> activeFdsNums2 pm = 0 then
       pbind (ctl_each CTL_DEL args (put_pm (the args) (pm\<lparr>IsJoinActiveList := True\<rparr>) e)) (\<lambda>e.
       pbind (AddTask (pm_task pm) e) (\<lambda>e.
       pbind (pm_at args e) (\<lambda>pm.
       Ret (put_pm (the args) (pm\<lparr>pm_task := None\<rparr>) e))))
     else Ret (put_pm (the args) pm e))"

section \<open>\<open>poll\<close>\<close>

definition INTMAX_MAX :: int where "INTMAX_MAX = 2 ^ 63 - 1"

text \<open>
  Up to the switch away: \<open>None\<close> if the system call is made instead, or the message left behind;
  and from the switch back to the return.
\<close>

definition poll_begin :: "pollfd list \<Rightarrow> int \<Rightarrow> 'z pollenv_scheme \<Rightarrow> (pmid option \<times> 'z pollenv_scheme) prog" where
  "poll_begin fds timeout e =
     pbind (getSelf e) (\<lambda>r.
     pbind (routine_at (Some r) e) (\<lambda>x.
     if \<not> isEnableHook x \<or> timeout = 0 then Ret (None, e)
     else
       pbind (poll_message_New fds e) (\<lambda>(p, e).
       pbind (getBucket (of_int (if timeout < 0 then INTMAX_MAX else timeout)) (TimeoutScaner (Epoll e))) (\<lambda>b.
       pbind (pm_at (Some p) e) (\<lambda>pm.
       pbind (pushBack b (pm_task pm) e) (\<lambda>e.
       pbind (ctl_each CTL_ADD (Some p) e) (\<lambda>e.
       pbind (SwapContext e) (\<lambda>e.
       Ret (Some p, e)))))))))"

definition poll_end :: "pmid \<Rightarrow> 'z pollenv_scheme \<Rightarrow> (int \<times> pollfd list \<times> 'z pollenv_scheme) prog" where
  "poll_end p e =
     pbind (pm_at (Some p) e) (\<lambda>pm.
     pbind (if IsJoinActiveList pm then Ret e
            else
              pbind (item_at (pm_task pm) e) (\<lambda>t.
              if IsTasktimeout t then Ret e else ctl_each CTL_DEL (Some p) e)) (\<lambda>e.
     Ret (sint (ucast (activeFdsNums pm) :: u32), pollfds pm, e\<lparr>pmsgs := (pmsgs e)(p := None)\<rparr>)))"

section \<open>The masks say the same\<close>

lemma bit_or_if: "bit (if c then (p :: 'a::len word) OR m else p) i \<longleftrightarrow> bit p i \<or> c \<and> bit m i"
  by (simp add: bit_or_iff)

lemma mask_bit:
  fixes w m :: "'a::len word"
  assumes "m = 2 ^ k" and "k < LENGTH('a)"
  shows "w AND m \<noteq> 0 \<longleftrightarrow> bit w k" and "bit m i \<longleftrightarrow> i = k"
proof -
  show "w AND m \<noteq> 0 \<longleftrightarrow> bit w k" unfolding assms(1) by (simp only: and_exp_eq_0_iff_not_bit not_not)
  show "bit m i \<longleftrightarrow> i = k" using assms(2) unfolding assms(1) bit_exp_iff by auto
qed

lemma poll_pow:
  "POLLIN = 2 ^ 0" "POLLPRI = 2 ^ 1" "POLLOUT = 2 ^ 2" "POLLERR = 2 ^ 3" "POLLHUP = 2 ^ 4" "POLLRDHUP = 2 ^ 13"
  by (simp_all add: POLLIN_def POLLPRI_def POLLOUT_def POLLERR_def POLLHUP_def POLLRDHUP_def)

lemma poll_bits:
  "bit POLLIN i \<longleftrightarrow> i = 0" "bit POLLPRI i \<longleftrightarrow> i = 1" "bit POLLOUT i \<longleftrightarrow> i = 2"
  "bit POLLERR i \<longleftrightarrow> i = 3" "bit POLLHUP i \<longleftrightarrow> i = 4" "bit POLLRDHUP i \<longleftrightarrow> i = 13"
  "v AND POLLIN \<noteq> 0 \<longleftrightarrow> bit v 0" "v AND POLLPRI \<noteq> 0 \<longleftrightarrow> bit v 1" "v AND POLLOUT \<noteq> 0 \<longleftrightarrow> bit v 2"
  "v AND POLLERR \<noteq> 0 \<longleftrightarrow> bit v 3" "v AND POLLHUP \<noteq> 0 \<longleftrightarrow> bit v 4" "v AND POLLRDHUP \<noteq> 0 \<longleftrightarrow> bit v 13"
  by (rule poll_pow [THEN mask_bit(1)] poll_pow [THEN mask_bit(2)], simp)+

lemma epoll_pow:
  "EPOLLIN = 2 ^ 0" "EPOLLPRI = 2 ^ 1" "EPOLLOUT = 2 ^ 2" "EPOLLERR = 2 ^ 3" "EPOLLHUP = 2 ^ 4" "EPOLLRDHUP = 2 ^ 13"
  by (simp_all add: EPOLLIN_def EPOLLPRI_def EPOLLOUT_def EPOLLERR_def EPOLLHUP_def EPOLLRDHUP_def)

lemma epoll_bits:
  "bit EPOLLIN i \<longleftrightarrow> i = 0" "bit EPOLLPRI i \<longleftrightarrow> i = 1" "bit EPOLLOUT i \<longleftrightarrow> i = 2"
  "bit EPOLLERR i \<longleftrightarrow> i = 3" "bit EPOLLHUP i \<longleftrightarrow> i = 4" "bit EPOLLRDHUP i \<longleftrightarrow> i = 13"
  "w AND EPOLLIN \<noteq> 0 \<longleftrightarrow> bit w 0" "w AND EPOLLPRI \<noteq> 0 \<longleftrightarrow> bit w 1" "w AND EPOLLOUT \<noteq> 0 \<longleftrightarrow> bit w 2"
  "w AND EPOLLERR \<noteq> 0 \<longleftrightarrow> bit w 3" "w AND EPOLLHUP \<noteq> 0 \<longleftrightarrow> bit w 4" "w AND EPOLLRDHUP \<noteq> 0 \<longleftrightarrow> bit w 13"
  by (rule epoll_pow [THEN mask_bit(1)] epoll_pow [THEN mask_bit(2)], simp)+

definition event_bits :: "nat set" where "event_bits = {0, 1, 2, 3, 4, 13}"

lemma bit_event_masks:
  "bit (epoll_to_poll_events w) i \<longleftrightarrow> i \<in> event_bits \<and> bit w i"
  "bit (poll_to_epoll_events v) i \<longleftrightarrow> i \<in> event_bits \<and> bit v i"
  unfolding epoll_to_poll_events_def poll_to_epoll_events_def Let_def bit_or_if poll_bits epoll_bits event_bits_def
  by auto

definition all_events :: u16 where
  "all_events = POLLIN OR POLLPRI OR POLLOUT OR POLLERR OR POLLHUP OR POLLRDHUP"

lemma bit_all_events: "bit all_events i \<longleftrightarrow> i \<in> event_bits"
  unfolding all_events_def bit_or_iff poll_bits event_bits_def by auto

text \<open>
  C40: The masks of \<open>poll\<close> and \<open>epoll\<close> are translated without loss: there and back again keeps
  exactly the six events the program knows (0x201f), in both directions, and each translation
  is the identity on the numbers that have only those.
\<close>

theorem event_masks_round_trip:
  "epoll_to_poll_events (poll_to_epoll_events p) = p AND all_events \<and>
   poll_to_epoll_events (epoll_to_poll_events w) = w AND ucast all_events \<and>
   ucast (poll_to_epoll_events p) = p AND all_events \<and> all_events = 0x201f"
proof (intro conjI)
  show "epoll_to_poll_events (poll_to_epoll_events p) = p AND all_events"
    by (rule bit_word_eqI) (auto simp: bit_event_masks bit_all_events bit_and_iff)
  show "poll_to_epoll_events (epoll_to_poll_events w) = w AND ucast all_events"
    by (rule bit_word_eqI) (auto simp: bit_event_masks bit_all_events bit_and_iff bit_ucast_iff)
  show "ucast (poll_to_epoll_events p) = p AND all_events"
    by (rule bit_word_eqI) (auto simp: bit_event_masks bit_all_events bit_and_iff bit_ucast_iff)
  show "all_events = 0x201f"
    by (simp add: all_events_def POLLIN_def POLLPRI_def POLLOUT_def POLLERR_def POLLHUP_def POLLRDHUP_def)
qed

end
