(* ===== verification/Deal_Loop.thy ===== *)
theory Deal_Loop
  imports Poll
begin

unbundle bit_operations_syntax

text \<open>
  The event loop \<open>bRoutineEnv::Deal\<close> of \<open>b_routine_env.cc\<close>: the two passes over the events of
  \<open>epoll_wait\<close>, whose result is an argument, and the delivery of the tasks that timed out. The
  lemmas follow the order of the code: the first pass takes the tasks of ready messages off the
  timer wheel, the second commits each of them once, the drain commits what is due.
\<close>

section \<open>The event loop\<close>

text \<open>The function pointers of an item, called.\<close>

definition call_perpare :: "epoll_event \<Rightarrow> 'z pollenv_scheme \<Rightarrow> 'z pollenv_scheme prog" where
  "call_perpare ee e =
     pbind (item_at (fst ee) e) (\<lambda>t.
     case perpareFuncPtr t of None \<Rightarrow> Ret e
     | Some pollPerpare_ptr \<Rightarrow> pollPerpare (perpareFuncArgs t) ee e
     | Some _ \<Rightarrow> Fail BadAddress)"

definition call_back :: "epoll_event \<Rightarrow> 'z pollenv_scheme \<Rightarrow> 'z pollenv_scheme prog" where
  "call_back ee e =
     pbind (item_at (fst ee) e) (\<lambda>t.
     case callbackFuncPtr t of None \<Rightarrow> Ret e
     | Some pollCallback_ptr \<Rightarrow> pollCallback (callbackFunArgs t) e
     | Some _ \<Rightarrow> Fail BadAddress)"

definition call_timeout :: "addr \<Rightarrow> 'z pollenv_scheme \<Rightarrow> 'z pollenv_scheme prog" where
  "call_timeout a e =
     pbind (item_at (Some a) e) (\<lambda>t.
     case timeoutCallFunc t of None \<Rightarrow> Ret e
     | Some pollTimeout_ptr \<Rightarrow> pollTimeout (timeoutCallFuncArgs t) e
     | Some CondTimeOutCallback_ptr \<Rightarrow>
         pbind (deref (timeoutCallFuncArgs t)) (\<lambda>r. Ret (CondTimeOutCallback r e))
     | Some _ \<Rightarrow> Fail BadAddress)"

definition timed_out :: "addr \<Rightarrow> 'z pollenv_scheme \<Rightarrow> 'z pollenv_scheme prog" where
  "timed_out a e =
     pbind (call_timeout a e) (\<lambda>e.
     pbind (upd_item (Some a) (\<lambda>t. t\<lparr>IsTasktimeout := True\<rparr>) e) (\<lambda>e.
     AddTask (Some a) e))"

text \<open>
  The second half of \<open>Deal\<close>, with the two readings of the clock: collect what is due, commit
  it, delete the list it came in. Then the whole, with what \<open>epoll_wait\<close> returns: an error
  with its number as text, or the events.
\<close>

definition Deal_timeouts :: "u64 \<Rightarrow> u64 \<Rightarrow> 'z pollenv_scheme \<Rightarrow> 'z pollenv_scheme prog" where
  "Deal_timeouts now now' e =
     pbind (NewMergeUpdate2Now now (TimeoutScaner (Epoll e)) e) (\<lambda>(l, t, e).
     let e = e\<lparr>Epoll := (Epoll e)\<lparr>TimeoutScaner := t\<rparr>\<rparr> in
     pbind (drain (popHead l) timed_out e) (\<lambda>e.
     pbind (TaskItemsList_Delete l e) (\<lambda>e.
     Ret (e\<lparr>Epoll := (Epoll e)\<lparr>lastCheckTime := now'\<rparr>\<rparr>))))"

definition Deal :: "string + epoll_event list \<Rightarrow> u64 \<Rightarrow> u64 \<Rightarrow> 'z pollenv_scheme \<Rightarrow> 'z pollenv_scheme prog" where
  "Deal res now now' e = (case res of
       Inl err \<Rightarrow> Fail (Throw (''epoll return false Erron :>'' @ err))
     | Inr evs \<Rightarrow>
         pbind (push_list call_perpare evs e) (\<lambda>e.
         pbind (push_list call_back evs e) (Deal_timeouts now now')))"

text \<open>The first lines of the scheduler's loop: a \<open>Deal\<close> when a millisecond has passed.\<close>

definition deal_if_due :: "u64 \<Rightarrow> string + epoll_event list \<Rightarrow> u64 \<Rightarrow> u64 \<Rightarrow> 'z pollenv_scheme \<Rightarrow> 'z pollenv_scheme prog" where
  "deal_if_due now res now1 now2 e =
     (if now - lastCheckTime (Epoll e) \<noteq> 0 then
        if \<not> bEpollDealLock e then
          pbind (Deal res now1 now2 (e\<lparr>bEpollDealLock := True\<rparr>)) (\<lambda>e. Ret (e\<lparr>bEpollDealLock := False\<rparr>))
        else Ret e
      else Ret e)"

section \<open>The first pass: off the wheel\<close>

text \<open>The item of a polled descriptor, the message and the descriptor behind an event.\<close>

definition fd_event :: "'z tmem_scheme \<Rightarrow> epoll_event \<Rightarrow> bool" where
  "fd_event h ee \<longleftrightarrow> (\<exists>a t p. fst ee = Some a \<and> items h a = Some t \<and>
     perpareFuncPtr t = Some pollPerpare_ptr \<and> perpareFuncArgs t = Some p \<and>
     callbackFuncPtr t = Some pollCallback_ptr \<and> callbackFunArgs t = Some p)"

definition ev_item :: "'z tmem_scheme \<Rightarrow> epoll_event \<Rightarrow> TaskItem" where
  "ev_item h ee = the (items h (the (fst ee)))"

definition ev_msg :: "'z tmem_scheme \<Rightarrow> epoll_event \<Rightarrow> pmid" where
  "ev_msg h ee = the (perpareFuncArgs (ev_item h ee))"

definition ev_fd :: "'z tmem_scheme \<Rightarrow> epoll_event \<Rightarrow> int" where
  "ev_fd h ee = epollFd (ev_item h ee)"

lemma strip_callbacks:
  assumes "strip t' = strip t"
  shows "perpareFuncPtr t' = perpareFuncPtr t" and "perpareFuncArgs t' = perpareFuncArgs t"
    and "callbackFuncPtr t' = callbackFuncPtr t" and "callbackFunArgs t' = callbackFunArgs t"
    and "bEpollEvent_ptr t' = bEpollEvent_ptr t" and "bEpollEvent_events t' = bEpollEvent_events t"
    and "IsTasktimeout t' = IsTasktimeout t"
  using arg_cong [OF assms, of perpareFuncPtr] arg_cong [OF assms, of perpareFuncArgs]
    arg_cong [OF assms, of callbackFuncPtr] arg_cong [OF assms, of callbackFunArgs]
    arg_cong [OF assms, of bEpollEvent_ptr] arg_cong [OF assms, of bEpollEvent_events]
    arg_cong [OF assms, of IsTasktimeout]
  by (simp_all add: strip_def)

text \<open>Memories with the same items up to links.\<close>

definition same_payload :: "'z tmem_scheme \<Rightarrow> 'y tmem_scheme \<Rightarrow> bool" where
  "same_payload h h' \<longleftrightarrow> (\<forall>a. map_option strip (items h' a) = map_option strip (items h a))"

lemma same_payload_trans: "same_payload h h' \<Longrightarrow> same_payload h' h'' \<Longrightarrow> same_payload h h''"
  by (simp add: same_payload_def)

lemma same_payload_Some:
  assumes "same_payload h h'" and "items h a = Some t"
  obtains t' where "items h' a = Some t'" and "strip t' = strip t"
proof -
  have "map_option strip (items h' a) = Some (strip t)" using assms by (simp add: same_payload_def)
  then show thesis using that by blast
qed

lemma same_payload_None: "same_payload h h' \<Longrightarrow> items h' a = None \<longleftrightarrow> items h a = None"
  unfolding same_payload_def by (metis option.map_disc_iff)

lemma fd_event_payload:
  assumes "same_payload h h'" and "fd_event h ee"
  shows "fd_event h' ee" and "ev_msg h' ee = ev_msg h ee" and "ev_fd h' ee = ev_fd h ee"
proof -
  obtain a t p where t: "fst ee = Some a" "items h a = Some t" "perpareFuncPtr t = Some pollPerpare_ptr"
    "perpareFuncArgs t = Some p" "callbackFuncPtr t = Some pollCallback_ptr" "callbackFunArgs t = Some p"
    using assms(2) by (auto simp: fd_event_def)
  obtain t' where t': "items h' a = Some t'" "strip t' = strip t" by (rule same_payload_Some [OF assms(1) t(2)])
  show "fd_event h' ee" using t t' strip_callbacks [OF t'(2)] by (simp add: fd_event_def)
  show "ev_msg h' ee = ev_msg h ee" and "ev_fd h' ee = ev_fd h ee"
    using t t' strip_callbacks [OF t'(2)] strip_payload [OF t'(2)]
    by (simp_all add: ev_msg_def ev_fd_def ev_item_def)
qed

text \<open>What the first pass does to a message, event by event.\<close>

definition noted :: "int \<Rightarrow> u32 \<Rightarrow> poll_message \<Rightarrow> poll_message" where
  "noted fd ev pm = pm\<lparr>pollfds := set_revents fd (epoll_to_poll_events ev) (pollfds pm),
     activeFdsNums := activeFdsNums pm + 1, activeFdsNums2 := activeFdsNums2 pm + 1,
     IsRemoveFromTimeoutList := True\<rparr>"

definition noted_all :: "'z tmem_scheme \<Rightarrow> epoll_event list \<Rightarrow> pmid \<Rightarrow> poll_message \<Rightarrow> poll_message" where
  "noted_all h evs p = fold (\<lambda>ee pm. if ev_msg h ee = p then noted (ev_fd h ee) (snd ee) pm else pm) evs"

lemma noted_all_simps [simp]:
  "noted_all h [] p pm = pm"
  "noted_all h (ee # evs) p pm = noted_all h evs p (if ev_msg h ee = p then noted (ev_fd h ee) (snd ee) pm else pm)"
  by (simp_all add: noted_all_def)

lemma noted_all_payload:
  assumes "same_payload h h'" and "\<forall>ee \<in> set evs. fd_event h ee"
  shows "noted_all h' evs p = noted_all h evs p"
proof
  fix pm show "noted_all h' evs p pm = noted_all h evs p pm"
    using assms(2) by (induction evs arbitrary: pm) (simp_all add: fd_event_payload [OF assms(1)])
qed

lemma noted_all_fields:
  "pm_task (noted_all h evs p pm) = pm_task pm"
  "eachFdTask (noted_all h evs p pm) = eachFdTask pm"
  "IsJoinActiveList (noted_all h evs p pm) = IsJoinActiveList pm"
  "IsRemoveFromTimeoutList (noted_all h evs p pm) = (IsRemoveFromTimeoutList pm \<or> p \<in> set (map (ev_msg h) evs))"
  "activeFdsNums (noted_all h evs p pm) = activeFdsNums pm + of_nat (count_list (map (ev_msg h) evs) p)"
  "activeFdsNums2 (noted_all h evs p pm) = activeFdsNums2 pm + of_nat (count_list (map (ev_msg h) evs) p)"
  "map pfd_fd (pollfds (noted_all h evs p pm)) = map pfd_fd (pollfds pm)"
proof -
  have fds: "map pfd_fd (set_revents fd ev fs) = map pfd_fd fs" for fd ev fs by (induction fs) auto
  show "pm_task (noted_all h evs p pm) = pm_task pm" "eachFdTask (noted_all h evs p pm) = eachFdTask pm"
    "IsJoinActiveList (noted_all h evs p pm) = IsJoinActiveList pm"
    "IsRemoveFromTimeoutList (noted_all h evs p pm) = (IsRemoveFromTimeoutList pm \<or> p \<in> set (map (ev_msg h) evs))"
    "activeFdsNums (noted_all h evs p pm) = activeFdsNums pm + of_nat (count_list (map (ev_msg h) evs) p)"
    "activeFdsNums2 (noted_all h evs p pm) = activeFdsNums2 pm + of_nat (count_list (map (ev_msg h) evs) p)"
    "map pfd_fd (pollfds (noted_all h evs p pm)) = map pfd_fd (pollfds pm)"
    by (induction evs arbitrary: pm) (auto simp: noted_def fds)
qed

text \<open>Taking tasks out of whatever lists they are in.\<close>

definition without :: "addr set \<Rightarrow> (laddr \<Rightarrow> addr list option) \<Rightarrow> (laddr \<Rightarrow> addr list option)" where
  "without A Q = (\<lambda>l. map_option (filter (\<lambda>a. a \<notin> A)) (Q l))"

lemma without_empty [simp]: "without {} Q = Q"
proof
  fix l show "without {} Q l = Q l" by (cases "Q l") (simp_all add: without_def)
qed

lemma without_without: "without A (without B Q) = without (A \<union> B) Q"
proof
  fix l show "without A (without B Q) l = without (A \<union> B) Q l"
    by (cases "Q l") (auto simp: without_def intro!: filter_cong)
qed

lemma without_nowhere: "(\<And>l xs. Q l = Some xs \<Longrightarrow> k \<notin> set xs) \<Longrightarrow> without {k} Q = Q"
proof
  fix l assume "\<And>l xs. Q l = Some xs \<Longrightarrow> k \<notin> set xs"
  then show "without {k} Q l = Q l" by (cases "Q l") (auto simp: without_def filter_id_conv)
qed

lemma without_one:
  assumes ok: "links_ok h Q" and Ql: "Q l = Some (ys @ k # zs)"
  shows "Q(l \<mapsto> ys @ zs) = without {k} Q"
proof
  fix m
  have d: "k \<notin> set ys" "k \<notin> set zs" using links_ok_distinct [OF ok Ql] by auto
  show "(Q(l \<mapsto> ys @ zs)) m = without {k} Q m"
  proof (cases "m = l")
    case True
    have "filter (\<lambda>a. a \<noteq> k) ys = ys" "filter (\<lambda>a. a \<noteq> k) zs = zs"
      using d by (auto simp: filter_id_conv)
    then show ?thesis using True Ql by (simp add: without_def)
  next
    case False
    have "k \<notin> set xs" if "Q m = Some xs" for xs
      using links_ok_disjoint [OF ok Ql that, of k] False by auto
    then show ?thesis using False by (cases "Q m") (auto simp: without_def intro!: filter_True [symmetric])
  qed
qed

lemma without_mem: "without A Q l = Some ys \<Longrightarrow> \<exists>xs. Q l = Some xs \<and> ys = filter (\<lambda>a. a \<notin> A) xs"
  by (auto simp: without_def)

text \<open>A message the first pass may meet: its task is in some list, or off it already.\<close>

definition first_pass_ok :: "'z pollenv_scheme \<Rightarrow> (laddr \<Rightarrow> addr list option) \<Rightarrow> pmid \<Rightarrow> bool" where
  "first_pass_ok e Q p \<longleftrightarrow> (\<exists>pm k. pmsgs e p = Some pm \<and> pm_task pm = Some k \<and>
     (if IsRemoveFromTimeoutList pm then loose k e else \<exists>l xs. Q l = Some xs \<and> k \<in> set xs))"

definition task_of :: "'z pollenv_scheme \<Rightarrow> pmid \<Rightarrow> addr" where
  "task_of e p = the (pm_task (the (pmsgs e p)))"

text \<open>Everything but links and messages is the same.\<close>

definition pass_frame :: "'z pollenv_scheme \<Rightarrow> 'z pollenv_scheme \<Rightarrow> bool" where
  "pass_frame e e' \<longleftrightarrow> link_frame (e\<lparr>pmsgs := pmsgs e'\<rparr>) e'"

lemma pass_frame_refl [simp]: "pass_frame e e"
  by (simp add: pass_frame_def)

lemma pollenv_more_eq:
  assumes "rtenv.more e' = rtenv.more e"
  shows "pmsgs e' = pmsgs e" and "pm_brk e' = pm_brk e" and "bEpollDealLock e' = bEpollDealLock e"
    and "ctl_log e' = ctl_log e"
  using assms by (cases e; cases e'; simp)+

lemma pass_frame_fields:
  assumes "pass_frame e e'"
  shows "same_payload e e'" and "ctl_log e' = ctl_log e" and "Epoll e' = Epoll e"
    and "pm_brk e' = pm_brk e" and "bEpollDealLock e' = bEpollDealLock e"
    and "env_frame (e\<lparr>pmsgs := pmsgs e'\<rparr>) e'"
proof -
  let ?e = "e\<lparr>pmsgs := pmsgs e'\<rparr>"
  have fr: "link_frame ?e e'" using assms by (simp add: pass_frame_def)
  then show "same_payload e e'" by (simp add: link_frame_def same_payload_def)
  have "tmem.more e' = tmem.more ?e" using fr by (simp add: link_frame_def)
  note m = rtenv_more_eq(13) [OF this]
  show "Epoll e' = Epoll e" using epenv_more_eq(1) [OF m] by simp
  show "env_frame ?e e'" by (rule env_frame_links [OF fr])
  show "ctl_log e' = ctl_log e" "pm_brk e' = pm_brk e" "bEpollDealLock e' = bEpollDealLock e"
    using pollenv_more_eq [OF m] by simp_all
qed

lemma pass_frame_trans:
  assumes "pass_frame e e'" and "pass_frame e' e''"
  shows "pass_frame e e''"
proof -
  have "link_frame (e\<lparr>pmsgs := pmsgs e''\<rparr>) (e'\<lparr>pmsgs := pmsgs e''\<rparr>)"
    using assms(1) unfolding pass_frame_def link_frame_def by (cases e; cases e') simp
  with assms(2) show ?thesis unfolding pass_frame_def by (blast intro: link_frame_trans)
qed

lemma perpare_step:
  fixes e :: "'z pollenv_scheme"
  assumes ok: "tasks_ok e Q" and ev: "fd_event e ee" and p: "p = ev_msg e ee" and fp: "first_pass_ok e Q p"
  shows "\<exists>e'. call_perpare ee e = Ret e' \<and> tasks_ok e' (without {task_of e p} Q) \<and> pass_frame e e' \<and>
    pmsgs e' = (pmsgs e)(p \<mapsto> noted (ev_fd e ee) (snd ee) (the (pmsgs e p))) \<and> loose (task_of e p) e' \<and>
    count_of e' = count_of e"
proof -
  obtain a t where t: "fst ee = Some a" "items e a = Some t" "perpareFuncPtr t = Some pollPerpare_ptr"
    "perpareFuncArgs t = Some p" "ev_fd e ee = epollFd t"
    using ev p by (auto simp: fd_event_def ev_msg_def ev_fd_def ev_item_def)
  obtain pm k where pm: "pmsgs e p = Some pm" "pm_task pm = Some k"
    "if IsRemoveFromTimeoutList pm then loose k e else \<exists>l xs. Q l = Some xs \<and> k \<in> set xs"
    using fp by (auto simp: first_pass_ok_def)
  have k: "task_of e p = k" using pm by (simp add: task_of_def)
  let ?pm = "noted (ev_fd e ee) (snd ee) pm" and ?e = "put_pm p (noted (ev_fd e ee) (snd ee) pm) e"
  show ?thesis
  proof (cases "IsRemoveFromTimeoutList pm")
    case True
    have lo: "loose k e" using pm(3) True by simp
    have "?pm = pm\<lparr>pollfds := set_revents (epollFd t) (epoll_to_poll_events (snd ee)) (pollfds pm),
        activeFdsNums := activeFdsNums pm + 1, activeFdsNums2 := activeFdsNums2 pm + 1\<rparr>"
      using True t(5) by (simp add: noted_def)
    then have "call_perpare ee e = Ret ?e"
      using t pm True by (simp add: call_perpare_def pollPerpare_def pm_at_def Let_def)
    moreover have "without {k} Q = Q"
      using loose_not_in [OF tasks_ok_links [OF ok] lo] by (rule without_nowhere)
    moreover have "tasks_ok ?e Q" using ok tasks_ok_cong [of ?e e] by (simp add: put_pm_def)
    moreover have "loose k ?e" using lo loose_cong [of ?e e] by (simp add: put_pm_def)
    moreover have "count_of ?e = count_of e" by (simp add: count_of_def put_pm_def fun_eq_iff)
    ultimately show ?thesis using pm by (simp add: k put_pm_def pass_frame_def)
  next
    case False
    then obtain l xs where l: "Q l = Some xs" "k \<in> set xs" using pm(3) by auto
    then obtain ys zs where xs: "Q l = Some (ys @ k # zs)" by (auto simp: in_set_conv_decomp)
    have ok1: "tasks_ok ?e Q" using ok tasks_ok_cong [of ?e e] by (simp add: put_pm_def)
    obtain e' where e': "RemoveSelfFromOwnerlink_Save (Some k) ?e = Ret (Some k, e')"
      "tasks_ok e' (Q(l \<mapsto> ys @ zs))" "loose k e'" "link_frame ?e e'" "count_of e' = count_of ?e"
      using RemoveSelf_Save_tasks [OF ok1 xs] by blast
    have pe: "pmsgs e' = pmsgs ?e" using e'(4) unfolding link_frame_def by (cases e; cases e') (simp add: put_pm_def)
    have "call_perpare ee e = Ret e'"
      using t pm False e'(1)
      by (simp add: call_perpare_def pollPerpare_def pm_at_def Let_def noted_def)
    moreover have "tasks_ok e' (without {k} Q)"
      using e'(2) without_one [OF tasks_ok_links [OF ok] xs] by simp
    moreover have "pass_frame e e'" using e'(4) by (simp add: pass_frame_def pe) (simp add: put_pm_def)
    moreover have "count_of e' = count_of e" unfolding e'(5) by (simp add: count_of_def put_pm_def fun_eq_iff)
    ultimately show ?thesis using pe e'(3) pm by (simp add: k) (simp add: put_pm_def)
  qed
qed

text \<open>The whole pass, for messages with different tasks: what it needs of the events still to come,
  what one event leaves, and what the pass leaves.\<close>

definition first_pre :: "epoll_event list \<Rightarrow> 'z pollenv_scheme \<Rightarrow> (laddr \<Rightarrow> addr list option) \<Rightarrow> bool" where
  "first_pre evs e Q \<longleftrightarrow> tasks_ok e Q \<and> (\<forall>ee \<in> set evs. fd_event e ee \<and> first_pass_ok e Q (ev_msg e ee)) \<and>
     inj_on (task_of e) (set (map (ev_msg e) evs))"

definition noted_step ::
    "epoll_event \<Rightarrow> 'z pollenv_scheme \<Rightarrow> (laddr \<Rightarrow> addr list option) \<Rightarrow> 'z pollenv_scheme \<Rightarrow> bool" where
  "noted_step ee e Q e1 \<longleftrightarrow> tasks_ok e1 (without {task_of e (ev_msg e ee)} Q) \<and> pass_frame e e1 \<and>
     pmsgs e1 = (pmsgs e)(ev_msg e ee \<mapsto> noted (ev_fd e ee) (snd ee) (the (pmsgs e (ev_msg e ee)))) \<and>
     loose (task_of e (ev_msg e ee)) e1 \<and> count_of e1 = count_of e"

definition first_done ::
    "epoll_event list \<Rightarrow> 'z pollenv_scheme \<Rightarrow> (laddr \<Rightarrow> addr list option) \<Rightarrow> 'z pollenv_scheme \<Rightarrow> bool" where
  "first_done evs e Q e' \<longleftrightarrow> tasks_ok e' (without (task_of e ` set (map (ev_msg e) evs)) Q) \<and> pass_frame e e' \<and>
     (\<forall>p. pmsgs e' p = map_option (noted_all e evs p) (pmsgs e p)) \<and>
     (\<forall>p \<in> set (map (ev_msg e) evs). loose (task_of e p) e') \<and> count_of e' = count_of e"

lemma noted_stepD:
  assumes "noted_step ee e Q e1"
  shows "tasks_ok e1 (without {task_of e (ev_msg e ee)} Q)" and "pass_frame e e1"
    and "pmsgs e1 = (pmsgs e)(ev_msg e ee \<mapsto> noted (ev_fd e ee) (snd ee) (the (pmsgs e (ev_msg e ee))))"
    and "loose (task_of e (ev_msg e ee)) e1" and "count_of e1 = count_of e"
  using assms by (simp_all add: noted_step_def)

lemma first_preD:
  assumes "first_pre (ee # evs) e Q"
  shows "tasks_ok e Q" and "fd_event e ee" and "first_pass_ok e Q (ev_msg e ee)"
    and "\<forall>ee \<in> set evs. fd_event e ee" and "\<forall>q \<in> set (map (ev_msg e) evs). first_pass_ok e Q q"
    and "inj_on (task_of e) (set (map (ev_msg e) (ee # evs)))"
  using assms by (auto simp: first_pre_def)

text \<open>Taking one task off its list leaves the tasks loose that were.\<close>

lemma loose_without:
  assumes ok: "tasks_ok e Q" and ok1: "tasks_ok e1 (without A Q)" and sp: "same_payload e e1"
    and lo: "loose x e"
  shows "loose x e1"
proof (rule links_ok_loose [OF tasks_ok_links [OF ok1]])
  show "items e1 x \<noteq> None" using lo same_payload_None [OF sp] by (simp add: loose_def)
  show "x \<notin> set ys" if "without A Q l = Some ys" for l ys
    using without_mem [OF that] loose_not_in [OF tasks_ok_links [OF ok] lo] by auto
qed

text \<open>After one event every message still to come can be met: the one just noted has left its list.\<close>

lemma first_pass_ok_noted:
  assumes ok: "tasks_ok e Q" and ns: "noted_step ee e Q e1" and fp0: "first_pass_ok e Q (ev_msg e ee)"
    and fp: "first_pass_ok e Q q" and ne: "q \<noteq> ev_msg e ee \<Longrightarrow> task_of e q \<noteq> task_of e (ev_msg e ee)"
  shows "first_pass_ok e1 (without {task_of e (ev_msg e ee)} Q) q"
proof (cases "q = ev_msg e ee")
  case True
  then show ?thesis
    using noted_stepD(4) [OF ns] fp0 by (auto simp: first_pass_ok_def noted_stepD(3) [OF ns] noted_def task_of_def)
next
  case False
  let ?k = "task_of e (ev_msg e ee)"
  obtain pm k where pm: "pmsgs e1 q = Some pm" "pm_task pm = Some k" "k \<noteq> ?k"
    "if IsRemoveFromTimeoutList pm then loose k e else \<exists>l xs. Q l = Some xs \<and> k \<in> set xs"
    using fp ne [OF False] False by (auto simp: first_pass_ok_def task_of_def noted_stepD(3) [OF ns])
  show ?thesis
  proof (cases "IsRemoveFromTimeoutList pm")
    case True
    then have "loose k e1"
      using pm(4) by (intro loose_without [OF ok noted_stepD(1) [OF ns] pass_frame_fields(1) [OF noted_stepD(2) [OF ns]]]) simp
    then show ?thesis using pm True by (simp add: first_pass_ok_def)
  next
    case notrem: False
    then obtain l xs where "Q l = Some xs" "k \<in> set xs" using pm(4) by auto
    then have "\<exists>l ys. without {?k} Q l = Some ys \<and> k \<in> set ys"
      using pm(3) by (intro exI [of _ l]) (simp add: without_def)
    then show ?thesis using pm notrem by (simp add: first_pass_ok_def)
  qed
qed

lemma noted_step_own:
  assumes pre: "first_pre (ee # evs) e Q" and ns: "noted_step ee e Q e1"
  shows "map (ev_msg e1) evs = map (ev_msg e) evs" and "task_of e1 q = task_of e q"
proof -
  show "map (ev_msg e1) evs = map (ev_msg e) evs"
    using first_preD(4) [OF pre] fd_event_payload(2) [OF pass_frame_fields(1) [OF noted_stepD(2) [OF ns]]] by simp
  obtain pm where "pmsgs e (ev_msg e ee) = Some pm"
    using first_preD(3) [OF pre] by (auto simp: first_pass_ok_def)
  then show "task_of e1 q = task_of e q"
    by (simp add: task_of_def noted_stepD(3) [OF ns] noted_def)
qed

lemma first_pre_step:
  assumes pre: "first_pre (ee # evs) e Q" and ns: "noted_step ee e Q e1"
  shows "first_pre evs e1 (without {task_of e (ev_msg e ee)} Q)"
proof -
  note own = noted_step_own [OF pre ns] and sp = pass_frame_fields(1) [OF noted_stepD(2) [OF ns]]
  have "first_pass_ok e1 (without {task_of e (ev_msg e ee)} Q) q" if q: "q \<in> set (map (ev_msg e) evs)" for q
  proof (rule first_pass_ok_noted [OF first_preD(1) [OF pre] ns first_preD(3) [OF pre]])
    show "first_pass_ok e Q q" using first_preD(5) [OF pre] q by blast
    show "task_of e q \<noteq> task_of e (ev_msg e ee)" if "q \<noteq> ev_msg e ee"
      using inj_onD [OF first_preD(6) [OF pre], of q "ev_msg e ee"] that q by auto
  qed
  then have "first_pass_ok e1 (without {task_of e (ev_msg e ee)} Q) (ev_msg e1 x)" "fd_event e1 x" if "x \<in> set evs" for x
    using that first_preD(4) [OF pre] fd_event_payload(1,2) [OF sp] by simp_all
  moreover have "inj_on (task_of e1) (set (map (ev_msg e1) evs))"
    using inj_on_subset [OF first_preD(6) [OF pre], of "set (map (ev_msg e) evs)"]
    unfolding own(1) by (auto simp: inj_on_def own(2))
  ultimately show ?thesis using noted_stepD(1) [OF ns] by (simp add: first_pre_def)
qed

lemma first_done_step:
  assumes pre: "first_pre (ee # evs) e Q" and ns: "noted_step ee e Q e1"
    and d: "first_done evs e1 (without {task_of e (ev_msg e ee)} Q) e'"
  shows "first_done (ee # evs) e Q e'"
proof -
  let ?k = "task_of e (ev_msg e ee)" and ?ps = "map (ev_msg e) evs"
  note own = noted_step_own [OF pre ns] and sp = pass_frame_fields(1) [OF noted_stepD(2) [OF ns]]
  obtain pm0 where pm0: "pmsgs e (ev_msg e ee) = Some pm0"
    using first_preD(3) [OF pre] by (auto simp: first_pass_ok_def)
  have e': "tasks_ok e' (without (task_of e ` set ?ps) (without {?k} Q))" "pass_frame e1 e'"
    "\<And>q. pmsgs e' q = map_option (noted_all e1 evs q) (pmsgs e1 q)"
    "\<And>q. q \<in> set ?ps \<Longrightarrow> loose (task_of e q) e'" "count_of e' = count_of e"
    using d noted_stepD(5) [OF ns] unfolding first_done_def own(1) by (auto simp: own(2))
  have "pmsgs e' q = map_option (noted_all e (ee # evs) q) (pmsgs e q)" for q
    using pm0 by (cases "pmsgs e q")
      (auto simp: e'(3) noted_all_payload [OF sp first_preD(4) [OF pre]] noted_stepD(3) [OF ns])
  moreover have ok: "tasks_ok e' (without (task_of e ` set (map (ev_msg e) (ee # evs))) Q)"
    using e'(1) by (simp add: without_without)
  moreover have "loose ?k e'"
  proof (rule links_ok_loose [OF tasks_ok_links [OF ok]])
    show "items e' ?k \<noteq> None"
      using noted_stepD(4) [OF ns] same_payload_None [OF pass_frame_fields(1) [OF e'(2)]] by (simp add: loose_def)
    show "?k \<notin> set ys" if "without (task_of e ` set (map (ev_msg e) (ee # evs))) Q l = Some ys" for l ys
      using without_mem [OF that] by auto
  qed
  ultimately show ?thesis
    using e'(4,5) pass_frame_trans [OF noted_stepD(2) [OF ns] e'(2)]
    by (simp add: first_done_def del: noted_all_simps)
qed

lemma first_pass: "first_pre evs e Q \<Longrightarrow> \<exists>e'. push_list call_perpare evs e = Ret e' \<and> first_done evs e Q e'"
proof (induction evs arbitrary: e Q)
  case Nil
  have "noted_all e [] p = (\<lambda>pm. pm)" for p by (simp add: fun_eq_iff)
  then show ?case using Nil by (simp add: first_pre_def first_done_def option.map_ident)
next
  case (Cons ee evs)
  obtain e1 where e1: "call_perpare ee e = Ret e1" "noted_step ee e Q e1"
    using perpare_step [OF first_preD(1,2) [OF Cons.prems] refl first_preD(3) [OF Cons.prems]]
    unfolding noted_step_def by blast
  from Cons.IH [OF first_pre_step [OF Cons.prems e1(2)]] obtain e' where
    "push_list call_perpare evs e1 = Ret e'" "first_done (ee # evs) e Q e'"
    using first_done_step [OF Cons.prems e1(2)] by blast
  with e1(1) show ?case by simp
qed

lemma same_payload_env: "env_frame e e' \<Longrightarrow> same_payload e e'"
  by (simp add: env_frame_def same_payload_def)

section \<open>The second pass: one task for every message\<close>

text \<open>The \<open>epoll_ctl\<close> calls for the items of a message.\<close>

definition ctl_entry :: "ctl_op \<Rightarrow> 'z tmem_scheme \<Rightarrow> addr \<Rightarrow> ctl_op \<times> int \<times> addr option \<times> u32" where
  "ctl_entry op h a = (let t = the (items h a) in (op, epollFd t, bEpollEvent_ptr t, bEpollEvent_events t))"

lemma ctl_entry_payload:
  assumes "same_payload h h'" and "items h a \<noteq> None"
  shows "ctl_entry op h' a = ctl_entry op h a"
proof -
  obtain t where t: "items h a = Some t" using assms(2) by blast
  obtain t' where t': "items h' a = Some t'" "strip t' = strip t" by (rule same_payload_Some [OF assms(1) t])
  then show ?thesis
    using t strip_callbacks(5,6) [OF t'(2)] strip_payload(4) [OF t'(2)] by (simp add: ctl_entry_def Let_def)
qed

lemma ctl_items_run:
  fixes e :: "'z pollenv_scheme"
  shows "\<forall>a \<in> set as. items e a \<noteq> None \<Longrightarrow>
    ctl_items op as e = Ret (e\<lparr>ctl_log := ctl_log e @ map (ctl_entry op e) as\<rparr>)"
proof (induction as arbitrary: e)
  case Nil
  then show ?case by simp
next
  case (Cons a as)
  then obtain t where t: "items e a = Some t" by auto
  let ?e = "e\<lparr>ctl_log := ctl_log e @ [(op, epollFd t, bEpollEvent_ptr t, bEpollEvent_events t)]\<rparr>"
  have "ctl_entry op ?e b = ctl_entry op e b" for b by (simp add: ctl_entry_def)
  then show ?case using Cons.IH [of ?e] Cons.prems t by (simp add: ctl_entry_def Let_def)
qed

definition msg_items :: "'z pollenv_scheme \<Rightarrow> pmid \<Rightarrow> addr list" where
  "msg_items e p = eachFdTask (the (pmsgs e p))"

definition msg_entries :: "ctl_op \<Rightarrow> 'z pollenv_scheme \<Rightarrow> pmid \<Rightarrow> (ctl_op \<times> int \<times> addr option \<times> u32) list" where
  "msg_entries op e p = map (ctl_entry op e) (msg_items e p)"

text \<open>What waking does to a message, and when the second pass may meet one.\<close>

definition woken_msg :: "poll_message \<Rightarrow> poll_message" where
  "woken_msg pm = pm\<lparr>activeFdsNums2 := 0, IsJoinActiveList := True, pm_task := None\<rparr>"

definition second_pass_ok :: "'z pollenv_scheme \<Rightarrow> pmid list \<Rightarrow> pmid \<Rightarrow> bool" where
  "second_pass_ok e ps p \<longleftrightarrow> (\<exists>pm k. pmsgs e p = Some pm \<and> pm_task pm = Some k \<and> \<not> IsJoinActiveList pm \<and>
     activeFdsNums2 pm = of_nat (count_list ps p) \<and> task_ready e k \<and> (\<forall>a \<in> set (eachFdTask pm). items e a \<noteq> None))"

lemma of_nat_u64_eq_0: "n < 2 ^ 64 \<Longrightarrow> (of_nat n :: u64) = 0 \<longleftrightarrow> n = 0"
  by (simp add: word_of_nat_eq_0_iff) (auto dest: dvd_imp_le)

text \<open>An event that is not the last of its message counts down and does nothing else.\<close>

lemma callback_early:
  fixes e :: "'z pollenv_scheme"
  assumes ev: "fd_event e ee" and p: "p = ev_msg e ee" and sp: "second_pass_ok e (p # ps) p"
    and len: "length ps < 2 ^ 64 - 1" and more: "p \<in> set ps"
  shows "\<exists>pm. pmsgs e p = Some pm \<and> call_back ee e = Ret (put_pm p (pm\<lparr>activeFdsNums2 := of_nat (count_list ps p)\<rparr>) e)"
proof -
  obtain a t where t: "fst ee = Some a" "items e a = Some t" "callbackFuncPtr t = Some pollCallback_ptr"
    "callbackFunArgs t = Some p"
    using ev p by (auto simp: fd_event_def ev_msg_def ev_item_def)
  obtain pm where pm: "pmsgs e p = Some pm" "activeFdsNums2 pm = of_nat (count_list (p # ps) p)"
    using sp by (auto simp: second_pass_ok_def)
  have n: "activeFdsNums2 pm - 1 = of_nat (count_list ps p)" using pm(2) by simp
  have "count_list ps p \<noteq> 0" using more by (simp add: count_list_0_iff)
  moreover have "count_list ps p < 2 ^ 64" using len count_le_length [of ps p] by simp
  ultimately have "(of_nat (count_list ps p) :: u64) \<noteq> 0" by (simp only: of_nat_u64_eq_0 not_False_eq_True)
  with n have "activeFdsNums2 pm \<noteq> 1" by auto
  then have "call_back ee e = Ret (put_pm p (pm\<lparr>activeFdsNums2 := of_nat (count_list ps p)\<rparr>) e)"
    using t pm(1) n by (simp add: call_back_def pollCallback_def pm_at_def Let_def)
  with pm(1) show ?thesis by blast
qed

text \<open>The last event of a message takes its items off \<open>epoll\<close> and commits its task.\<close>

lemma callback_last:
  fixes e :: "'z pollenv_scheme"
  assumes ok: "dist_ok e Q ls" and ev: "fd_event e ee" and p: "p = ev_msg e ee"
    and sp: "second_pass_ok e (p # ps) p" and last: "p \<notin> set ps"
  shows "\<exists>e' Q'. call_back ee e = Ret e' \<and> dealt ls [task_of e p] e Q e' Q' \<and>
    pmsgs e' = (pmsgs e)(p \<mapsto> woken_msg (the (pmsgs e p))) \<and> ctl_log e' = ctl_log e @ msg_entries CTL_DEL e p \<and>
    env_frame (e\<lparr>pmsgs := pmsgs e', ctl_log := ctl_log e'\<rparr>) e' \<and>
    (\<forall>b. task_ready e b \<longrightarrow> b \<noteq> task_of e p \<longrightarrow> task_ready e' b)"
proof -
  obtain a t where t: "fst ee = Some a" "items e a = Some t" "callbackFuncPtr t = Some pollCallback_ptr"
    "callbackFunArgs t = Some p"
    using ev p by (auto simp: fd_event_def ev_msg_def ev_item_def)
  obtain pm k where pm: "pmsgs e p = Some pm" "pm_task pm = Some k" "\<not> IsJoinActiveList pm"
    "activeFdsNums2 pm = of_nat (count_list (p # ps) p)" "task_ready e k" "\<forall>a \<in> set (eachFdTask pm). items e a \<noteq> None"
    using sp by (auto simp: second_pass_ok_def)
  have k: "task_of e p = k" using pm by (simp add: task_of_def)
  have "count_list ps p = 0" using last by (simp add: count_list_0_iff)
  then have n: "activeFdsNums2 pm - 1 = 0" using pm(4) by simp
  let ?pm = "pm\<lparr>activeFdsNums2 := 0, IsJoinActiveList := True\<rparr>" and ?log = "ctl_log e @ msg_entries CTL_DEL e p"
  let ?e = "(put_pm p ?pm e)\<lparr>ctl_log := ?log\<rparr>"
  have "ctl_each CTL_DEL (Some p) (put_pm p ?pm e) = Ret ?e"
    using ctl_items_run [of "eachFdTask pm" "put_pm p ?pm e" CTL_DEL] pm(1,6)
    by (simp add: ctl_each_def pm_at_def put_pm_def msg_entries_def msg_items_def ctl_entry_def Let_def)
  moreover have ok1: "dist_ok ?e Q ls" using ok by (subst dist_ok_above [of ?e e]) (simp_all add: put_pm_def)
  moreover have rd: "task_ready ?e b = task_ready e b" for b
    by (simp add: task_ready_def loose_def put_pm_def)
  ultimately obtain e1 Q' where e1: "AddTask (Some k) ?e = Ret e1" "dealt ls [k] ?e Q e1 Q'" "env_frame ?e e1"
    "\<And>b. task_ready e b \<Longrightarrow> b \<noteq> k \<Longrightarrow> task_ready e1 b"
    using AddTask_dealt [OF ok1, of k] pm(5) by auto
  have more: "rtenv.more e1 = rtenv.more ?e" using e1(3) by (simp add: env_frame_def)
  then have f: "pmsgs e1 = (pmsgs e)(p \<mapsto> ?pm)" "ctl_log e1 = ?log"
    using pollenv_more_eq [of e1 ?e] by (simp_all add: put_pm_def)
  let ?e' = "put_pm p (woken_msg pm) e1"
  have "call_back ee e = Ret ?e'"
    using t pm(1-3) n \<open>ctl_each CTL_DEL (Some p) (put_pm p ?pm e) = Ret ?e\<close> e1(1) f(1)
    by (simp add: call_back_def pollCallback_def pm_at_def Let_def woken_msg_def)
  moreover have "dealt ls [k] e Q ?e' Q'"
    using e1(2) dealt_cong [of ?e e ls "[k]" Q e1 Q'] dealt_cong_after [of ?e' e1 ls "[k]" e Q Q']
    by (simp add: put_pm_def count_of_def)
  moreover have "pmsgs ?e' = (pmsgs e)(p \<mapsto> woken_msg pm)" "ctl_log ?e' = ?log"
    by (simp_all add: put_pm_def f)
  moreover have "env_frame (e\<lparr>pmsgs := pmsgs ?e', ctl_log := ctl_log ?e'\<rparr>) ?e'"
    using e1(3) more f unfolding env_frame_def by (cases e; cases e1) (simp add: put_pm_def)
  moreover have "task_ready ?e' b" if "task_ready e b" "b \<noteq> k" for b
    using e1(4) [OF that] by (simp add: task_ready_def loose_def put_pm_def)
  ultimately show ?thesis using pm(1) by (intro exI [of _ ?e'] exI [of _ Q']) (simp add: k)
qed

text \<open>The whole pass: the messages in the order of their last events.\<close>

definition woke ::
    "laddr list \<Rightarrow> pmid list \<Rightarrow> 'z pollenv_scheme \<Rightarrow> (laddr \<Rightarrow> addr list option) \<Rightarrow>
     'z pollenv_scheme \<Rightarrow> (laddr \<Rightarrow> addr list option) \<Rightarrow> bool" where
  "woke ls ps e Q e' Q' \<longleftrightarrow> dealt ls (map (task_of e) (remdups ps)) e Q e' Q' \<and>
     (\<forall>p. pmsgs e' p = (if p \<in> set ps then map_option woken_msg (pmsgs e p) else pmsgs e p)) \<and>
     ctl_log e' = ctl_log e @ concat (map (msg_entries CTL_DEL e) (remdups ps)) \<and>
     env_frame (e\<lparr>pmsgs := pmsgs e', ctl_log := ctl_log e'\<rparr>) e'"

text \<open>What the pass needs of the events still to come.\<close>

definition second_pre ::
    "laddr list \<Rightarrow> epoll_event list \<Rightarrow> 'z pollenv_scheme \<Rightarrow> (laddr \<Rightarrow> addr list option) \<Rightarrow> bool" where
  "second_pre ls evs e Q \<longleftrightarrow> dist_ok e Q ls \<and>
     (\<forall>ee \<in> set evs. fd_event e ee \<and> second_pass_ok e (map (ev_msg e) evs) (ev_msg e ee)) \<and>
     inj_on (task_of e) (set (map (ev_msg e) evs))"

lemma second_preD:
  assumes "second_pre ls (ee # evs) e Q"
  shows "dist_ok e Q ls" and "fd_event e ee" and "\<forall>ee \<in> set evs. fd_event e ee"
    and "second_pass_ok e (ev_msg e ee # map (ev_msg e) evs) (ev_msg e ee)"
    and "q \<in> set (map (ev_msg e) evs) \<Longrightarrow> second_pass_ok e (ev_msg e ee # map (ev_msg e) evs) q"
    and "inj_on (task_of e) (insert (ev_msg e ee) (set (map (ev_msg e) evs)))"
  using assms by (auto simp: second_pre_def)

lemma second_preI:
  assumes "dist_ok e1 Q1 ls" and pay: "same_payload e e1" and evs: "\<forall>ee \<in> set evs. fd_event e ee"
    and so: "\<And>q. q \<in> set (map (ev_msg e) evs) \<Longrightarrow> second_pass_ok e1 (map (ev_msg e) evs) q"
    and inj: "inj_on (task_of e1) (set (map (ev_msg e) evs))"
  shows "second_pre ls evs e1 Q1" and "map (ev_msg e1) evs = map (ev_msg e) evs"
proof -
  show own: "map (ev_msg e1) evs = map (ev_msg e) evs" using evs fd_event_payload(2) [OF pay] by simp
  have "\<forall>ee \<in> set evs. fd_event e1 ee \<and> second_pass_ok e1 (map (ev_msg e1) evs) (ev_msg e1 ee)"
    unfolding own using evs fd_event_payload(1,2) [OF pay] so by auto
  with assms(1) inj show "second_pre ls evs e1 Q1" unfolding second_pre_def own by blast
qed

text \<open>One event, before the rest: its message has more to come.\<close>

lemma early_step:
  fixes e :: "'z pollenv_scheme"
  assumes pre: "second_pre ls (ee # evs) e Q" and ps: "ps = map (ev_msg e) evs" and len: "length ps < 2 ^ 64 - 1"
    and more: "ev_msg e ee \<in> set ps"
  obtains e1 where "call_back ee e = Ret e1" and "second_pre ls evs e1 Q" and "map (ev_msg e1) evs = ps"
    and "\<And>e' Q'. woke ls ps e1 Q e' Q' \<Longrightarrow> woke ls (ev_msg e ee # ps) e Q e' Q'"
proof -
  note P = second_preD [OF pre, folded ps]
  let ?p = "ev_msg e ee"
  obtain pm where pm: "pmsgs e ?p = Some pm"
    "call_back ee e = Ret (put_pm ?p (pm\<lparr>activeFdsNums2 := of_nat (count_list ps ?p)\<rparr>) e)"
    using callback_early [OF P(2) refl P(4) len more] by blast
  let ?e1 = "put_pm ?p (pm\<lparr>activeFdsNums2 := of_nat (count_list ps ?p)\<rparr>) e"
  have its: "items ?e1 = items e" "ctl_log ?e1 = ctl_log e" by (simp_all add: put_pm_def)
  have sp: "same_payload e ?e1" by (simp add: same_payload_def its)
  have tsk: "task_of ?e1 = task_of e" "msg_entries op ?e1 = msg_entries op e" for op
    using pm(1) by (simp_all add: fun_eq_iff task_of_def msg_entries_def msg_items_def ctl_entry_def put_pm_def Let_def)
  have ok1: "dist_ok ?e1 Q ls" using P(1) by (subst dist_ok_above [of ?e1 e]) (simp_all add: put_pm_def)
  have "second_pass_ok ?e1 ps q" if "q \<in> set ps" for q
    using P(5) [OF that] pm(1) by (auto simp: second_pass_ok_def put_pm_def task_ready_def loose_def)
  moreover have "inj_on (task_of ?e1) (set ps)" using P(6) by (simp add: tsk)
  ultimately have onw: "second_pre ls evs ?e1 Q" "map (ev_msg ?e1) evs = ps"
    using second_preI [OF ok1 sp P(3), folded ps] by blast+
  have rd: "remdups (?p # ps) = remdups ps" using more by simp
  have dl: "dealt ls ts ?e1 Q e' Q' = dealt ls ts e Q e' Q'" for ts e' Q'
    by (rule dealt_cong) (simp_all add: put_pm_def count_of_def)
  have later: "woke ls (?p # ps) e Q e' Q'" if w: "woke ls ps ?e1 Q e' Q'" for e' Q'
  proof -
    have "\<forall>q. pmsgs e' q = (if q \<in> set (?p # ps) then map_option woken_msg (pmsgs e q) else pmsgs e q)"
      using w pm(1) more by (auto simp: woke_def put_pm_def woken_msg_def)
    moreover have "env_frame (e\<lparr>pmsgs := pmsgs e', ctl_log := ctl_log e'\<rparr>) e'"
    proof -
      have "env_frame (?e1\<lparr>pmsgs := pmsgs e', ctl_log := ctl_log e'\<rparr>) e'" using w unfolding woke_def by blast
      then show ?thesis by (simp add: put_pm_def)
    qed
    ultimately show ?thesis using w unfolding woke_def rd tsk its dl by blast
  qed
  show thesis by (rule that [OF pm(2) onw later])
qed

text \<open>One event, before the rest: the last of its message.\<close>

lemma last_step:
  fixes e :: "'z pollenv_scheme"
  assumes pre: "second_pre ls (ee # evs) e Q" and ps: "ps = map (ev_msg e) evs" and last: "ev_msg e ee \<notin> set ps"
  obtains e1 Q1 where "call_back ee e = Ret e1" and "second_pre ls evs e1 Q1" and "map (ev_msg e1) evs = ps"
    and "\<And>e' Q'. woke ls ps e1 Q1 e' Q' \<Longrightarrow> woke ls (ev_msg e ee # ps) e Q e' Q'"
proof -
  note P = second_preD [OF pre, folded ps]
  let ?p = "ev_msg e ee"
  obtain e1 Q1 where e1: "call_back ee e = Ret e1" "dealt ls [task_of e ?p] e Q e1 Q1"
    "pmsgs e1 = (pmsgs e)(?p \<mapsto> woken_msg (the (pmsgs e ?p)))" "ctl_log e1 = ctl_log e @ msg_entries CTL_DEL e ?p"
    "env_frame (e\<lparr>pmsgs := pmsgs e1, ctl_log := ctl_log e1\<rparr>) e1"
    "\<And>b. task_ready e b \<Longrightarrow> b \<noteq> task_of e ?p \<Longrightarrow> task_ready e1 b"
    using callback_last [OF P(1,2) refl P(4) last] by blast
  have sp: "same_payload e e1" using same_payload_env [OF e1(5)] by (simp add: same_payload_def)
  have ne: "q \<noteq> ?p" if "q \<in> set ps" for q using that last by blast
  have tsk: "task_of e1 q = task_of e q" if "q \<in> set ps" for q using ne [OF that] by (simp add: task_of_def e1(3))
  have inj: "inj_on (task_of e1) (set ps)" using P(6) tsk by (simp add: inj_on_def)
  have so1: "second_pass_ok e1 ps q" if q: "q \<in> set ps" for q
  proof -
    obtain pm k where pm: "pmsgs e q = Some pm" "pm_task pm = Some k" "\<not> IsJoinActiveList pm"
      "activeFdsNums2 pm = of_nat (count_list (?p # ps) q)" "task_ready e k" "\<forall>a \<in> set (eachFdTask pm). items e a \<noteq> None"
      using P(5) [OF q] by (auto simp: second_pass_ok_def)
    have "task_of e q \<noteq> task_of e ?p" using P(6) q ne [OF q] by (auto simp: inj_on_def)
    then have "task_ready e1 k" using e1(6) [OF pm(5)] pm(1,2) by (simp add: task_of_def)
    then show ?thesis using pm ne [OF q] same_payload_None [OF sp] by (auto simp: second_pass_ok_def e1(3))
  qed
  have ent: "msg_entries op e1 q = msg_entries op e q" if q: "q \<in> set ps" for op q
  proof -
    have "\<forall>a \<in> set (msg_items e q). items e a \<noteq> None"
      using P(5) [OF q] by (auto simp: second_pass_ok_def msg_items_def)
    then show ?thesis
      using ne [OF q] ctl_entry_payload [OF sp] by (simp add: msg_entries_def msg_items_def e1(3))
  qed
  note onw = second_preI [OF dealt_dist [OF e1(2)] sp P(3) so1 [unfolded ps] inj [unfolded ps], folded ps]
  have eq: "map (task_of e1) (remdups ps) = map (task_of e) (remdups ps)"
    "map (msg_entries CTL_DEL e1) (remdups ps) = map (msg_entries CTL_DEL e) (remdups ps)"
    using tsk ent by simp_all
  have rd: "remdups (?p # ps) = ?p # remdups ps" using last by simp
  have later: "woke ls (?p # ps) e Q e' Q'" if w: "woke ls ps e1 Q1 e' Q'" for e' Q'
  proof -
    have "dealt ls ([task_of e ?p] @ map (task_of e) (remdups ps)) e Q e' Q'"
      using dealt_trans [OF P(1) e1(2)] w unfolding woke_def eq by blast
    then have "dealt ls (map (task_of e) (?p # remdups ps)) e Q e' Q'" by simp
    moreover have "\<forall>q. pmsgs e' q = (if q \<in> set (?p # ps) then map_option woken_msg (pmsgs e q) else pmsgs e q)"
      using w P(4) last by (auto simp: woke_def e1(3) second_pass_ok_def)
    moreover have "env_frame (e\<lparr>pmsgs := pmsgs e', ctl_log := ctl_log e'\<rparr>) e'"
    proof -
      have "env_frame (e1\<lparr>pmsgs := pmsgs e', ctl_log := ctl_log e'\<rparr>) e'" using w unfolding woke_def by blast
      with e1(5) show ?thesis unfolding env_frame_def by (cases e; cases e1) simp
    qed
    moreover have "ctl_log e' = ctl_log e @ concat (map (msg_entries CTL_DEL e) (?p # remdups ps))"
      using w unfolding woke_def eq e1(4) by simp
    ultimately show ?thesis unfolding woke_def rd by blast
  qed
  show thesis by (rule that [OF e1(1) onw later])
qed

lemma second_pass:
  fixes e :: "'z pollenv_scheme"
  assumes "second_pre ls evs e Q" and "length evs < 2 ^ 64"
  shows "\<exists>e' Q'. push_list call_back evs e = Ret e' \<and> woke ls (map (ev_msg e) evs) e Q e' Q'"
  using assms
proof (induction evs arbitrary: e Q)
  case Nil
  then have "dist_ok e Q ls" by (simp add: second_pre_def)
  then show ?case using dealt_Nil by (intro exI [of _ e] exI [of _ Q]) (simp add: woke_def)
next
  case (Cons ee evs)
  let ?ps = "map (ev_msg e) evs"
  have len: "length ?ps < 2 ^ 64 - 1" "length evs < 2 ^ 64" using Cons.prems(2) by simp_all
  obtain e1 Q1 where e1: "call_back ee e = Ret e1" "second_pre ls evs e1 Q1" "map (ev_msg e1) evs = ?ps"
    "\<And>e' Q'. woke ls ?ps e1 Q1 e' Q' \<Longrightarrow> woke ls (ev_msg e ee # ?ps) e Q e' Q'"
    using early_step [OF Cons.prems(1) refl len(1)] last_step [OF Cons.prems(1) refl] by metis
  obtain e' Q' where e': "push_list call_back evs e1 = Ret e'" "woke ls ?ps e1 Q1 e' Q'"
    using Cons.IH [OF e1(2) len(2)] unfolding e1(3) by blast
  have "push_list call_back (ee # evs) e = Ret e'" using e1(1) e'(1) by simp
  with e1(4) [OF e'(2)] show ?case by auto
qed

section \<open>The drain: what is due\<close>

definition timed_task :: "'z pollenv_scheme \<Rightarrow> addr \<Rightarrow> bool" where
  "timed_task e a \<longleftrightarrow> (\<exists>t r x. items e a = Some t \<and> ti_self t = Some r \<and> routines e r = Some x \<and> \<not> IsProgress x \<and>
     (timeoutCallFunc t = None \<or>
      timeoutCallFunc t = Some pollTimeout_ptr \<and> (\<exists>p pm. timeoutCallFuncArgs t = Some p \<and> pmsgs e p = Some pm \<and>
        (\<forall>b \<in> set (eachFdTask pm). items e b \<noteq> None)) \<or>
      timeoutCallFunc t = Some CondTimeOutCallback_ptr \<and> timeoutCallFuncArgs t \<noteq> None))"

text \<open>The \<open>epoll_ctl\<close> calls and the timeout flags that come with a task.\<close>

definition timeout_log :: "'z pollenv_scheme \<Rightarrow> addr \<Rightarrow> (ctl_op \<times> int \<times> addr option \<times> u32) list" where
  "timeout_log e a = (let t = the (items e a) in
     if timeoutCallFunc t = Some pollTimeout_ptr then msg_entries CTL_DEL e (the (timeoutCallFuncArgs t)) else [])"

definition timeout_flag :: "'z tmem_scheme \<Rightarrow> addr \<Rightarrow> (rid \<Rightarrow> int) \<Rightarrow> (rid \<Rightarrow> int)" where
  "timeout_flag h a f = (let t = the (items h a) in
     if timeoutCallFunc t = Some CondTimeOutCallback_ptr then f(the (timeoutCallFuncArgs t) := 1) else f)"

definition mark :: "addr set \<Rightarrow> (addr \<Rightarrow> TaskItem option) \<Rightarrow> (addr \<Rightarrow> TaskItem option)" where
  "mark A m = (\<lambda>b. map_option (\<lambda>t. if b \<in> A then t\<lparr>IsTasktimeout := True\<rparr> else t) (m b))"

definition expired ::
    "laddr list \<Rightarrow> addr list \<Rightarrow> 'z pollenv_scheme \<Rightarrow> (laddr \<Rightarrow> addr list option) \<Rightarrow>
     'z pollenv_scheme \<Rightarrow> (laddr \<Rightarrow> addr list option) \<Rightarrow> bool" where
  "expired ls as e Q e' Q' \<longleftrightarrow> dealt ls as e Q e' Q' \<and>
     env_frame (e\<lparr>items := mark (set as) (items e), IsTimeout := IsTimeout e', ctl_log := ctl_log e'\<rparr>) e' \<and>
     ctl_log e' = ctl_log e @ concat (map (timeout_log e) as) \<and>
     IsTimeout e' = fold (timeout_flag e) as (IsTimeout e)"

text \<open>Changing what no list reads.\<close>

lemma tasks_ok_payload:
  fixes h :: "'z tmem_scheme" and h' :: "'y tmem_scheme"
  assumes "\<And>a. map_option (\<lambda>t. (ti_prev t, ti_next t, ti_owner t)) (items h' a) =
      map_option (\<lambda>t. (ti_prev t, ti_next t, ti_owner t)) (items h a)"
    and "lists h' = lists h"
  shows "tasks_ok h' Q = tasks_ok h Q" and "loose b h' = loose b h"
proof -
  have "nxt (items h') a = nxt (items h) a \<and> prv (items h') a = prv (items h) a \<and> own (items h') a = own (items h) a" for a
    using assms(1) [of a] by (cases "items h' a"; cases "items h a") (simp_all add: nxt_def prv_def own_def)
  then have l: "nxt (items h') = nxt (items h)" "prv (items h') = prv (items h)" "own (items h') = own (items h)" by auto
  show "tasks_ok h' Q = tasks_ok h Q"
    unfolding tasks_ok_def links_ok_def list_ok_def detached_def unlocked_def l assms(2) ..
  have "items h' b = None \<longleftrightarrow> items h b = None" using assms(1) [of b] by (cases "items h' b"; cases "items h b") simp_all
  then show "loose b h' = loose b h" unfolding loose_def detached_def l by simp
qed

lemma call_timeout_run:
  fixes e :: "'z pollenv_scheme"
  assumes "timed_task e a"
  shows "call_timeout a e = Ret (e\<lparr>IsTimeout := timeout_flag e a (IsTimeout e), ctl_log := ctl_log e @ timeout_log e a\<rparr>)"
proof -
  obtain t where t: "items e a = Some t"
    "timeoutCallFunc t = None \<or>
      timeoutCallFunc t = Some pollTimeout_ptr \<and> (\<exists>p pm. timeoutCallFuncArgs t = Some p \<and> pmsgs e p = Some pm \<and>
        (\<forall>b \<in> set (eachFdTask pm). items e b \<noteq> None)) \<or>
      timeoutCallFunc t = Some CondTimeOutCallback_ptr \<and> timeoutCallFuncArgs t \<noteq> None"
    using assms by (auto simp: timed_task_def)
  from t(2) show ?thesis
  proof (elim disjE conjE exE)
    assume f: "timeoutCallFunc t = None"
    have "e = e\<lparr>IsTimeout := IsTimeout e, ctl_log := ctl_log e\<rparr>" by simp
    then show ?thesis using t(1) f by (simp add: call_timeout_def timeout_flag_def timeout_log_def Let_def)
  next
    fix p pm
    assume f: "timeoutCallFunc t = Some pollTimeout_ptr" "timeoutCallFuncArgs t = Some p" "pmsgs e p = Some pm"
      "\<forall>b \<in> set (eachFdTask pm). items e b \<noteq> None"
    have "e\<lparr>IsTimeout := IsTimeout e, ctl_log := L\<rparr> = e\<lparr>ctl_log := L\<rparr>" for L by simp
    then show ?thesis using t(1) f ctl_items_run [OF f(4), of CTL_DEL]
      by (simp add: call_timeout_def pollTimeout_def ctl_each_def pm_at_def timeout_flag_def timeout_log_def
          msg_entries_def msg_items_def Let_def)
  next
    assume f: "timeoutCallFunc t = Some CondTimeOutCallback_ptr" "timeoutCallFuncArgs t \<noteq> None"
    then obtain r where r: "timeoutCallFuncArgs t = Some r" by blast
    have "e\<lparr>IsTimeout := T, ctl_log := ctl_log e\<rparr> = e\<lparr>IsTimeout := T\<rparr>" for T by simp
    then show ?thesis using t(1) f r
      by (simp add: call_timeout_def CondTimeOutCallback_def timeout_flag_def timeout_log_def Let_def)
  qed
qed

lemma timed_out_step:
  fixes e :: "'z pollenv_scheme"
  assumes ok: "dist_ok e Q ls" and tt: "timed_task e a" and lo: "loose a e"
  shows "\<exists>e' Q'. timed_out a e = Ret e' \<and> expired ls [a] e Q e' Q' \<and>
    (\<forall>l. l \<notin> set ls \<longrightarrow> count_of e' l = count_of e l)"
proof -
  obtain t r x where t: "items e a = Some t" "ti_self t = Some r" "routines e r = Some x" "\<not> IsProgress x"
    using tt by (auto simp: timed_task_def)
  let ?T = "timeout_flag e a (IsTimeout e)" and ?L = "ctl_log e @ timeout_log e a"
  let ?m = "(items e)(a \<mapsto> t\<lparr>IsTasktimeout := True\<rparr>)"
  let ?e = "e\<lparr>items := ?m, IsTimeout := ?T, ctl_log := ?L\<rparr>"
  have m: "?m = mark {a} (items e)" using t(1) by (auto simp: mark_def fun_eq_iff option.map_ident)
  have "upd_item (Some a) (\<lambda>t. t\<lparr>IsTasktimeout := True\<rparr>) (e\<lparr>IsTimeout := ?T, ctl_log := ?L\<rparr>) = Ret ?e"
    using t(1) by simp
  moreover have links: "map_option (\<lambda>t. (ti_prev t, ti_next t, ti_owner t)) (items ?e b) =
      map_option (\<lambda>t. (ti_prev t, ti_next t, ti_owner t)) (items e b)" for b
    using t(1) by simp
  have "dist_ok ?e Q ls"
    using ok tasks_ok_payload(1) [of ?e e Q, OF links] by (simp add: dist_ok_def workers_ok_def)
  moreover have "loose a ?e" using lo tasks_ok_payload(2) [of ?e e a, OF links] by simp
  then have "task_ready ?e a" using t by (simp add: task_ready_def)
  ultimately obtain e' Q' where e': "AddTask (Some a) ?e = Ret e'" "dealt ls [a] ?e Q e' Q'" "env_frame ?e e'"
    "\<And>l. l \<notin> set ls \<Longrightarrow> count_of e' l = count_of ?e l"
    using AddTask_dealt [of ?e Q ls a] by blast
  have "rtenv.more e' = rtenv.more ?e" using e'(3) by (simp add: env_frame_def)
  then have f: "IsTimeout e' = ?T" "ctl_log e' = ?L"
    using syncenv_more_eq(3) [of e' ?e] pollenv_more_eq(4) [of e' ?e] by simp_all
  have "timed_out a e = Ret e'"
    using call_timeout_run [OF tt] e'(1) \<open>upd_item _ _ _ = Ret ?e\<close> by (simp add: timed_out_def)
  moreover have "dealt ls [a] e Q e' Q'" using e'(2) dealt_cong [of ?e e ls "[a]" Q e' Q'] by (simp add: count_of_def)
  moreover have "env_frame (e\<lparr>items := mark {a} (items e), IsTimeout := IsTimeout e', ctl_log := ctl_log e'\<rparr>) e'"
    using e'(3) by (simp add: f m)
  moreover have "count_of e' l = count_of e l" if "l \<notin> set ls" for l
    using e'(4) [OF that] by (simp add: count_of_def)
  ultimately show ?thesis using f by (intro exI [of _ e'] exI [of _ Q']) (simp add: expired_def)
qed

definition core :: "TaskItem \<Rightarrow> TaskItem" where
  "core t = (strip t)\<lparr>IsTasktimeout := False\<rparr>"

lemma core_fields:
  assumes "core t' = core t"
  shows "timeoutCallFunc t' = timeoutCallFunc t" and "timeoutCallFuncArgs t' = timeoutCallFuncArgs t"
    and "ti_self t' = ti_self t" and "epollFd t' = epollFd t" and "bEpollEvent_ptr t' = bEpollEvent_ptr t"
    and "bEpollEvent_events t' = bEpollEvent_events t"
  using arg_cong [OF assms, of timeoutCallFunc] arg_cong [OF assms, of timeoutCallFuncArgs]
    arg_cong [OF assms, of ti_self] arg_cong [OF assms, of epollFd]
    arg_cong [OF assms, of bEpollEvent_ptr] arg_cong [OF assms, of bEpollEvent_events]
  by (simp_all add: core_def strip_def)

text \<open>What the rest of the drain sees of a state in which one more task is done.\<close>

lemma expired_frame:
  assumes ex: "expired ls as e Q e' Q'"
  shows "map_option core (items e' b) =
      map_option core (items e b)"
    and "items e' b = None \<longleftrightarrow> items e b = None"
    and "routines e' = routines e" and "pmsgs e' = pmsgs e" and "brk_ok e \<Longrightarrow> brk_ok e'"
    and "Epoll e' = Epoll e" and "bMutexes e' = bMutexes e" and "bConds e' = bConds e"
proof -
  let ?e = "e\<lparr>items := mark (set as) (items e), IsTimeout := IsTimeout e', ctl_log := ctl_log e'\<rparr>"
  have fr: "env_frame ?e e'" using ex unfolding expired_def by blast
  then have pay: "map_option strip (items e' b) = map_option strip (items ?e b)"
    and more: "rtenv.more e' = rtenv.more ?e" by (simp_all add: env_frame_def)
  show none: "items e' b = None \<longleftrightarrow> items e b = None"
    using pay by (cases "items e' b"; cases "items e b") (auto simp: mark_def)
  show "map_option core (items e' b) =
      map_option core (items e b)"
  proof (cases "items e b")
    case None
    then show ?thesis using none by simp
  next
    case (Some t)
    then obtain t' where "items e' b = Some t'" using none by fastforce
    then show ?thesis using pay Some by (auto simp: mark_def core_def strip_def split: if_splits)
  qed
  show "routines e' = routines e" using fr by (simp add: env_frame_def)
  show "Epoll e' = Epoll e" using epenv_more_eq(1) [OF more] by simp
  show "bMutexes e' = bMutexes e" "bConds e' = bConds e" using syncenv_more_eq(1,2) [OF more] by simp_all
  show "pmsgs e' = pmsgs e" using pollenv_more_eq(1) [OF more] by simp
  show "brk_ok e'" if "brk_ok e"
  proof (rule env_frame_brk [OF fr])
    show "brk_ok ?e" using that by (auto simp: brk_ok_def mark_def)
  qed
qed

text \<open>States that agree on what the drain reads of a task.\<close>

definition same_calls :: "'z pollenv_scheme \<Rightarrow> 'z pollenv_scheme \<Rightarrow> bool" where
  "same_calls e e' \<longleftrightarrow> (\<forall>b. map_option core (items e' b) = map_option core (items e b)) \<and>
     routines e' = routines e \<and> (\<forall>p. map_option eachFdTask (pmsgs e' p) = map_option eachFdTask (pmsgs e p))"

lemma same_calls_trans: "same_calls e e' \<Longrightarrow> same_calls e' e'' \<Longrightarrow> same_calls e e''"
  by (simp add: same_calls_def)

lemma same_calls_expired: "expired ls as e Q e' Q' \<Longrightarrow> same_calls e e'"
  using expired_frame [of ls as e Q e' Q'] by (simp add: same_calls_def)

lemma core_payload: "same_payload h h' \<Longrightarrow> map_option core (items h' b) = map_option core (items h b)"
proof -
  have eq: "map_option core u = map_option (\<lambda>t. t\<lparr>IsTasktimeout := False\<rparr>) (map_option strip u)" for u
    by (cases u) (simp_all add: core_def)
  show "same_payload h h' \<Longrightarrow> map_option core (items h' b) = map_option core (items h b)"
    unfolding eq by (simp add: same_payload_def)
qed

lemma same_calls_links:
  assumes "link_frame e e'"
  shows "same_calls e e'"
proof -
  have m: "tmem.more e' = tmem.more e" using assms by (simp add: link_frame_def)
  have "same_payload e e'" using assms by (simp add: link_frame_def same_payload_def)
  then show ?thesis
    using rtenv_more_eq(1) [OF m] pollenv_more_eq(1) [OF rtenv_more_eq(13) [OF m]] core_payload
    by (auto simp: same_calls_def)
qed

lemma same_calls_task:
  assumes sc: "same_calls e e'" and tt: "timed_task e a"
  shows "timed_task e' a" and "timeout_log e' a = timeout_log e a" and "timeout_flag e' a = timeout_flag e a"
proof -
  have ex: "\<exists>t'. items e' b = Some t' \<and> core t' = core t" if "items e b = Some t" for b t
    using sc that by (cases "items e' b") (auto simp: same_calls_def dest: spec [where x = b])
  obtain t where t: "items e a = Some t" using tt by (auto simp: timed_task_def)
  obtain t' where t': "items e' a = Some t'" "core t' = core t" using ex [OF t] by blast
  note c = core_fields [OF t'(2)]
  have rp: "routines e' = routines e" using sc by (simp add: same_calls_def)
  have pm: "\<exists>pm'. pmsgs e' p = Some pm' \<and> eachFdTask pm' = eachFdTask pm" if "pmsgs e p = Some pm" for p pm
    using sc that by (cases "pmsgs e' p") (auto simp: same_calls_def dest: spec [where x = p])
  have none: "items e' b = None \<longleftrightarrow> items e b = None" for b
    using sc by (cases "items e' b"; cases "items e b") (auto simp: same_calls_def dest: spec [where x = b])
  show "timed_task e' a"
    using tt t t' by (fastforce simp: timed_task_def c rp none dest: pm)
  show "timeout_flag e' a = timeout_flag e a" using t t' by (simp add: timeout_flag_def c Let_def fun_eq_iff)
  have ent: "ctl_entry op e' b = ctl_entry op e b" if b: "items e b \<noteq> None" for op b
  proof -
    obtain u where u: "items e b = Some u" using b by blast
    obtain u' where u': "items e' b = Some u'" "core u' = core u" using ex [OF u] by blast
    show ?thesis using u u' core_fields [OF u'(2)] by (simp add: ctl_entry_def Let_def)
  qed
  show "timeout_log e' a = timeout_log e a"
  proof (cases "timeoutCallFunc t = Some pollTimeout_ptr")
    case True
    then obtain p pm where p: "timeoutCallFuncArgs t = Some p" "pmsgs e p = Some pm"
      "\<forall>b \<in> set (eachFdTask pm). items e b \<noteq> None" using tt t by (auto simp: timed_task_def)
    then have "map (ctl_entry CTL_DEL e') (eachFdTask pm) = map (ctl_entry CTL_DEL e) (eachFdTask pm)"
      using ent by (intro map_cong) auto
    moreover obtain pm' where "pmsgs e' p = Some pm'" "eachFdTask pm' = eachFdTask pm" using pm [OF p(2)] by blast
    ultimately show ?thesis using t t' True p
      by (simp add: timeout_log_def c Let_def msg_entries_def msg_items_def)
  next
    case False
    then show ?thesis using t t' by (simp add: timeout_log_def c Let_def)
  qed
qed

lemma same_calls_list:
  assumes sc: "same_calls e e'" and tt: "\<forall>a \<in> set as. timed_task e a"
  shows "\<forall>a \<in> set as. timed_task e' a" and "map (timeout_log e') as = map (timeout_log e) as"
    and "fold (timeout_flag e') as T = fold (timeout_flag e) as T"
  using tt by (induction as arbitrary: T) (simp_all add: same_calls_task [OF sc])

lemma strip_mark: "map_option strip (mark A m b) =
    map_option (\<lambda>t. if b \<in> A then t\<lparr>IsTasktimeout := True\<rparr> else t) (map_option strip (m b))"
  by (cases "m b") (simp_all add: mark_def strip_def)

lemma dealt_via:
  assumes k: "unat (AddTask_i e) < length ls" and l: "l \<notin> set ls" and i: "AddTask_i e1 = AddTask_i e"
    and Q1: "\<And>m. m \<noteq> l \<Longrightarrow> Q1 m = Q m" and c1: "\<And>m. m \<noteq> l \<Longrightarrow> count_of e1 m = count_of e m"
    and d1: "dealt ls ts e1 Q1 e2 Q2" and d2: "dealt ls us e2 (Q2(l \<mapsto> [])) e' Q'"
  shows "dealt ls (ts @ us) e (Q(l \<mapsto> [])) e' Q'"
proof -
  have ne: "ls ! j \<noteq> l" if "j < length ls" for j using that l nth_mem by metis
  show ?thesis
    using d1 d2 ne Q1 c1 l unfolding dealt_def i
    by (auto simp: share_append [OF k] mod_add_left_eq add.assoc)
qed

lemma dist_ok_links:
  assumes "dist_ok e Q ls" and "link_frame e e1" and "tasks_ok e1 Q1" and "\<And>m. m \<in> set ls \<Longrightarrow> Q1 m = Q m"
  shows "dist_ok e1 Q1 ls"
proof -
  have m: "tmem.more e1 = tmem.more e" using assms(2) by (simp add: link_frame_def)
  show ?thesis
    using assms workers_ok_more [OF m] rtenv_more_eq(10) [OF m] by (simp add: dist_ok_def)
qed

lemma more_items [simp]: "rtenv.more (e\<lparr>items := m, IsTimeout := T, ctl_log := L\<rparr>) =
    rtenv.more (e\<lparr>IsTimeout := T, ctl_log := L\<rparr> :: 'z pollenv_scheme)"
  by (cases e) simp

text \<open>One round of the drain before the rest of it.\<close>

lemma expired_Cons:
  fixes e :: "'z pollenv_scheme"
  assumes k: "unat (AddTask_i e) < length ls" and l: "l \<notin> set ls"
    and fr: "link_frame e e1" and tt: "\<forall>b \<in> set (a # zs). timed_task e b"
    and Q1: "\<And>m. m \<noteq> l \<Longrightarrow> Q1 m = Q m" and c1: "\<And>m. m \<noteq> l \<Longrightarrow> count_of e1 m = count_of e m"
    and one: "expired ls [a] e1 Q1 e2 Q2" and rest: "expired ls zs e2 (Q2(l \<mapsto> [])) e' Q'"
  shows "expired ls (a # zs) e (Q(l \<mapsto> [])) e' Q'"
proof -
  have m: "tmem.more e1 = tmem.more e" using fr by (simp add: link_frame_def)
  note r = rtenv_more_eq [OF m]
  have s1: "same_calls e e1" by (rule same_calls_links [OF fr])
  have s2: "same_calls e1 e2" by (rule same_calls_expired [OF one])
  note f = same_calls_list [OF same_calls_trans [OF s1 s2], of zs]
  have f1: "timeout_log e1 a = timeout_log e a" "timeout_flag e1 a = timeout_flag e a"
    using same_calls_task [OF s1] tt by simp_all
  have "dealt ls ([a] @ zs) e (Q(l \<mapsto> [])) e' Q'"
  proof (rule dealt_via [OF k l r(10) Q1 c1])
    show "dealt ls [a] e1 Q1 e2 Q2" using one by (simp add: expired_def)
    show "dealt ls zs e2 (Q2(l \<mapsto> [])) e' Q'" using rest by (simp add: expired_def)
  qed
  moreover have log: "ctl_log e' = ctl_log e @ concat (map (timeout_log e) (a # zs))"
    using one rest f1 f(2) tt pollenv_more_eq(4) [OF r(13)] by (simp add: expired_def)
  moreover have flag: "IsTimeout e' = fold (timeout_flag e) (a # zs) (IsTimeout e)"
    using one rest f1 f(3) tt syncenv_more_eq(3) [OF r(13)] by (simp add: expired_def)
  moreover have "env_frame (e\<lparr>items := mark (set (a # zs)) (items e), IsTimeout := IsTimeout e', ctl_log := ctl_log e'\<rparr>) e'"
  proof -
    let ?e1 = "e1\<lparr>items := mark (set [a]) (items e1), IsTimeout := IsTimeout e2, ctl_log := ctl_log e2\<rparr>"
    let ?e2 = "e2\<lparr>items := mark (set zs) (items e2), IsTimeout := IsTimeout e', ctl_log := ctl_log e'\<rparr>"
    have fr1: "env_frame ?e1 e2" using one unfolding expired_def by blast
    have fr2: "env_frame ?e2 e'" using rest unfolding expired_def by blast
    have "map_option strip (items e' x) = map_option strip (mark (set (a # zs)) (items e) x)" for x
    proof -
      have "map_option strip (items e' x) = map_option strip (mark (set zs) (items e2) x)"
        "map_option strip (items e2 x) = map_option strip (mark {a} (items e1) x)"
        "map_option strip (items e1 x) = map_option strip (items e x)"
        using fr1 fr2 fr by (simp_all add: env_frame_def link_frame_def)
      then show ?thesis unfolding strip_mark by (cases "map_option strip (items e x)") auto
    qed
    moreover have "rtenv.more e' = rtenv.more (e\<lparr>IsTimeout := IsTimeout e', ctl_log := ctl_log e'\<rparr>)"
    proof -
      have "rtenv.more e2 = rtenv.more (e1\<lparr>IsTimeout := IsTimeout e2, ctl_log := ctl_log e2\<rparr>)"
        "rtenv.more e' = rtenv.more (e2\<lparr>IsTimeout := IsTimeout e', ctl_log := ctl_log e'\<rparr>)"
        using fr1 fr2 by (simp_all add: env_frame_def)
      then show ?thesis using r(13) by (cases e; cases e1; cases e2; cases e') simp
    qed
    ultimately show ?thesis
      using fr1 fr2 fr r unfolding env_frame_def link_frame_def by simp
  qed
  ultimately show ?thesis unfolding expired_def by simp
qed

lemma drain_Nil:
  fixes e :: "'z pollenv_scheme"
  assumes d: "dist_ok e Q ls" and Q: "Q l = Some []"
  shows "\<exists>e'. drain (popHead l) timed_out e = Ret e' \<and> expired ls [] e Q e' Q"
proof -
  have tk: "tasks_ok e Q" using d by (simp add: dist_ok_def)
  obtain e1 where e1: "popHead l e = Ret (None, e1)" "tasks_ok e1 Q" "link_frame e e1" "count_of e1 = count_of e"
    using popHead_Nil [OF tk Q] by blast
  have m: "tmem.more e1 = tmem.more e" using e1(3) by (simp add: link_frame_def)
  note r = rtenv_more_eq [OF m]
  have "dist_ok e1 Q ls" by (rule dist_ok_links [OF d e1(3,2)]) simp
  then have "dealt ls [] e Q e1 Q" using dealt_Nil [of e1 Q ls] dealt_cong [OF r(10)] e1(4) by simp
  moreover have "e\<lparr>items := mark {} (items e), IsTimeout := IsTimeout e1, ctl_log := ctl_log e1\<rparr> = e"
    using pollenv_more_eq(4) [OF r(13)] syncenv_more_eq(3) [OF r(13)]
    by (simp add: mark_def option.map_ident)
  ultimately have "expired ls [] e Q e1 Q"
    using env_frame_links [OF e1(3)] pollenv_more_eq(4) [OF r(13)] syncenv_more_eq(3) [OF r(13)]
    by (simp add: expired_def)
  moreover have "drain (popHead l) timed_out e = Ret e1" using e1(1) by (subst drain.simps) simp
  ultimately show ?thesis by blast
qed

text \<open>What the drain needs of the list it empties.\<close>

definition drain_pre ::
    "laddr list \<Rightarrow> laddr \<Rightarrow> addr list \<Rightarrow> 'z pollenv_scheme \<Rightarrow> (laddr \<Rightarrow> addr list option) \<Rightarrow> bool" where
  "drain_pre ls l xs e Q \<longleftrightarrow> dist_ok e Q ls \<and> l \<notin> set ls \<and> Q l = Some xs \<and> count_of e l = of_nat (length xs) \<and>
     length xs < 2 ^ 32 \<and> (\<forall>a \<in> set xs. timed_task e a)"

lemma drain_step:
  fixes e :: "'z pollenv_scheme"
  assumes pre: "drain_pre ls l (a # zs) e Q"
  obtains e1 e2 Q2 where "popHead l e = Ret (Some a, e1)" and "timed_out a e1 = Ret e2"
    and "drain_pre ls l zs e2 Q2"
    and "\<And>e' Q'. expired ls zs e2 (Q2(l \<mapsto> [])) e' Q' \<Longrightarrow> expired ls (a # zs) e (Q(l \<mapsto> [])) e' Q'"
proof -
  have P: "dist_ok e Q ls" "l \<notin> set ls" "Q l = Some (a # zs)" "count_of e l = of_nat (length (a # zs))"
    "length (a # zs) < 2 ^ 32" "\<forall>b \<in> set (a # zs). timed_task e b"
    using pre unfolding drain_pre_def by blast+
  have tk: "tasks_ok e Q" and k: "unat (AddTask_i e) < length ls" using P(1) by (simp_all add: dist_ok_def)
  have "of_nat (length (a # zs)) \<noteq> (0 :: u32)" using of_nat_u32_eq_0 [OF P(5)] by simp
  then have "count_of e l \<noteq> 0" using P(4) by simp
  then obtain e1 where e1: "popHead l e = Ret (Some a, e1)" "tasks_ok e1 (Q(l \<mapsto> zs))"
    "count_of e1 = (count_of e)(l := count_of e l - 1)" "link_frame e e1" "detached (items e1) a"
    using popHead_Cons [OF tk P(3)] by blast
  have d1: "dist_ok e1 (Q(l \<mapsto> zs)) ls"
    by (rule dist_ok_links [OF P(1) e1(4,2)]) (use P(2) in auto)
  note tt1 = same_calls_list(1) [OF same_calls_links [OF e1(4)] P(6)]
  then have "timed_task e1 a" "loose a e1" using e1(5) by (auto simp: timed_task_def loose_def)
  then obtain e2 Q2 where e2: "timed_out a e1 = Ret e2" "expired ls [a] e1 (Q(l \<mapsto> zs)) e2 Q2"
    "\<And>m. m \<notin> set ls \<Longrightarrow> count_of e2 m = count_of e1 m"
    using timed_out_step [OF d1] by blast
  have dd: "dealt ls [a] e1 (Q(l \<mapsto> zs)) e2 Q2" using e2(2) by (simp add: expired_def)
  have "count_of e2 l = of_nat (length zs)" using e2(3) [OF P(2)] e1(3) P(4) by simp
  then have "drain_pre ls l zs e2 Q2"
    using dealt_dist [OF dd] dd P(2,5) same_calls_list(1) [OF same_calls_expired [OF e2(2)] tt1]
    by (simp add: drain_pre_def dealt_def)
  moreover have "expired ls (a # zs) e (Q(l \<mapsto> [])) e' Q'" if "expired ls zs e2 (Q2(l \<mapsto> [])) e' Q'" for e' Q'
    by (rule expired_Cons [OF k P(2) e1(4) P(6) _ _ e2(2) that]) (simp_all add: e1(3))
  ultimately show thesis by (rule that [OF e1(1) e2(1)])
qed

lemma drain_expired:
  fixes e :: "'z pollenv_scheme"
  assumes "drain_pre ls l xs e Q"
  shows "\<exists>e' Q'. drain (popHead l) timed_out e = Ret e' \<and> expired ls xs e (Q(l \<mapsto> [])) e' Q'"
  using assms
proof (induction xs arbitrary: e Q)
  case Nil
  then have "dist_ok e Q ls" "Q l = Some []" by (simp_all add: drain_pre_def)
  moreover from this(2) have "Q(l \<mapsto> []) = Q" by (simp add: fun_upd_idem)
  ultimately show ?case using drain_Nil by metis
next
  case (Cons a zs)
  obtain e1 e2 Q2 where s: "popHead l e = Ret (Some a, e1)" "timed_out a e1 = Ret e2" "drain_pre ls l zs e2 Q2"
    "\<And>e' Q'. expired ls zs e2 (Q2(l \<mapsto> [])) e' Q' \<Longrightarrow> expired ls (a # zs) e (Q(l \<mapsto> [])) e' Q'"
    using drain_step [OF Cons.prems] by metis
  obtain e' Q' where e': "drain (popHead l) timed_out e2 = Ret e'" "expired ls zs e2 (Q2(l \<mapsto> [])) e' Q'"
    using Cons.IH [OF s(3)] by blast
  have "drain (popHead l) timed_out e = Ret e'" using s(1,2) e'(1) by (subst drain.simps) simp
  with s(4) [OF e'(2)] show ?case by blast
qed

end
