(* ===== verification/Event_Loop.thy ===== *)
theory Event_Loop
  imports Deal_Loop
begin

text \<open>
  What one turn of the event loop does as a whole: the invariant that \<open>poll\<close> and \<open>Deal\<close> keep,
  the two passes composed, the drain composed with the scan of the wheel, and the properties of
  \<open>Deal\<close> and \<open>poll\<close>.
\<close>

section \<open>The invariant of the loop\<close>

abbreviation wheel :: "'z epenv_scheme \<Rightarrow> bEpTimer" where
  "wheel e \<equiv> TimeoutScaner (Epoll e)"

text \<open>
  The workers and their lists are in order, so is the wheel, no worker's list is a bucket, and
  whatever is in a bucket can be called back when its time is up.
\<close>

definition loop_ok :: "'z pollenv_scheme \<Rightarrow> (laddr \<Rightarrow> addr list option) \<Rightarrow> laddr list \<Rightarrow> bool" where
  "loop_ok e Q ls \<longleftrightarrow> dist_ok e Q ls \<and> brk_ok e \<and> timer_ok (wheel e) Q \<and>
     set ls \<inter> set (TaskItemBucket (wheel e)) = {} \<and>
     (\<forall>b \<in> set (TaskItemBucket (wheel e)). \<forall>a \<in> set (the (Q b)). timed_task e a)"

text \<open>A message whose routine waits: its task is on the wheel, no event has come yet.\<close>

definition waiting_msg :: "'z pollenv_scheme \<Rightarrow> (laddr \<Rightarrow> addr list option) \<Rightarrow> pmid \<Rightarrow> bool" where
  "waiting_msg e Q p \<longleftrightarrow> (\<exists>pm k b. pmsgs e p = Some pm \<and> pm_task pm = Some k \<and>
     b \<in> set (TaskItemBucket (wheel e)) \<and> k \<in> set (the (Q b)) \<and> \<not> IsJoinActiveList pm \<and>
     \<not> IsRemoveFromTimeoutList pm \<and> activeFdsNums2 pm = 0 \<and> (\<forall>a \<in> set (eachFdTask pm). items e a \<noteq> None))"

lemma loop_okD:
  assumes "loop_ok e Q ls"
  shows "dist_ok e Q ls" and "tasks_ok e Q" and "brk_ok e" and "timer_ok (wheel e) Q"
    and "l \<in> set ls \<Longrightarrow> l \<notin> set (TaskItemBucket (wheel e))"
    and "b \<in> set (TaskItemBucket (wheel e)) \<Longrightarrow> a \<in> set (the (Q b)) \<Longrightarrow> timed_task e a"
    and "b \<in> set (TaskItemBucket (wheel e)) \<Longrightarrow> \<exists>xs. Q b = Some xs"
    and "unat (AddTask_i e) < length ls" and "distinct ls"
  using assms by (auto simp: loop_ok_def dist_ok_def timer_ok_def workers_ok_def)

lemma waiting_msgD:
  assumes ok: "loop_ok e Q ls" and w: "waiting_msg e Q p"
  obtains pm k b xs where "pmsgs e p = Some pm" and "pm_task pm = Some k" and "task_of e p = k"
    and "b \<in> set (TaskItemBucket (wheel e))" and "Q b = Some xs" and "k \<in> set xs"
    and "\<not> IsJoinActiveList pm" and "\<not> IsRemoveFromTimeoutList pm" and "activeFdsNums2 pm = 0"
    and "\<forall>a \<in> set (eachFdTask pm). items e a \<noteq> None" and "timed_task e k"
proof -
  obtain pm k b where p: "pmsgs e p = Some pm" "pm_task pm = Some k"
    "b \<in> set (TaskItemBucket (wheel e))" "k \<in> set (the (Q b))" "\<not> IsJoinActiveList pm"
    "\<not> IsRemoveFromTimeoutList pm" "activeFdsNums2 pm = 0" "\<forall>a \<in> set (eachFdTask pm). items e a \<noteq> None"
    using w by (auto simp: waiting_msg_def)
  obtain xs where xs: "Q b = Some xs" using loop_okD(7) [OF ok p(3)] by blast
  show thesis
    by (rule that [OF p(1,2) _ p(3) xs _ p(5-8) loop_okD(6) [OF ok p(3,4)]]) (use p xs in \<open>auto simp: task_of_def\<close>)
qed

lemma waiting_first_pass_ok: "loop_ok e Q ls \<Longrightarrow> waiting_msg e Q p \<Longrightarrow> first_pass_ok e Q p"
  by (erule (1) waiting_msgD) (auto simp: first_pass_ok_def)

section \<open>The two passes\<close>

text \<open>No worker's list has a waiting task in it.\<close>

lemma without_worker:
  assumes ok: "loop_ok e Q ls" and w: "\<forall>p \<in> P. waiting_msg e Q p" and l: "l \<in> set ls"
  shows "without (task_of e ` P) Q l = Q l"
proof -
  have "x \<notin> task_of e ` P" if "Q l = Some ys" "x \<in> set ys" for x ys
  proof
    assume "x \<in> task_of e ` P"
    then obtain p where p: "p \<in> P" "x = task_of e p" by blast
    then obtain k b xs where k: "task_of e p = k" "b \<in> set (TaskItemBucket (wheel e))" "Q b = Some xs" "k \<in> set xs"
      using waiting_msgD [OF ok] w by metis
    then have "l = b"
      using links_ok_disjoint [OF tasks_ok_links [OF loop_okD(2) [OF ok]] that(1) k(3)] that(2) p(2) by blast
    then show False using loop_okD(5) [OF ok l] k(2) by blast
  qed
  then show ?thesis by (cases "Q l") (auto simp: without_def filter_id_conv)
qed

lemma without_defined: "Q l \<noteq> None \<Longrightarrow> without A Q l \<noteq> None"
  by (auto simp: without_def)

text \<open>Same items up to links and the same memory above: the drain sees the same.\<close>

lemma same_calls_payload:
  fixes e :: "'z pollenv_scheme"
  assumes "same_payload e e'" and "routines e' = routines e"
    and "\<And>p. map_option eachFdTask (pmsgs e' p) = map_option eachFdTask (pmsgs e p)"
  shows "same_calls e e'"
  using assms core_payload [OF assms(1)] by (simp add: same_calls_def)

text \<open>What the first pass leaves is what the second expects.\<close>

lemma noted_second_pass_ok:
  fixes e :: "'z pollenv_scheme"
  assumes ok: "loop_ok e Q ls" and w: "waiting_msg e Q p" and fr: "pass_frame e e1"
    and pm: "pmsgs e1 p = map_option (noted_all e evs p) (pmsgs e p)" and lo: "loose (task_of e p) e1"
  shows "second_pass_ok e1 (map (ev_msg e) evs) p"
proof -
  obtain x k where x: "pmsgs e p = Some x" "pm_task x = Some k" "task_of e p = k" "\<not> IsJoinActiveList x"
    "activeFdsNums2 x = 0" "\<forall>a \<in> set (eachFdTask x). items e a \<noteq> None" "timed_task e k"
    using waiting_msgD [OF ok w] by metis
  note sp = pass_frame_fields(1) [OF fr] and ef = pass_frame_fields(6) [OF fr]
  obtain t r y where t: "items e k = Some t" "ti_self t = Some r" "routines e r = Some y" "\<not> IsProgress y"
    using x(7) by (auto simp: timed_task_def)
  obtain t' where t': "items e1 k = Some t'" "strip t' = strip t" by (rule same_payload_Some [OF sp t(1)])
  have "routines e1 = routines e" using ef by (simp add: env_frame_def)
  then have "task_ready e1 k"
    using lo x(3) t t' strip_payload(1) [OF t'(2)] by (simp add: task_ready_def)
  then show ?thesis
    using x pm same_payload_None [OF sp] by (simp add: second_pass_ok_def noted_all_fields)
qed

definition passed ::
    "laddr list \<Rightarrow> epoll_event list \<Rightarrow> 'z pollenv_scheme \<Rightarrow> (laddr \<Rightarrow> addr list option) \<Rightarrow>
     'z pollenv_scheme \<Rightarrow> (laddr \<Rightarrow> addr list option) \<Rightarrow> bool" where
  "passed ls evs e Q e' Q' \<longleftrightarrow> (let ps = map (ev_msg e) evs in
     dealt ls (map (task_of e) (remdups ps)) e (without (task_of e ` set ps) Q) e' Q' \<and>
     (\<forall>p. pmsgs e' p = (if p \<in> set ps then map_option (woken_msg \<circ> noted_all e evs p) (pmsgs e p) else pmsgs e p)) \<and>
     ctl_log e' = ctl_log e @ concat (map (msg_entries CTL_DEL e) (remdups ps)) \<and>
     env_frame (e\<lparr>pmsgs := pmsgs e', ctl_log := ctl_log e'\<rparr>) e')"

lemma noted_all_other: "p \<notin> set (map (ev_msg h) evs) \<Longrightarrow> noted_all h evs p pm = pm"
  by (induction evs arbitrary: pm) auto

text \<open>The state between the passes: the second can start, and reads the tasks and items of before.\<close>

lemma first_done_reads:
  fixes e :: "'z pollenv_scheme"
  assumes w: "waiting_msg e Q p" and d: "first_done evs e Q e1"
  shows "task_of e1 p = task_of e p" and "msg_entries op e1 p = msg_entries op e p"
proof -
  obtain pm where pm: "pmsgs e p = Some pm" "\<forall>a \<in> set (eachFdTask pm). items e a \<noteq> None"
    using w by (auto simp: waiting_msg_def)
  have pm1: "pmsgs e1 p = Some (noted_all e evs p pm)" and fr: "pass_frame e e1"
    using d pm(1) by (simp_all add: first_done_def)
  show "task_of e1 p = task_of e p" using pm(1) pm1 by (simp add: task_of_def noted_all_fields)
  show "msg_entries op e1 p = msg_entries op e p"
    using pm pm1 ctl_entry_payload [OF pass_frame_fields(1) [OF fr]]
    by (simp add: msg_entries_def msg_items_def noted_all_fields)
qed

lemma first_done_dist:
  fixes e :: "'z pollenv_scheme"
  assumes ok: "loop_ok e Q ls" and w: "\<forall>p \<in> set (map (ev_msg e) evs). waiting_msg e Q p" and d: "first_done evs e Q e1"
  shows "dist_ok e1 (without (task_of e ` set (map (ev_msg e) evs)) Q) ls" and "AddTask_i e1 = AddTask_i e"
proof -
  have lf: "link_frame (e\<lparr>pmsgs := pmsgs e1\<rparr>) e1"
    and t1: "tasks_ok e1 (without (task_of e ` set (map (ev_msg e) evs)) Q)"
    using d by (simp_all add: first_done_def pass_frame_def)
  have "dist_ok (e\<lparr>pmsgs := pmsgs e1\<rparr>) Q ls"
    using loop_okD(1) [OF ok] by (subst dist_ok_above [of _ e]) simp_all
  from dist_ok_links [OF this lf t1]
  show "dist_ok e1 (without (task_of e ` set (map (ev_msg e) evs)) Q) ls" using without_worker [OF ok w] by simp
  show "AddTask_i e1 = AddTask_i e"
    using lf rtenv_more_eq(10) [of e1 "e\<lparr>pmsgs := pmsgs e1\<rparr>"] by (simp add: link_frame_def)
qed

lemma first_done_second_pre:
  fixes e :: "'z pollenv_scheme"
  assumes ok: "loop_ok e Q ls"
    and evs: "\<forall>ee \<in> set evs. fd_event e ee" and w: "\<forall>p \<in> set (map (ev_msg e) evs). waiting_msg e Q p"
    and inj: "inj_on (task_of e) (set (map (ev_msg e) evs))" and d: "first_done evs e Q e1"
  shows "second_pre ls evs e1 (without (task_of e ` set (map (ev_msg e) evs)) Q)"
    and "map (ev_msg e1) evs = map (ev_msg e) evs"
proof -
  have fd: "pass_frame e e1" "\<And>p. pmsgs e1 p = map_option (noted_all e evs p) (pmsgs e p)"
    "\<And>p. p \<in> set (map (ev_msg e) evs) \<Longrightarrow> loose (task_of e p) e1"
    using d by (auto simp: first_done_def)
  have so: "second_pass_ok e1 (map (ev_msg e) evs) p" if "p \<in> set (map (ev_msg e) evs)" for p
    using w that fd(3) [OF that] by (intro noted_second_pass_ok [OF ok _ fd(1) fd(2)]) blast+
  have "inj_on (task_of e1) (set (map (ev_msg e) evs))"
    using inj first_done_reads(1) [OF bspec [OF w] d] by (simp add: inj_on_def)
  note I = second_preI [OF first_done_dist(1) [OF ok w d] pass_frame_fields(1) [OF fd(1)] evs so this]
  show "second_pre ls evs e1 (without (task_of e ` set (map (ev_msg e) evs)) Q)" by (rule I)
  show "map (ev_msg e1) evs = map (ev_msg e) evs" by (rule I)
qed

text \<open>Both passes together.\<close>

lemma woke_passed:
  fixes e :: "'z pollenv_scheme"
  assumes ok: "loop_ok e Q ls" and w: "\<forall>p \<in> set (map (ev_msg e) evs). waiting_msg e Q p"
    and d: "first_done evs e Q e1"
    and wk: "woke ls (map (ev_msg e) evs) e1 (without (task_of e ` set (map (ev_msg e) evs)) Q) e' Q'"
  shows "passed ls evs e Q e' Q'"
proof -
  let ?ps = "map (ev_msg e) evs"
  have fr: "pass_frame e e1" and pm: "\<And>p. pmsgs e1 p = map_option (noted_all e evs p) (pmsgs e p)"
    and cnt: "count_of e1 = count_of e" using d by (simp_all add: first_done_def)
  have eq: "map (task_of e1) (remdups ?ps) = map (task_of e) (remdups ?ps)"
    "map (msg_entries CTL_DEL e1) (remdups ?ps) = map (msg_entries CTL_DEL e) (remdups ?ps)"
    using first_done_reads [OF bspec [OF w] d] by simp_all
  have "dealt ls (map (task_of e) (remdups ?ps)) e (without (task_of e ` set ?ps) Q) e' Q'"
    "ctl_log e' = ctl_log e @ concat (map (msg_entries CTL_DEL e) (remdups ?ps))"
    using wk unfolding woke_def eq dealt_cong [OF first_done_dist(2) [OF ok w d] fun_cong [OF cnt]]
      pass_frame_fields(2) [OF fr] by blast+
  moreover have "pmsgs e' p = (if p \<in> set ?ps then map_option (woken_msg \<circ> noted_all e evs p) (pmsgs e p) else pmsgs e p)" for p
  proof -
    have "pmsgs e' p = (if p \<in> set ?ps then map_option woken_msg (pmsgs e1 p) else pmsgs e1 p)"
      using wk unfolding woke_def by blast
    then show ?thesis using noted_all_other [of p e evs] by (cases "pmsgs e p") (simp_all add: pm)
  qed
  moreover have "env_frame (e\<lparr>pmsgs := pmsgs e', ctl_log := ctl_log e'\<rparr>) e'"
  proof -
    have "env_frame (e1\<lparr>pmsgs := pmsgs e', ctl_log := ctl_log e'\<rparr>) e'" using wk unfolding woke_def by blast
    then show ?thesis using pass_frame_fields(6) [OF fr] unfolding env_frame_def by (cases e; cases e1) simp
  qed
  ultimately show ?thesis unfolding passed_def Let_def by blast
qed

lemma both_passes:
  fixes e :: "'z pollenv_scheme"
  assumes ok: "loop_ok e Q ls"
    and evs: "\<forall>ee \<in> set evs. fd_event e ee \<and> waiting_msg e Q (ev_msg e ee)"
    and inj: "inj_on (task_of e) (set (map (ev_msg e) evs))" and len: "length evs < 2 ^ 64"
  shows "\<exists>e' Q'. pbind (push_list call_perpare evs e) (push_list call_back evs) = Ret e' \<and> passed ls evs e Q e' Q'"
proof -
  have w: "\<forall>p \<in> set (map (ev_msg e) evs). waiting_msg e Q p" and fd: "\<forall>ee \<in> set evs. fd_event e ee" using evs by auto
  have "first_pre evs e Q"
    using evs waiting_first_pass_ok [OF ok] loop_okD(2) [OF ok] inj unfolding first_pre_def by blast
  from first_pass [OF this] obtain e1 where e1: "push_list call_perpare evs e = Ret e1" "first_done evs e Q e1" by blast
  note pre = first_done_second_pre [OF ok fd w inj e1(2)]
  obtain e' Q' where e': "push_list call_back evs e1 = Ret e'" "passed ls evs e Q e' Q'"
    using second_pass [OF pre(1) len] woke_passed [OF ok w e1(2)] unfolding pre(2) by blast
  with e1(1) show ?thesis by (intro exI [of _ e'] exI [of _ Q']) simp
qed

text \<open>The invariant after the passes, and what the drain then sees.\<close>

lemma passed_frame:
  fixes e :: "'z pollenv_scheme"
  assumes "passed ls evs e Q e' Q'"
  shows "same_payload e e'" and "same_calls e e'" and "Epoll e' = Epoll e" and "IsTimeout e' = IsTimeout e"
    and "brk_ok e \<Longrightarrow> brk_ok e'" and "bMutexes e' = bMutexes e" and "bConds e' = bConds e"
proof -
  have fr: "env_frame (e\<lparr>pmsgs := pmsgs e', ctl_log := ctl_log e'\<rparr>) e'"
    using assms unfolding passed_def Let_def by blast
  then show pay: "same_payload e e'" by (simp add: env_frame_def same_payload_def)
  have more: "rtenv.more e' = rtenv.more (e\<lparr>pmsgs := pmsgs e', ctl_log := ctl_log e'\<rparr>)"
    using fr by (simp add: env_frame_def)
  show "Epoll e' = Epoll e" using epenv_more_eq(1) [OF more] by simp
  show "IsTimeout e' = IsTimeout e" "bMutexes e' = bMutexes e" "bConds e' = bConds e"
    using syncenv_more_eq [OF more] by simp_all
  show "brk_ok e'" if "brk_ok e"
    by (rule env_frame_brk [OF fr]) (use that in \<open>simp add: brk_ok_def\<close>)
  show "same_calls e e'"
  proof (rule same_calls_payload [OF pay])
    show "routines e' = routines e" using fr by (simp add: env_frame_def)
    show "map_option eachFdTask (pmsgs e' p) = map_option eachFdTask (pmsgs e p)" for p
    proof -
      have "pmsgs e' p = (if p \<in> set (map (ev_msg e) evs)
          then map_option (woken_msg \<circ> noted_all e evs p) (pmsgs e p) else pmsgs e p)"
        using assms unfolding passed_def Let_def by blast
      then show ?thesis by (cases "pmsgs e p") (simp_all add: woken_msg_def noted_all_fields)
    qed
  qed
qed

lemma passed_loop_ok:
  fixes e :: "'z pollenv_scheme"
  assumes ok: "loop_ok e Q ls" and pa: "passed ls evs e Q e' Q'"
  shows "loop_ok e' Q' ls"
    and "b \<in> set (TaskItemBucket (wheel e)) \<Longrightarrow> Q' b = without (task_of e ` set (map (ev_msg e) evs)) Q b"
proof -
  note fr = passed_frame [OF pa]
  have d: "dealt ls (map (task_of e) (remdups (map (ev_msg e) evs))) e (without (task_of e ` set (map (ev_msg e) evs)) Q) e' Q'"
    using pa unfolding passed_def Let_def by blast
  show bk: "Q' b = without (task_of e ` set (map (ev_msg e) evs)) Q b" if "b \<in> set (TaskItemBucket (wheel e))" for b
    using d that loop_okD(5) [OF ok] unfolding dealt_def by blast
  have "timer_ok (wheel e) Q'"
    using loop_okD(4) [OF ok] bk without_defined [of Q] unfolding timer_ok_def by metis
  moreover have "timed_task e' a" if a: "b \<in> set (TaskItemBucket (wheel e))" "a \<in> set (the (Q' b))" for a b
  proof (rule same_calls_task(1) [OF fr(2)])
    obtain xs where "Q b = Some xs" using loop_okD(7) [OF ok a(1)] by blast
    then have "a \<in> set (the (Q b))" using a bk by (simp add: without_def)
    then show "timed_task e a" by (rule loop_okD(6) [OF ok a(1)])
  qed
  ultimately show "loop_ok e' Q' ls"
    using dealt_dist [OF d] fr(5) ok by (simp add: loop_ok_def fr(3))
qed

section \<open>The scan and the drain\<close>

definition due_tasks :: "'z epenv_scheme \<Rightarrow> (laddr \<Rightarrow> addr list option) \<Rightarrow> u64 \<Rightarrow> addr list" where
  "due_tasks e Q now = concat (map (\<lambda>b. the (Q b)) (due_buckets (wheel e) now))"

definition emptied :: "laddr list \<Rightarrow> (laddr \<Rightarrow> addr list option) \<Rightarrow> (laddr \<Rightarrow> addr list option)" where
  "emptied bs Q = (\<lambda>l. if l \<in> set bs then Some [] else Q l)"

definition wheel_at :: "u64 \<Rightarrow> bEpTimer \<Rightarrow> bEpTimer" where
  "wheel_at now t = t\<lparr>BucketPosNow := target_pos now t, LastCheckTime := now\<rparr>"

lemma wheel_at_buckets [simp]:
  "TaskItemBucket (wheel_at now t) = TaskItemBucket t" "TaskItemBucketSize (wheel_at now t) = TaskItemBucketSize t"
  by (simp_all add: wheel_at_def)

text \<open>The scan does not end in the last bucket, which it would never leave.\<close>

definition scan_ends :: "u64 \<Rightarrow> bEpTimer \<Rightarrow> bool" where
  "scan_ends now t \<longleftrightarrow> unat (target_pos now t) \<le> wheel_pos t \<or> unat (target_pos now t) + 1 < wheel_size t"

definition delivered ::
    "laddr list \<Rightarrow> addr list \<Rightarrow> u64 \<Rightarrow> u64 \<Rightarrow> 'z pollenv_scheme \<Rightarrow> (laddr \<Rightarrow> addr list option) \<Rightarrow>
     'z pollenv_scheme \<Rightarrow> (laddr \<Rightarrow> addr list option) \<Rightarrow> bool" where
  "delivered ls as now now' e Q e' Q' \<longleftrightarrow>
     dealt ls as e (emptied (due_buckets (wheel e) now) Q) e' Q' \<and>
     same_payload (e\<lparr>items := mark (set as) (items e)\<rparr>) e' \<and> pmsgs e' = pmsgs e \<and> routines e' = routines e \<and>
     cur_sch e' = cur_sch e \<and> (\<forall>s. map_option quiet (scheds e' s) = map_option quiet (scheds e s)) \<and>
     ctl_log e' = ctl_log e @ concat (map (timeout_log e) as) \<and>
     IsTimeout e' = fold (timeout_flag e) as (IsTimeout e) \<and> bMutexes e' = bMutexes e \<and> bConds e' = bConds e \<and>
     Epoll e' = (Epoll e)\<lparr>TimeoutScaner := wheel_at now (wheel e), lastCheckTime := now'\<rparr>"

text \<open>From the scan to the start of the drain.\<close>

lemma scan_ready:
  fixes e :: "'z pollenv_scheme"
  assumes ok: "loop_ok e Q ls" and ends: "scan_ends now (wheel e)"
  obtains r e1 where "NewMergeUpdate2Now now (wheel e) e = Ret (r, wheel_at now (wheel e), e1)" and "Q r = None"
    and "dist_ok e1 (after_scan (wheel e) now r Q) ls" and "brk_ok e1" and "r \<notin> set ls"
    and "count_of e1 r = of_nat (length (due_tasks e Q now))" and "same_payload e e1"
    and "tmem.more e1 = tmem.more e" and "same_calls e e1" and "\<forall>l \<in> set ls. count_of e1 l = count_of e l"
proof -
  note D = loop_okD [OF ok]
  obtain r e1 where S: "NewMergeUpdate2Now now (wheel e) e = Ret (r, wheel_at now (wheel e), e1)" "Q r = None"
    "tasks_ok e1 (after_scan (wheel e) now r Q)" "\<forall>a. map_option strip (items e1 a) = map_option strip (items e a)"
    "tmem.more e1 = tmem.more e" "brk_ok e1" "count_of e1 r = of_nat (length (the (after_scan (wheel e) now r Q r)))"
    "\<forall>l. l \<notin> set (TaskItemBucket (wheel e)) \<longrightarrow> l \<noteq> r \<longrightarrow> count_of e1 l = count_of e l"
    using merge_collects [OF D(2-4) ends [unfolded scan_ends_def]] by (auto simp: wheel_at_def)
  have r: "r \<notin> set ls" using D(1) S(2) by (auto simp: dist_ok_def)
  have defd: "after_scan (wheel e) now r Q l \<noteq> None" if "l \<in> set ls" for l
    using that D(1) by (auto simp: after_scan_def dist_ok_def)
  have d1: "dist_ok e1 (after_scan (wheel e) now r Q) ls"
    using D(1) S(3) defd workers_ok_more [OF S(5)] rtenv_more_eq(10) [OF S(5)] by (simp add: dist_ok_def)
  have pay: "same_payload e e1" using S(4) by (simp add: same_payload_def)
  have sc: "same_calls e e1"
    using rtenv_more_eq(1) [OF S(5)] pollenv_more_eq(1) [OF rtenv_more_eq(13) [OF S(5)]]
    by (intro same_calls_payload [OF pay]) simp_all
  have cnt: "count_of e1 r = of_nat (length (due_tasks e Q now))"
    using S(7) by (simp add: after_scan_def due_tasks_def)
  have "\<forall>l \<in> set ls. count_of e1 l = count_of e l" using S(8) D(5) r by metis
  then show thesis by (rule that [OF S(1,2) d1 S(6) r cnt pay S(5) sc])
qed

lemma due_timed:
  assumes ok: "loop_ok e Q ls"
  shows "\<forall>a \<in> set (due_tasks e Q now). timed_task e a"
proof
  fix a assume a: "a \<in> set (due_tasks e Q now)"
  obtain b where b: "b \<in> set (due_buckets (wheel e) now)" "a \<in> set (the (Q b))"
    using a by (auto simp: due_tasks_def)
  then have "b \<in> set (TaskItemBucket (wheel e))" using due_buckets_mem(2) [OF loop_okD(4) [OF ok]] by blast
  then show "timed_task e a" using loop_okD(6) [OF ok] b(2) by blast
qed

text \<open>The rest of the call, from there.\<close>

lemma drain_and_delete:
  fixes e :: "'z pollenv_scheme"
  assumes d: "dist_ok e (Q(r \<mapsto> xs)) ls" and brk: "brk_ok e" and r: "r \<notin> set ls"
    and c: "count_of e r = of_nat (length xs)" and len: "length xs < 2 ^ 32" and tt: "\<forall>a \<in> set xs. timed_task e a"
  obtains e2 e3 Q2 where "drain (popHead r) timed_out e = Ret e2" and "TaskItemsList_Delete r e2 = Ret e3"
    and "expired ls xs e (Q(r \<mapsto> [])) e2 Q2" and "dealt ls xs e (Q(r := None)) e3 (Q2(r := None))"
    and "items e3 = items e2" and "tmem.more e3 = tmem.more e2" and "brk_ok e3"
proof -
  have "drain_pre ls r xs e (Q(r \<mapsto> xs))" using d r c len tt by (simp add: drain_pre_def)
  from drain_expired [OF this] obtain e2 Q2 where e2:
    "drain (popHead r) timed_out e = Ret e2" "expired ls xs e (Q(r \<mapsto> [])) e2 Q2"
    unfolding fun_upd_upd by blast
  have dd: "dealt ls xs e (Q(r \<mapsto> [])) e2 Q2" using e2(2) by (simp add: expired_def)
  have Q2: "Q2 r = Some []" using dd r by (simp add: dealt_def)
  have d2: "dist_ok e2 Q2 ls" by (rule dealt_dist [OF dd])
  then have "tasks_ok e2 Q2" by (simp add: dist_ok_def)
  from TaskItemsList_Delete_Nil [OF this Q2] obtain e3 where e3: "TaskItemsList_Delete r e2 = Ret e3"
    "tasks_ok e3 (Q2(r := None))" "items e3 = items e2" "tmem.more e3 = tmem.more e2"
    "item_brk e3 = item_brk e2" "list_brk e3 = list_brk e2" "dom (lists e3) = dom (lists e2) - {r}"
    "count_of e3 = (count_of e2)(r := 0)" by blast
  note m = rtenv_more_eq [OF e3(4)]
  have brk3: "brk_ok e3"
    using expired_frame(5) [OF e2(2) brk] e3(3,5-7) unfolding brk_ok_def by (metis Diff_iff domIff)
  have "dist_ok e3 (Q2(r := None)) ls"
    using d2 e3(2) r workers_ok_more [OF e3(4)] m(10) by (auto simp: dist_ok_def)
  then have "dealt ls xs e (Q(r := None)) e3 (Q2(r := None))"
  proof -
    have ne: "ls ! j \<noteq> r" if "j < length ls" for j using that r nth_mem by metis
    show ?thesis using dd \<open>dist_ok e3 (Q2(r := None)) ls\<close> r ne m(10) e3(8) by (auto simp: dealt_def)
  qed
  then show thesis by (rule that [OF e2(1) e3(1) e2(2) _ e3(3,4) brk3])
qed

lemma Deal_timeouts_run:
  fixes e :: "'z pollenv_scheme"
  assumes ok: "loop_ok e Q ls" and ends: "scan_ends now (wheel e)" and len: "length (due_tasks e Q now) < 2 ^ 32"
  shows "\<exists>e' Q'. Deal_timeouts now now' e = Ret e' \<and> delivered ls (due_tasks e Q now) now now' e Q e' Q' \<and> brk_ok e'"
proof -
  let ?as = "due_tasks e Q now"
  obtain r e1 where S: "NewMergeUpdate2Now now (wheel e) e = Ret (r, wheel_at now (wheel e), e1)" "Q r = None"
    "dist_ok e1 (after_scan (wheel e) now r Q) ls" "brk_ok e1" "r \<notin> set ls"
    "count_of e1 r = of_nat (length ?as)" "same_payload e e1" "tmem.more e1 = tmem.more e" "same_calls e e1" "\<forall>l \<in> set ls. count_of e1 l = count_of e l"
    by (rule scan_ready [OF ok ends])
  note m1 = rtenv_more_eq [OF S(8)]
  let ?E = "emptied (due_buckets (wheel e) now) Q" and ?e = "e1\<lparr>Epoll := (Epoll e1)\<lparr>TimeoutScaner := wheel_at now (wheel e)\<rparr>\<rparr>"
  have r: "r \<notin> set (due_buckets (wheel e) now)"
    using due_buckets_mem(2) [OF loop_okD(4) [OF ok]] loop_okD(7) [OF ok] S(2) by fastforce
  have Q1: "after_scan (wheel e) now r Q = ?E(r \<mapsto> ?as)"
    by (auto simp: after_scan_def emptied_def due_tasks_def fun_eq_iff)
  have Er: "?E(r := None) = ?E" using r S(2) by (auto simp: emptied_def fun_eq_iff)
  have d: "dist_ok ?e (?E(r \<mapsto> ?as)) ls" using S(3) unfolding Q1 by (subst dist_ok_above [of _ e1]) simp_all
  have sc: "same_calls e ?e" using S(9) by (simp add: same_calls_def)
  note tt = same_calls_list [OF sc due_timed [OF ok]]
  have brk: "brk_ok ?e" using S(4) by (simp add: brk_ok_def)
  have cnt: "count_of ?e r = of_nat (length ?as)" using S(6) by (simp add: count_of_def)
  obtain e2 e3 Q2 where D: "drain (popHead r) timed_out ?e = Ret e2" "TaskItemsList_Delete r e2 = Ret e3"
    "expired ls ?as ?e (?E(r \<mapsto> [])) e2 Q2" "dealt ls ?as ?e (?E(r := None)) e3 (Q2(r := None))"
    "items e3 = items e2" "tmem.more e3 = tmem.more e2" "brk_ok e3"
    by (rule drain_and_delete [OF d brk S(5) cnt len tt(1)])
  have ex: "ctl_log e2 = ctl_log ?e @ concat (map (timeout_log e) ?as)" "IsTimeout e2 = fold (timeout_flag e) ?as (IsTimeout ?e)"
    using D(3) unfolding expired_def tt(2,3) by blast+
  note m3 = rtenv_more_eq [OF D(6)]
  let ?e' = "e3\<lparr>Epoll := (Epoll e3)\<lparr>lastCheckTime := now'\<rparr>\<rparr>"
  have "Deal_timeouts now now' e = Ret ?e'"
    using S(1) D(1,2) by (simp add: Deal_timeouts_def)
  moreover have "dealt ls ?as e ?E ?e' (Q2(r := None))"
    using D(4) dealt_cong [of ?e e ls] m1(10) S(10) unfolding Er
    by (subst dealt_cong_after [of ?e' e3]) (simp_all add: count_of_def)
  moreover have "same_payload (e\<lparr>items := mark (set ?as) (items e)\<rparr>) ?e'"
  proof -
    have "map_option strip (items e2 a) = map_option strip (mark (set ?as) (items e1) a)" for a
      using D(3) by (simp add: expired_def env_frame_def)
    then show ?thesis using S(7) by (simp add: same_payload_def D(5) strip_mark)
  qed
  moreover have "pmsgs ?e' = pmsgs e" "routines ?e' = routines e"
    using expired_frame(3,4) [OF D(3)] pollenv_more_eq(1) [OF m3(13)] pollenv_more_eq(1) [OF m1(13)] m3(1) m1(1) by simp_all
  moreover have "cur_sch ?e' = cur_sch e" "\<forall>s. map_option quiet (scheds ?e' s) = map_option quiet (scheds e s)"
    using D(3) m1(5,12) m3(5,12) by (simp_all add: expired_def env_frame_def)
  moreover have "ctl_log ?e' = ctl_log e @ concat (map (timeout_log e) ?as)"
    using ex(1) pollenv_more_eq(4) [OF m3(13)] pollenv_more_eq(4) [OF m1(13)] by simp
  moreover have "IsTimeout ?e' = fold (timeout_flag e) ?as (IsTimeout e)"
    using ex(2) syncenv_more_eq(3) [OF m3(13)] syncenv_more_eq(3) [OF m1(13)] by simp
  moreover have "bMutexes ?e' = bMutexes e" "bConds ?e' = bConds e"
    using expired_frame(7,8) [OF D(3)] syncenv_more_eq(1,2) [OF m3(13)] syncenv_more_eq(1,2) [OF m1(13)] by simp_all
  moreover have "Epoll ?e' = (Epoll e)\<lparr>TimeoutScaner := wheel_at now (wheel e), lastCheckTime := now'\<rparr>"
    using expired_frame(6) [OF D(3)] epenv_more_eq(1) [OF m3(13)] epenv_more_eq(1) [OF m1(13)] by simp
  moreover have "brk_ok ?e'" using D(7) by (simp add: brk_ok_def)
  ultimately show ?thesis unfolding delivered_def by blast
qed

lemma core_mark: "map_option core (mark A m b) = map_option core (m b)"
  by (cases "m b") (simp_all add: mark_def core_def strip_def)

lemma delivered_loop_ok:
  fixes e :: "'z pollenv_scheme"
  assumes ok: "loop_ok e Q ls" and de: "delivered ls (due_tasks e Q now) now now' e Q e' Q'" and brk: "brk_ok e'"
  shows "loop_ok e' Q' ls" and "b \<in> set (TaskItemBucket (wheel e)) \<Longrightarrow> Q' b = emptied (due_buckets (wheel e) now) Q b"
proof -
  let ?as = "due_tasks e Q now"
  have de': "dealt ls ?as e (emptied (due_buckets (wheel e) now) Q) e' Q'"
    "same_payload (e\<lparr>items := mark (set ?as) (items e)\<rparr>) e'" "pmsgs e' = pmsgs e" "routines e' = routines e"
    "wheel e' = wheel_at now (wheel e)" using de unfolding delivered_def by simp_all
  show bk: "Q' b = emptied (due_buckets (wheel e) now) Q b" if "b \<in> set (TaskItemBucket (wheel e))" for b
    using de'(1) that loop_okD(5) [OF ok] unfolding dealt_def by blast
  have sc: "same_calls e e'"
  proof -
    have "map_option core (items e' b) = map_option core (mark (set ?as) (items e) b)" for b
      using core_payload [OF de'(2), of b] by simp
    then show ?thesis by (simp add: same_calls_def de'(3,4) core_mark)
  qed
  have "timer_ok (wheel_at now (wheel e)) Q'"
  proof -
    have "Q' b \<noteq> None" if "b \<in> set (TaskItemBucket (wheel e))" for b
      using bk [OF that] loop_okD(7) [OF ok that] by (auto simp: emptied_def)
    then show ?thesis
      using loop_okD(4) [OF ok] target_pos_less [OF loop_okD(4) [OF ok], of now]
      by (simp add: timer_ok_def wheel_at_def word_less_nat_alt)
  qed
  moreover have "timed_task e' a" if a: "b \<in> set (TaskItemBucket (wheel e))" "a \<in> set (the (Q' b))" for a b
  proof (rule same_calls_task(1) [OF sc])
    have "a \<in> set (the (Q b))" using a bk [OF a(1)] by (auto simp: emptied_def split: if_splits)
    then show "timed_task e a" by (rule loop_okD(6) [OF ok a(1)])
  qed
  ultimately show "loop_ok e' Q' ls"
    using dealt_dist [OF de'(1)] brk ok by (simp add: loop_ok_def de'(5))
qed

section \<open>A whole turn\<close>

lemma due_tasks_distinct:
  assumes ok: "loop_ok e Q ls"
  shows "distinct (due_tasks e Q now)"
proof -
  note D = loop_okD [OF ok] and B = due_buckets_mem [OF loop_okD(4) [OF ok], of now]
  have mem: "\<exists>xs. Q b = Some xs" if "b \<in> set (due_buckets (wheel e) now)" for b using that B(2) D(7) by blast
  have inner: "distinct (the (Q b))" if "b \<in> set (due_buckets (wheel e) now)" for b
    using mem [OF that] links_ok_distinct [OF tasks_ok_links [OF D(2)]] by fastforce
  have disj: "set (the (Q b)) \<inter> set (the (Q c)) = {}"
    if bc: "b \<in> set (due_buckets (wheel e) now)" "c \<in> set (due_buckets (wheel e) now)" "b \<noteq> c" for b c
  proof -
    obtain xs ys where "Q b = Some xs" "Q c = Some ys" using mem bc(1,2) by blast
    then show ?thesis using links_ok_disjoint [OF tasks_ok_links [OF D(2)]] bc(3) by fastforce
  qed
  have "distinct (concat (map (\<lambda>b. the (Q b)) bs))"
    if "distinct bs" "set bs \<subseteq> set (due_buckets (wheel e) now)" for bs
    using that
  proof (induction bs)
    case (Cons b bs)
    then have "set (the (Q b)) \<inter> set (the (Q c)) = {}" if "c \<in> set bs" for c
      using that disj [of b c] by (cases "b = c") auto
    with Cons inner [of b] show ?case by auto
  qed simp
  then show ?thesis using B(1) by (simp add: due_tasks_def)
qed

lemma due_tasks_passed:
  fixes e :: "'z pollenv_scheme"
  assumes ok: "loop_ok e Q ls" and pa: "passed ls evs e Q e' Q'"
  shows "due_tasks e' Q' now = filter (\<lambda>a. a \<notin> task_of e ` set (map (ev_msg e) evs)) (due_tasks e Q now)"
proof -
  let ?A = "task_of e ` set (map (ev_msg e) evs)"
  have w: "wheel e' = wheel e" using passed_frame(3) [OF pa] by simp
  have "map (\<lambda>b. the (Q' b)) (due_buckets (wheel e) now) =
      map (\<lambda>b. filter (\<lambda>a. a \<notin> ?A) (the (Q b))) (due_buckets (wheel e) now)"
  proof (rule map_cong [OF refl])
    fix b assume "b \<in> set (due_buckets (wheel e) now)"
    then have b: "b \<in> set (TaskItemBucket (wheel e))" using due_buckets_mem(2) [OF loop_okD(4) [OF ok]] by blast
    obtain xs where "Q b = Some xs" using loop_okD(7) [OF ok b] by blast
    then show "the (Q' b) = filter (\<lambda>a. a \<notin> ?A) (the (Q b))"
      unfolding passed_loop_ok(2) [OF ok pa b] without_def by simp
  qed
  then show ?thesis by (simp only: due_tasks_def w filter_concat map_map comp_def)
qed

text \<open>The flag that tells a routine its time was up.\<close>

lemma delivered_flag:
  fixes e :: "'z pollenv_scheme"
  assumes pa: "same_payload e e1" and de: "delivered ls as now now' e1 Q1 e' Q'" and t': "items e' a = Some t'"
  shows "\<exists>t. items e a = Some t \<and> IsTasktimeout t' = (IsTasktimeout t \<or> a \<in> set as)"
proof -
  have de': "same_payload (e1\<lparr>items := mark (set as) (items e1)\<rparr>) e'" using de unfolding delivered_def by simp
  have "map_option strip (Some t') = map_option strip (mark (set as) (items e1) a)"
    using de' unfolding same_payload_def t' [symmetric] by simp
  then have "map_option strip (Some t') =
      map_option (\<lambda>t. if a \<in> set as then t\<lparr>IsTasktimeout := True\<rparr> else t) (map_option strip (items e a))"
    using pa unfolding strip_mark by (simp add: same_payload_def)
  then obtain t where "items e a = Some t"
    and s: "strip t' = (if a \<in> set as then (strip t)\<lparr>IsTasktimeout := True\<rparr> else strip t)"
    by (cases "items e a") auto
  moreover have "IsTasktimeout t' = (IsTasktimeout t \<or> a \<in> set as)"
    using arg_cong [OF s, of IsTasktimeout] by (auto simp: strip_def split: if_splits)
  ultimately show ?thesis by blast
qed

text \<open>\<open>Deal\<close> as the two passes and the drain.\<close>

lemma Deal_run:
  fixes e :: "'z pollenv_scheme"
  assumes ok: "loop_ok e Q ls"
    and evs: "\<forall>ee \<in> set evs. fd_event e ee \<and> waiting_msg e Q (ev_msg e ee)"
    and inj: "inj_on (task_of e) (set (map (ev_msg e) evs))" and len: "length evs < 2 ^ 64"
    and ends: "scan_ends now (wheel e)" and due: "length (due_tasks e Q now) < 2 ^ 32"
  shows "\<exists>e1 Q1 e' Q'. Deal (Inr evs) now now' e = Ret e' \<and> passed ls evs e Q e1 Q1 \<and>
    delivered ls (filter (\<lambda>a. a \<notin> task_of e ` set (map (ev_msg e) evs)) (due_tasks e Q now)) now now' e1 Q1 e' Q' \<and>
    loop_ok e1 Q1 ls \<and> loop_ok e' Q' ls \<and>
    (\<forall>b \<in> set (TaskItemBucket (wheel e)). Q' b = emptied (due_buckets (wheel e) now) Q1 b)"
proof -
  obtain e1 Q1 where e1: "pbind (push_list call_perpare evs e) (push_list call_back evs) = Ret e1"
    "passed ls evs e Q e1 Q1"
    using both_passes [OF ok evs inj len] by blast
  note lo = passed_loop_ok [OF ok e1(2)] and due1 = due_tasks_passed [OF ok e1(2), of now]
  have w: "wheel e1 = wheel e" using passed_frame(3) [OF e1(2)] by simp
  have "length (due_tasks e1 Q1 now) < 2 ^ 32"
    unfolding due1 using due by (rule le_less_trans [OF length_filter_le])
  then obtain e' Q' where e': "Deal_timeouts now now' e1 = Ret e'"
    "delivered ls (due_tasks e1 Q1 now) now now' e1 Q1 e' Q'" "brk_ok e'"
    using Deal_timeouts_run [OF lo(1)] ends unfolding w by blast
  have "Deal (Inr evs) now now' e = Ret e'"
    by (simp only: Deal_def sum.case pbind_assoc [symmetric] e1(1) pbind_simps e'(1))
  then show ?thesis
    using e1(2) e'(2) lo(1) delivered_loop_ok [OF lo(1) e'(2,3)] unfolding due1 w by blast
qed

text \<open>What the workers' lists and the log are after both halves of a turn.\<close>

lemma handed_out:
  fixes e :: "'z pollenv_scheme"
  assumes ok: "loop_ok e Q ls" and w: "\<forall>ee \<in> set evs. waiting_msg e Q (ev_msg e ee)"
    and pa: "passed ls evs e Q e1 Q1" and de: "delivered ls due now now' e1 Q1 e' Q'" and j: "j < length ls"
    and ready: "ready = map (task_of e) (remdups (map (ev_msg e) evs))"
  shows "the (Q' (ls ! j)) = the (Q (ls ! j)) @ share (length ls) (unat (AddTask_i e)) j (ready @ due)"
    and "count_of e' (ls ! j) = count_of e (ls ! j) + of_nat (length (share (length ls) (unat (AddTask_i e)) j (ready @ due)))"
proof -
  have A: "set ready = task_of e ` set (map (ev_msg e) evs)" unfolding ready by simp
  have ok1: "loop_ok e1 Q1 ls" by (rule passed_loop_ok [OF ok pa])
  have d1: "dealt ls ready e (without (set ready) Q) e1 Q1" using pa unfolding passed_def Let_def A ready by simp
  have "ls ! j \<notin> set (due_buckets (wheel e1) now)"
    using loop_okD(5) [OF ok1 nth_mem [OF j]] due_buckets_mem(2) [OF loop_okD(4) [OF ok1]] by blast
  moreover have "dealt ls due e1 (emptied (due_buckets (wheel e1) now) Q1) e' Q'" using de by (simp add: delivered_def)
  ultimately have d2: "the (Q' (ls ! j)) = the (Q1 (ls ! j)) @ share (length ls) (unat (AddTask_i e1)) j due"
    "count_of e' (ls ! j) = count_of e1 (ls ! j) + of_nat (length (share (length ls) (unat (AddTask_i e1)) j due))"
    using j by (simp_all add: dealt_def emptied_def)
  have "without (set ready) Q (ls ! j) = Q (ls ! j)"
    unfolding A using w j by (intro without_worker [OF ok]) auto
  with d1 d2 j show "the (Q' (ls ! j)) = the (Q (ls ! j)) @ share (length ls) (unat (AddTask_i e)) j (ready @ due)"
    and "count_of e' (ls ! j) = count_of e (ls ! j) + of_nat (length (share (length ls) (unat (AddTask_i e)) j (ready @ due)))"
    by (simp_all add: dealt_def share_append [OF loop_okD(8) [OF ok]])
qed

lemma bucket_after:
  fixes e :: "'z pollenv_scheme"
  assumes ok: "loop_ok e Q ls" and pa: "passed ls evs e Q e1 Q1" and b: "b \<in> set (TaskItemBucket (wheel e))"
    and Q': "Q' b = emptied bs Q1 b" and A: "set ready = task_of e ` set (map (ev_msg e) evs)"
  shows "the (Q' b) = (if b \<in> set bs then [] else filter (\<lambda>a. a \<notin> set ready) (the (Q b)))"
proof -
  obtain xs where "Q b = Some xs" using loop_okD(7) [OF ok b] by blast
  then show ?thesis
    using passed_loop_ok(2) [OF ok pa b] unfolding Q' A [symmetric] by (simp add: emptied_def without_def)
qed

section \<open>A concrete environment with a wheel\<close>

text \<open>
  Two workers with the lists 0 and 1, a wheel of the buckets 2 to 5. Routine 1 polls the
  descriptors 5 and 6 with the message 0 and the items 13 and 14, routine 2 polls descriptor 7 with
  the message 1; both have a task on the wheel, and so has routine 3, which waits for a condition.
\<close>

definition ex_fd_item :: "pmid \<Rightarrow> addr \<Rightarrow> int \<Rightarrow> TaskItem" where
  "ex_fd_item p a fd = fd_task p \<lparr>pfd_fd = fd, pfd_events = POLLIN, pfd_revents = 0\<rparr> a TaskItem_zero"

definition ex_poll_item :: "addr option \<Rightarrow> addr option \<Rightarrow> laddr \<Rightarrow> rid \<Rightarrow> funptr \<Rightarrow> nat \<Rightarrow> TaskItem" where
  "ex_poll_item p n l r f arg = (ex_item p n (Some l) r)\<lparr>timeoutCallFunc := Some f, timeoutCallFuncArgs := Some arg\<rparr>"

definition ex_msg :: "addr \<Rightarrow> (int \<times> addr) list \<Rightarrow> poll_message" where
  "ex_msg k fas = \<lparr>pollfds = map (\<lambda>(fd, a). \<lparr>pfd_fd = fd, pfd_events = POLLIN, pfd_revents = 0\<rparr>) fas,
     pm_task = Some k, eachFdTask = map snd fas, activeFdsNums = 0, activeFdsNums2 = 0,
     IsJoinActiveList = False, IsRemoveFromTimeoutList = False\<rparr>"

definition ex_loop :: pollenv where
  "ex_loop = \<lparr>items = [10 \<mapsto> ex_poll_item None (Some 12) 3 1 pollTimeout_ptr 0,
      11 \<mapsto> ex_poll_item None None 4 2 pollTimeout_ptr 1,
      12 \<mapsto> ex_poll_item (Some 10) None 3 3 CondTimeOutCallback_ptr 3,
      13 \<mapsto> ex_fd_item 0 13 5, 14 \<mapsto> ex_fd_item 0 14 6, 15 \<mapsto> ex_fd_item 1 15 7],
     lists = [0 \<mapsto> ex_list None None 0, 1 \<mapsto> ex_list None None 0, 2 \<mapsto> ex_list None None 0,
       3 \<mapsto> ex_list (Some 10) (Some 12) 2, 4 \<mapsto> ex_list (Some 11) (Some 11) 1, 5 \<mapsto> ex_list None None 0],
     item_brk = 16, list_brk = 6,
     routines = routines ex_run_env, routine_brk = 10, stks = Map.empty, stk_brk = 0,
     scheds = [0 \<mapsto> (ex_sched 0 0)\<lparr>occupyRoutine := Some 4, pendingRoutine := Some 9\<rparr>, 1 \<mapsto> ex_sched 1 1],
     sched_brk = 2, RoutinePool = bRoutinePool_New, UnSharedStackPool = bUnSharedStackPool_New,
     TaskDistributor = TaskDistributor ex_env, AddTask_i = 0, New_id = 0, cur_sch = 0,
     Epoll = ex_epoll\<lparr>TimeoutScaner := ex_wheel\<lparr>TaskItemBucket := [2, 3, 4, 5]\<rparr>\<rparr>,
     bMutexes = Map.empty, bConds = Map.empty, IsTimeout = (\<lambda>_. 0),
     pmsgs = [0 \<mapsto> ex_msg 10 [(5, 13), (6, 14)], 1 \<mapsto> ex_msg 11 [(7, 15)]], pm_brk = 2,
     bEpollDealLock = False, ctl_log = []\<rparr>"

definition ex_loop_Q :: "laddr \<Rightarrow> addr list option" where
  "ex_loop_Q = [0 \<mapsto> [], 1 \<mapsto> [], 2 \<mapsto> [], 3 \<mapsto> [10, 12], 4 \<mapsto> [11], 5 \<mapsto> []]"

lemma ex_loop_tasks: "tasks_ok ex_loop ex_loop_Q"
proof -
  have "links_ok ex_loop ex_loop_Q"
    by (rule links_okI)
      (auto simp: ex_loop_def ex_loop_Q_def list_ok_def detached_def ex_poll_item_def ex_fd_item_def
        fd_task_def TaskItem_zero_def split: if_splits)
  moreover have "unlocked ex_loop" by (auto simp: unlocked_def ex_loop_def split: if_splits)
  ultimately show ?thesis by (simp add: tasks_ok_def)
qed

lemma ex_loop_fields:
  "TaskItemBucket (wheel ex_loop) = [2, 3, 4, 5]" "TaskItemBucketSize (wheel ex_loop) = 4"
  "LastCheckTime (wheel ex_loop) = 1000" "BucketPosNow (wheel ex_loop) = 0" "AddTask_i ex_loop = 0"
  "pmsgs ex_loop 0 = Some (ex_msg 10 [(5, 13), (6, 14)])" "pmsgs ex_loop (Suc 0) = Some (ex_msg 11 [(7, 15)])"
  by (simp_all add: ex_loop_def ex_wheel_def)

lemma ex_loop_timed: "timed_task ex_loop 10" "timed_task ex_loop 11" "timed_task ex_loop 12"
  by (simp_all add: timed_task_def ex_loop_def ex_poll_item_def ex_run_fields ex_routine_def ex_msg_def)

lemma ex_loop_ok: "loop_ok ex_loop ex_loop_Q [0, 1]"
proof -
  have "workers_ok ex_loop [0, 1]"
    by (simp add: workers_ok_def all_less_2 ex_sched_def ex_loop_def ex_env_def)
  then have "dist_ok ex_loop ex_loop_Q [0, 1]"
    using ex_loop_tasks by (simp add: dist_ok_def ex_loop_fields ex_loop_Q_def)
  moreover have "brk_ok ex_loop" by (simp add: brk_ok_def ex_loop_def)
  moreover have "timer_ok (wheel ex_loop) ex_loop_Q" by (simp add: timer_ok_def ex_loop_fields ex_loop_Q_def)
  ultimately show ?thesis
    by (simp add: loop_ok_def ex_loop_fields ex_loop_timed) (auto simp: ex_loop_Q_def ex_loop_timed)
qed

text \<open>Both descriptors of routine 1 are ready.\<close>

definition ex_events :: "epoll_event list" where
  "ex_events = [(Some 13, EPOLLIN), (Some 14, EPOLLOUT)]"

lemma ex_events_msgs: "map (ev_msg ex_loop) ex_events = [0, 0]"
  by (simp add: ex_events_def ev_msg_def ev_item_def ex_loop_def ex_fd_item_def fd_task_def)

lemma ex_events_ok:
  assumes "ee \<in> set ex_events"
  shows "fd_event ex_loop ee" and "waiting_msg ex_loop ex_loop_Q (ev_msg ex_loop ee)"
proof -
  have "items ex_loop 13 = Some (ex_fd_item 0 13 5)" "items ex_loop 14 = Some (ex_fd_item 0 14 6)"
    by (simp_all add: ex_loop_def)
  then show "fd_event ex_loop ee"
    using assms by (auto simp: ex_events_def fd_event_def ex_fd_item_def fd_task_def)
  have "ev_msg ex_loop ee \<in> set (map (ev_msg ex_loop) ex_events)" using assms by simp
  then have "ev_msg ex_loop ee = 0" by (simp add: ex_events_msgs del: set_map)
  moreover have "waiting_msg ex_loop ex_loop_Q 0"
    unfolding waiting_msg_def
    by (rule exI [of _ "ex_msg 10 [(5, 13), (6, 14)]"], rule exI [of _ 10], rule exI [of _ 3])
      (simp add: ex_loop_fields ex_msg_def ex_loop_Q_def, simp add: ex_loop_def)
  ultimately show "waiting_msg ex_loop ex_loop_Q (ev_msg ex_loop ee)" by simp
qed

section \<open>Properties\<close>

text \<open>
  C1: one turn of the event loop. On a well-formed environment, for events that belong to waiting
  messages and a scan that does not end in the last bucket, \<open>Deal\<close> returns and keeps the
  invariant. Every message with an event is woken once, however many of its descriptors are ready:
  the tasks of these messages, in the order of their last events, and then the tasks whose bucket is
  due and that no event has woken, are handed to the workers in turn, each once, and the
  \<open>ItemCount\<close> of their lists counts them. The woken messages
  have their events and counts, the others are untouched; exactly the tasks handed out because of
  time are marked so, and \<open>epoll\<close> is told to forget the descriptors of exactly the woken and the
  timed out messages.
\<close>

theorem Deal_wakes_each_wait_once:
  fixes e :: "'z pollenv_scheme"
  assumes "loop_ok e Q ls"
    and "\<forall>ee \<in> set evs. fd_event e ee \<and> waiting_msg e Q (ev_msg e ee)"
    and "inj_on (task_of e) (set (map (ev_msg e) evs))" and "length evs < 2 ^ 64"
    and "scan_ends now (wheel e)" and "length (due_tasks e Q now) < 2 ^ 32"
    and "ps = map (ev_msg e) evs" and "ready = map (task_of e) (remdups ps)"
    and "due = filter (\<lambda>a. a \<notin> set ready) (due_tasks e Q now)"
  shows "\<exists>e' Q'. Deal (Inr evs) now now' e = Ret e' \<and> loop_ok e' Q' ls \<and> distinct (ready @ due) \<and>
    (\<forall>j < length ls. the (Q' (ls ! j)) = the (Q (ls ! j)) @ share (length ls) (unat (AddTask_i e)) j (ready @ due) \<and>
       count_of e' (ls ! j) = count_of e (ls ! j) + of_nat (length (share (length ls) (unat (AddTask_i e)) j (ready @ due)))) \<and>
    (\<forall>b \<in> set (TaskItemBucket (wheel e)). the (Q' b) =
       (if b \<in> set (due_buckets (wheel e) now) then [] else filter (\<lambda>a. a \<notin> set ready) (the (Q b)))) \<and>
    (\<forall>p. pmsgs e' p = (if p \<in> set ps then map_option (woken_msg \<circ> noted_all e evs p) (pmsgs e p) else pmsgs e p)) \<and>
    (\<forall>a t'. items e' a = Some t' \<longrightarrow> (\<exists>t. items e a = Some t \<and> IsTasktimeout t' = (IsTasktimeout t \<or> a \<in> set due))) \<and>
    ctl_log e' = ctl_log e @ concat (map (msg_entries CTL_DEL e) (remdups ps)) @ concat (map (timeout_log e) due) \<and>
    lastCheckTime (Epoll e') = now'"
proof -
  have A: "set ready = task_of e ` set (map (ev_msg e) evs)" unfolding assms(7,8) by simp
  obtain e1 Q1 e' Q' where e': "Deal (Inr evs) now now' e = Ret e'" "passed ls evs e Q e1 Q1"
    "delivered ls due now now' e1 Q1 e' Q'" "loop_ok e1 Q1 ls" "loop_ok e' Q' ls"
    "\<And>b. b \<in> set (TaskItemBucket (wheel e)) \<Longrightarrow> Q' b = emptied (due_buckets (wheel e) now) Q1 b"
    using Deal_run [OF assms(1-6), of now'] unfolding assms(9) A by blast
  note fr = passed_frame [OF e'(2)]
  have pa: "\<And>p. pmsgs e1 p = (if p \<in> set ps then map_option (woken_msg \<circ> noted_all e evs p) (pmsgs e p) else pmsgs e p)"
    "ctl_log e1 = ctl_log e @ concat (map (msg_entries CTL_DEL e) (remdups ps))"
    using e'(2) unfolding passed_def Let_def assms(7) by blast+
  have de: "pmsgs e' = pmsgs e1"
    "ctl_log e' = ctl_log e1 @ concat (map (timeout_log e1) due)" "lastCheckTime (Epoll e') = now'"
    using e'(3) unfolding delivered_def by simp_all
  have "distinct (ready @ due)"
    using assms(3) due_tasks_distinct [OF assms(1), of now]
    by (auto simp: assms(7,8,9) distinct_map)
  moreover have "the (Q' (ls ! j)) = the (Q (ls ! j)) @ share (length ls) (unat (AddTask_i e)) j (ready @ due) \<and>
      count_of e' (ls ! j) = count_of e (ls ! j) + of_nat (length (share (length ls) (unat (AddTask_i e)) j (ready @ due)))"
    if "j < length ls" for j
    using handed_out [OF assms(1) _ e'(2,3) that assms(8) [unfolded assms(7)]] assms(2) by blast
  moreover have "the (Q' b) = (if b \<in> set (due_buckets (wheel e) now) then [] else filter (\<lambda>a. a \<notin> set ready) (the (Q b)))"
    if b: "b \<in> set (TaskItemBucket (wheel e))" for b
    by (rule bucket_after [where Q' = Q', OF assms(1) e'(2) b e'(6) [OF b] A])
  moreover have "\<exists>t. items e a = Some t \<and> IsTasktimeout t' = (IsTasktimeout t \<or> a \<in> set due)"
    if "items e' a = Some t'" for a t' by (rule delivered_flag [OF fr(1) e'(3) that])
  moreover have "ctl_log e' = ctl_log e @ concat (map (msg_entries CTL_DEL e) (remdups ps)) @ concat (map (timeout_log e) due)"
  proof -
    have "\<forall>a \<in> set due. timed_task e a" using due_timed [OF assms(1), of now] by (simp add: assms(9))
    then show ?thesis unfolding de(2) pa(2) by (simp only: same_calls_list(2) [OF fr(2)] append_assoc)
  qed
  moreover have "\<forall>p. pmsgs e' p = (if p \<in> set ps then map_option (woken_msg \<circ> noted_all e evs p) (pmsgs e p) else pmsgs e p)"
    unfolding de(1) using pa(1) by blast
  ultimately show ?thesis using e'(1,5) de(3) by blast
qed

text \<open>
  Message 0 is woken once by its two events; the condition's task in the same bucket is timed out;
  the task of message 1 stays.
\<close>

theorem Deal_wakes_each_wait_once_witness:
  "\<exists>e' Q'. Deal (Inr ex_events) 1001 1001 ex_loop = Ret e' \<and> loop_ok e' Q' [0, 1] \<and>
    the (Q' 0) = [10] \<and> the (Q' 1) = [12] \<and> the (Q' 3) = [] \<and> the (Q' 4) = [11] \<and>
    map_option activeFdsNums (pmsgs e' 0) = Some 2"
proof -
  have due: "due_tasks ex_loop ex_loop_Q 1001 = [10, 12]"
    by (simp add: due_tasks_def due_buckets_def target_pos_def ex_loop_fields ex_loop_Q_def)
  have bs: "due_buckets (wheel ex_loop) 1001 = [3]"
    by (simp add: due_buckets_def target_pos_def ex_loop_fields)
  have tsk: "task_of ex_loop 0 = 10" by (simp add: task_of_def ex_loop_fields ex_msg_def)
  have ends: "scan_ends 1001 (wheel ex_loop)" by (simp add: scan_ends_def target_pos_def ex_loop_fields)
  have evs: "\<forall>ee \<in> set ex_events. fd_event ex_loop ee \<and> waiting_msg ex_loop ex_loop_Q (ev_msg ex_loop ee)"
    using ex_events_ok by blast
  have n: "activeFdsNums (noted_all ex_loop ex_events 0 (ex_msg 10 [(5, 13), (6, 14)])) = 2"
    unfolding noted_all_fields ex_events_msgs by (simp add: ex_msg_def)
  note T = Deal_wakes_each_wait_once [OF ex_loop_ok evs _ _ ends _ ex_events_msgs [symmetric] refl refl, of 1001]
  have len: "length ex_events < 2 ^ 64" by (simp add: ex_events_def)
  from T len obtain e' Q' where e': "Deal (Inr ex_events) 1001 1001 ex_loop = Ret e'" "loop_ok e' Q' [0, 1]"
    "\<forall>j < length [0 :: nat, 1]. the (Q' ([0, 1] ! j)) = the (ex_loop_Q ([0, 1] ! j)) @ share 2 0 j [10, 12] \<and>
      count_of e' ([0, 1] ! j) = count_of ex_loop ([0, 1] ! j) + of_nat (length (share 2 0 j [10 :: nat, 12]))"
    "\<forall>b \<in> set [2, 3, 4, 5]. the (Q' b) = (if b \<in> {3} then [] else filter (\<lambda>a. a \<notin> {10}) (the (ex_loop_Q b)))"
    "pmsgs e' 0 = map_option (woken_msg \<circ> noted_all ex_loop ex_events 0) (pmsgs ex_loop 0)"
    by (auto simp: ex_events_msgs due bs tsk ex_loop_fields simp del: set_map)
  have "the (Q' 0) = [10]" "the (Q' 1) = [12]" using e'(3) by (simp_all add: all_less_2 ex_loop_Q_def)
  moreover have "the (Q' 3) = []" "the (Q' 4) = [11]" using e'(4) by (simp_all add: ex_loop_Q_def)
  moreover have "map_option activeFdsNums (pmsgs e' 0) = Some 2"
    unfolding e'(5) ex_loop_fields by (simp add: woken_msg_def n)
  ultimately show ?thesis using e'(1,2) by blast
qed

end
