(* ===== verification/Poll_Wait.thy ===== *)
theory Poll_Wait
  imports Event_Loop
begin

text \<open>
  \<open>poll\<close> around its switch: what it leaves behind when it goes away, which is what the event
  loop expects, and what it returns when it is switched back to.
\<close>

section \<open>Going away\<close>

lemma getBucket_mem:
  assumes ok: "timer_ok t Q" and b: "getBucket ms t = Ret b"
  shows "b \<in> set (TaskItemBucket t)"
proof -
  have "wheel_size t \<noteq> 0" using timer_ok_size [OF ok] by simp
  moreover have "length (TaskItemBucket t) = wheel_size t" using ok by (simp add: timer_ok_def)
  ultimately show ?thesis using getBucket_index [OF ok, of ms] b by auto
qed

text \<open>Items with new payload, in a memory that is otherwise the same.\<close>

lemma new_fd_tasks_run:
  fixes h :: "'z tmem_scheme"
  assumes "tasks_ok h Q" and "brk_ok h"
  shows "\<exists>as M n. new_fd_tasks p fs h = Ret (as, h\<lparr>items := M, item_brk := n\<rparr>) \<and>
    tasks_ok (h\<lparr>items := M, item_brk := n\<rparr>) Q \<and> brk_ok (h\<lparr>items := M, item_brk := n\<rparr>) \<and>
    list_all2 (\<lambda>f a. M a = Some (fd_task p f a TaskItem_zero)) fs as \<and> (\<forall>a \<in> set as. items h a = None) \<and>
    (\<forall>a. a \<notin> set as \<longrightarrow> M a = items h a)"
  using assms
proof (induction fs arbitrary: h)
  case Nil
  have "h\<lparr>items := items h, item_brk := item_brk h\<rparr> = h" by simp
  then show ?case using Nil by (intro exI [of _ "[]"] exI [of _ "items h"] exI [of _ "item_brk h"]) simp
next
  case (Cons f fs)
  let ?a = "item_brk h" and ?t = "fd_task p f (item_brk h) TaskItem_zero"
  let ?h0 = "h\<lparr>items := (items h)(?a \<mapsto> TaskItem_zero), item_brk := ?a + 1\<rparr>"
  let ?h1 = "h\<lparr>item_brk := ?a + 1, items := (items h)(?a \<mapsto> ?t)\<rparr>"
  have eq: "?h1\<lparr>items := M, item_brk := n\<rparr> = h\<lparr>items := M, item_brk := n\<rparr>" for M n by (cases h) simp
  have new: "TaskItem_New h = (?a, ?h0)" by (simp add: TaskItem_New_def)
  note N = TaskItem_New_tasks [OF Cons.prems new]
  have "tasks_ok ?h1 Q = tasks_ok ?h0 Q"
    by (rule tasks_ok_payload) (simp_all add: fd_task_def)
  then have ok1: "tasks_ok ?h1 Q" using N(1) by simp
  have brk1: "brk_ok ?h1" using N(2) by (auto simp: brk_ok_def split: if_splits)
  obtain as M n where IH: "new_fd_tasks p fs ?h1 = Ret (as, ?h1\<lparr>items := M, item_brk := n\<rparr>)"
    "tasks_ok (?h1\<lparr>items := M, item_brk := n\<rparr>) Q" "brk_ok (?h1\<lparr>items := M, item_brk := n\<rparr>)"
    "list_all2 (\<lambda>f a. M a = Some (fd_task p f a TaskItem_zero)) fs as" "\<forall>a \<in> set as. items ?h1 a = None"
    "\<forall>a. a \<notin> set as \<longrightarrow> M a = items ?h1 a"
    using Cons.IH [OF ok1 brk1] by blast
  note F = IH(1-3) [unfolded eq]
  have a: "?a \<notin> set as" using IH(5) by auto
  have "new_fd_tasks p (f # fs) h = Ret (?a # as, h\<lparr>items := M, item_brk := n\<rparr>)"
    using new F(1) by simp
  moreover have "list_all2 (\<lambda>f a. M a = Some (fd_task p f a TaskItem_zero)) (f # fs) (?a # as)"
    using IH(4,6) a by simp
  moreover have "\<forall>a \<in> set (?a # as). items h a = None" using IH(5) N(3) by (auto split: if_splits)
  moreover have "\<forall>a. a \<notin> set (?a # as) \<longrightarrow> M a = items h a" using IH(6) by simp
  ultimately show ?case using F(2,3)
    by (intro exI [of _ "?a # as"] exI [of _ M] exI [of _ n]) simp
qed

definition poll_task :: "rid \<Rightarrow> pmid \<Rightarrow> TaskItem" where
  "poll_task r p = TaskItem_zero\<lparr>ti_self := Some r, timeoutCallFunc := Some pollTimeout_ptr, timeoutCallFuncArgs := Some p\<rparr>"

definition new_msg :: "pollfd list \<Rightarrow> addr \<Rightarrow> addr list \<Rightarrow> poll_message" where
  "new_msg fds k as = \<lparr>pollfds = map (\<lambda>f. f\<lparr>pfd_revents := 0\<rparr>) fds, pm_task = Some k, eachFdTask = as,
     activeFdsNums = 0, activeFdsNums2 = 0, IsJoinActiveList = False, IsRemoveFromTimeoutList = False\<rparr>"

lemma poll_message_New_run:
  fixes e :: "'z pollenv_scheme"
  assumes ok: "tasks_ok e Q" and brk: "brk_ok e" and self: "getSelf e = Ret r"
  shows "\<exists>k as M n. let e' = e\<lparr>items := M, item_brk := n, pmsgs := (pmsgs e)(pm_brk e \<mapsto> new_msg fds k as), pm_brk := pm_brk e + 1\<rparr> in
    poll_message_New fds e = Ret (pm_brk e, e') \<and> tasks_ok e' Q \<and> brk_ok e' \<and>
    M k = Some (poll_task r (pm_brk e)) \<and> k \<notin> set as \<and>
    list_all2 (\<lambda>f a. M a = Some (fd_task (pm_brk e) f a TaskItem_zero)) fds as \<and>
    (\<forall>a \<in> insert k (set as). items e a = None) \<and> (\<forall>a. a \<notin> insert k (set as) \<longrightarrow> M a = items e a)"
proof -
  let ?p = "pm_brk e" and ?k = "item_brk e"
  let ?e0 = "e\<lparr>pm_brk := ?p + 1\<rparr>"
  let ?e1 = "e\<lparr>items := (items e)(?k \<mapsto> TaskItem_zero), item_brk := ?k + 1, pm_brk := ?p + 1\<rparr>"
  let ?e2 = "e\<lparr>item_brk := ?k + 1, pm_brk := ?p + 1, items := (items e)(?k \<mapsto> TaskItem_zero\<lparr>ti_self := Some r\<rparr>)\<rparr>"
  have new: "TaskItem_New ?e0 = (?k, ?e1)" by (simp add: TaskItem_New_def)
  have ok0: "tasks_ok ?e0 Q" "brk_ok ?e0" using ok brk tasks_ok_cong [of ?e0 e] by (simp_all add: brk_ok_def)
  note N = TaskItem_New_tasks [OF ok0 new]
  have "tasks_ok ?e2 Q = tasks_ok ?e1 Q" by (rule tasks_ok_payload) simp_all
  then have ok2: "tasks_ok ?e2 Q" using N(1) by simp
  have brk2: "brk_ok ?e2" using N(2) by (auto simp: brk_ok_def split: if_splits)
  obtain as M n where F: "new_fd_tasks ?p fds ?e2 = Ret (as, ?e2\<lparr>items := M, item_brk := n\<rparr>)"
    "tasks_ok (?e2\<lparr>items := M, item_brk := n\<rparr>) Q" "brk_ok (?e2\<lparr>items := M, item_brk := n\<rparr>)"
    "list_all2 (\<lambda>f a. M a = Some (fd_task ?p f a TaskItem_zero)) fds as" "\<forall>a \<in> set as. items ?e2 a = None"
    "\<forall>a. a \<notin> set as \<longrightarrow> M a = items ?e2 a"
    using new_fd_tasks_run [OF ok2 brk2] by blast
  have k: "?k \<notin> set as" using F(5) by auto
  have Mk: "M ?k = Some (TaskItem_zero\<lparr>ti_self := Some r\<rparr>)" using F(6) k by simp
  let ?M = "M(?k \<mapsto> poll_task r ?p)"
  have eq: "?e2\<lparr>items := M, item_brk := n, pmsgs := P\<rparr> = e\<lparr>items := M, item_brk := n, pmsgs := P, pm_brk := ?p + 1\<rparr>"
    for M n P by (cases e) simp
  let ?e' = "e\<lparr>items := ?M, item_brk := n, pmsgs := (pmsgs e)(?p \<mapsto> new_msg fds ?k as), pm_brk := ?p + 1\<rparr>"
  have self2: "getSelf ?e1 = Ret r" using self by (simp add: getSelf_def sched_at_def)
  have "poll_message_New fds e = Ret (?p, ?e')"
    using new self2 F(1) Mk
    by (simp add: poll_message_New_def put_pm_def new_msg_def poll_task_def Let_def)
  moreover have "tasks_ok ?e' Q = tasks_ok (?e2\<lparr>items := M, item_brk := n\<rparr>) Q"
    by (rule tasks_ok_payload) (simp_all add: Mk poll_task_def)
  moreover have "brk_ok ?e'" using F(3) Mk by (auto simp: brk_ok_def)
  moreover have "list_all2 (\<lambda>f a. ?M a = Some (fd_task ?p f a TaskItem_zero)) fds as"
    using F(4) k by (auto simp: list_all2_conv_all_nth in_set_conv_nth)
  moreover have "\<forall>a \<in> insert ?k (set as). items e a = None" using F(5) N(3) by (auto split: if_splits)
  moreover have "\<forall>a. a \<notin> insert ?k (set as) \<longrightarrow> ?M a = items e a" using F(6) by simp
  ultimately show ?thesis using F(2) k unfolding Let_def
    by (intro exI [of _ ?k] exI [of _ as] exI [of _ ?M] exI [of _ n]) simp
qed

text \<open>The whole of it: registered, on the wheel, switched away.\<close>

definition poll_entry :: "pollfd \<Rightarrow> addr \<Rightarrow> ctl_op \<times> int \<times> addr option \<times> u32" where
  "poll_entry f a = (CTL_ADD, pfd_fd f, Some a, poll_to_epoll_events (pfd_events f))"

definition polling ::
    "rid \<Rightarrow> pollfd list \<Rightarrow> laddr \<Rightarrow> addr \<Rightarrow> addr list \<Rightarrow> (addr \<Rightarrow> TaskItem option) \<Rightarrow> laddr list \<Rightarrow>
     'z pollenv_scheme \<Rightarrow> (laddr \<Rightarrow> addr list option) \<Rightarrow> 'z pollenv_scheme \<Rightarrow> bool" where
  "polling r fds b k as M ls e Q e' \<longleftrightarrow>
     dist_ok e' (Q(b \<mapsto> the (Q b) @ [k])) ls \<and> brk_ok e' \<and> Epoll e' = Epoll e \<and> routines e' = routines e \<and>
     pmsgs e' = (pmsgs e)(pm_brk e \<mapsto> new_msg fds k as) \<and>
     (\<forall>a. map_option strip (items e' a) = map_option strip (M a)) \<and>
     M k = Some (poll_task r (pm_brk e)) \<and> k \<notin> set as \<and>
     list_all2 (\<lambda>f a. M a = Some (fd_task (pm_brk e) f a TaskItem_zero)) fds as \<and>
     (\<forall>a \<in> insert k (set as). items e a = None) \<and> (\<forall>a. a \<notin> insert k (set as) \<longrightarrow> M a = items e a) \<and>
     ctl_log e' = ctl_log e @ map2 poll_entry fds as"

lemma poll_entries:
  assumes "list_all2 (\<lambda>f a. M a = Some (fd_task p f a TaskItem_zero)) fds as"
    and "\<And>a. map_option strip (items h a) = map_option strip (M a)"
  shows "map (ctl_entry CTL_ADD h) as = map2 poll_entry fds as"
  using assms(1)
proof (induction rule: list_all2_induct)
  case (Cons f fs a as)
  have "map_option strip (items h a) = Some (strip (fd_task p f a TaskItem_zero))"
    using assms(2) [of a] Cons.hyps(1) by simp
  then obtain t where t: "items h a = Some t" "strip t = strip (fd_task p f a TaskItem_zero)" by blast
  then have "ctl_entry CTL_ADD h a = poll_entry f a"
    using strip_callbacks(5,6) [OF t(2)] strip_payload(4) [OF t(2)]
    by (simp add: ctl_entry_def poll_entry_def Let_def fd_task_def)
  then show ?case using Cons.IH by simp
qed simp

lemma poll_begin_run:
  fixes e :: "'z pollenv_scheme"
  assumes ok: "loop_ok e Q ls" and run: "running e r q" and x: "routines e r = Some x" "\<not> IsProgress x" "isEnableHook x"
    and t: "timeout \<noteq> 0" and b: "getBucket (of_int (if timeout < 0 then INTMAX_MAX else timeout)) (wheel e) = Ret b"
  shows "\<exists>k as M e'. poll_begin fds timeout e = Ret (Some (pm_brk e), e') \<and> polling r fds b k as M ls e Q e' \<and>
    running e' q r"
proof -
  note D = loop_okD [OF ok]
  have self: "getSelf e = Ret r" using run by (auto simp: getSelf_def running_def)
  obtain k as M n e1 where e1d: "e1 = e\<lparr>items := M, item_brk := n, pmsgs := (pmsgs e)(pm_brk e \<mapsto> new_msg fds k as), pm_brk := pm_brk e + 1\<rparr>"
    and e1: "poll_message_New fds e = Ret (pm_brk e, e1)" "tasks_ok e1 Q" "brk_ok e1"
      "M k = Some (poll_task r (pm_brk e))" "k \<notin> set as"
      "list_all2 (\<lambda>f a. M a = Some (fd_task (pm_brk e) f a TaskItem_zero)) fds as"
      "\<forall>a \<in> insert k (set as). items e a = None" "\<forall>a. a \<notin> insert k (set as) \<longrightarrow> M a = items e a"
    using poll_message_New_run [OF D(2,3) self, of fds] unfolding Let_def by blast
  have bm: "b \<in> set (TaskItemBucket (wheel e))" by (rule getBucket_mem [OF D(4) b])
  obtain xs where xs: "Q b = Some xs" using D(7) [OF bm] by blast
  have i1: "items e1 = M" "Epoll e1 = Epoll e" "pmsgs e1 (pm_brk e) = Some (new_msg fds k as)" by (simp_all add: e1d)
  have "detached (items e1) k" by (simp add: i1 detached_def e1(4) poll_task_def TaskItem_zero_def)
  with e1(4) obtain e2 where e2: "pushBack b (Some k) e1 = Ret e2" "tasks_ok e2 (Q(b \<mapsto> xs @ [k]))" "link_frame e1 e2"
    using pushBack_tasks [OF e1(2) xs, of k] by (auto simp: i1)
  have m: "tmem.more e2 = tmem.more e1" using e2(3) by (simp add: link_frame_def)
  note m2 = rtenv_more_eq [OF m]
  have str: "map_option strip (items e2 a) = map_option strip (M a)" for a
    using e2(3) by (simp add: link_frame_def i1)
  have as: "\<forall>a \<in> set as. items e2 a \<noteq> None"
  proof
    fix a assume "a \<in> set as"
    then obtain f where "M a = Some (fd_task (pm_brk e) f a TaskItem_zero)"
      using e1(6) by (auto simp: list_all2_conv_all_nth in_set_conv_nth)
    then show "items e2 a \<noteq> None" using str [of a] by auto
  qed
  let ?e3 = "e2\<lparr>ctl_log := ctl_log e2 @ map (ctl_entry CTL_ADD e2) as\<rparr>"
  have p2: "pmsgs e2 = pmsgs e1" "ctl_log e2 = ctl_log e1" using pollenv_more_eq(1,4) [OF m2(13)] by simp_all
  have c: "ctl_each CTL_ADD (Some (pm_brk e)) e2 = Ret ?e3"
    using ctl_items_run [OF as, of CTL_ADD] by (simp add: ctl_each_def pm_at_def p2 i1 new_msg_def)
  have d1: "dist_ok e1 Q ls" using D(1) e1(2) by (simp add: dist_ok_def workers_ok_def e1d)
  have d2: "dist_ok e2 (Q(b \<mapsto> xs @ [k])) ls"
    by (rule dist_ok_links [OF d1 e2(3,2)]) (use D(5) bm in auto)
  have d3: "dist_ok ?e3 (Q(b \<mapsto> xs @ [k])) ls" using d2 by (subst dist_ok_above [of _ e2]) simp_all
  have run3: "running ?e3 r q"
    using run running_above [of ?e3 e r q] m2(1,5,12) by (simp add: e1d)
  have x3: "routines ?e3 r = Some x" using x(1) m2(1) by (simp add: e1d)
  obtain e4 where e4: "SwapContext ?e3 = Ret e4" "running e4 q r" "items e4 = items e2" "lists e4 = lists e2"
    "item_brk e4 = item_brk e2" "list_brk e4 = list_brk e2" "routines e4 = routines e2"
    "\<And>Q ls. dist_ok ?e3 Q ls \<Longrightarrow> dist_ok e4 Q ls" "rtenv.more e4 = rtenv.more ?e3"
    using SwapContext_running [OF run3 x3] x(2) by auto
  have "poll_begin fds timeout e = Ret (Some (pm_brk e), e4)"
    using self x t b e1(1) e2(1) c e4(1)
    by (simp add: poll_begin_def routine_at_def i1 pm_at_def new_msg_def)
  moreover have "brk_ok e4" using brk_ok_frame [OF e2(3) e1(3)] e4(3-6) by (simp add: brk_ok_def)
  moreover have "Epoll e4 = Epoll e" using epenv_more_eq(1) [OF e4(9)] epenv_more_eq(1) [OF m2(13)] by (simp add: i1)
  moreover have "pmsgs e4 = (pmsgs e)(pm_brk e \<mapsto> new_msg fds k as)"
    "ctl_log e4 = ctl_log e @ map (ctl_entry CTL_ADD e2) as"
    using pollenv_more_eq(1,4) [OF e4(9)] by (simp_all add: p2 e1d)
  moreover have "map (ctl_entry CTL_ADD e2) as = map2 poll_entry fds as" by (rule poll_entries [OF e1(6) str])
  moreover have "routines e4 = routines e" using e4(7) m2(1) by (simp add: e1d)
  ultimately have "polling r fds b k as M ls e Q e4"
    using e4(8) [OF d3] e1(4-8) str unfolding polling_def e4(3) xs by simp
  with \<open>poll_begin fds timeout e = _\<close> e4(2) show ?thesis by blast
qed

text \<open>What was there before is there still.\<close>

lemma polling_old:
  fixes e :: "'z pollenv_scheme"
  assumes po: "polling r fds b k as M ls e Q e'" and a: "items e a = Some t"
  obtains t' where "items e' a = Some t'" and "strip t' = strip t" and "a \<notin> insert k (set as)"
proof -
  have n: "a \<notin> insert k (set as)" using po a unfolding polling_def by auto
  then have "map_option strip (items e' a) = Some (strip t)" using po a by (simp add: polling_def)
  then show thesis using that n by blast
qed

lemma polling_defined: "polling r fds b k as M ls e Q e' \<Longrightarrow> items e a \<noteq> None \<Longrightarrow> items e' a \<noteq> None"
  by (metis not_None_eq polling_old)

lemma core_strip: "strip t' = strip t \<Longrightarrow> core t' = core t"
  by (simp add: core_def)

lemma polling_timed:
  fixes e :: "'z pollenv_scheme"
  assumes po: "polling r fds b k as M ls e Q e'" and fresh: "pmsgs e (pm_brk e) = None" and tt: "timed_task e a"
  shows "timed_task e' a"
proof -
  obtain t s x where t: "items e a = Some t" "ti_self t = Some s" "routines e s = Some x" "\<not> IsProgress x"
    "timeoutCallFunc t = None \<or>
      timeoutCallFunc t = Some pollTimeout_ptr \<and> (\<exists>p pm. timeoutCallFuncArgs t = Some p \<and> pmsgs e p = Some pm \<and>
        (\<forall>b \<in> set (eachFdTask pm). items e b \<noteq> None)) \<or>
      timeoutCallFunc t = Some CondTimeOutCallback_ptr \<and> timeoutCallFuncArgs t \<noteq> None"
    using tt by (auto simp: timed_task_def)
  obtain t' where t': "items e' a = Some t'" "strip t' = strip t" by (rule polling_old [OF po t(1)])
  have pm: "pmsgs e' p = Some pm" if "pmsgs e p = Some pm" for p pm
    using that po fresh unfolding polling_def by auto
  note it = polling_defined [OF po]
  note c = core_fields [OF core_strip [OF t'(2)]]
  have "routines e' = routines e" using po by (simp add: polling_def)
  moreover have "timeoutCallFunc t' = None \<or>
      timeoutCallFunc t' = Some pollTimeout_ptr \<and> (\<exists>p pm. timeoutCallFuncArgs t' = Some p \<and> pmsgs e' p = Some pm \<and>
        (\<forall>b \<in> set (eachFdTask pm). items e' b \<noteq> None)) \<or>
      timeoutCallFunc t' = Some CondTimeOutCallback_ptr \<and> timeoutCallFuncArgs t' \<noteq> None"
    unfolding c using t(5) pm it by blast
  ultimately show ?thesis using t(2-4) t'(1) c(3) by (simp add: timed_task_def)
qed

lemma polling_item:
  fixes e :: "'z pollenv_scheme"
  assumes po: "polling r fds b k as M ls e Q e'" and a: "a \<in> set as"
  shows "fd_event e' (Some a, ev)" and "ev_msg e' (Some a, ev) = pm_brk e" and "items e' a \<noteq> None"
proof -
  have "list_all2 (\<lambda>f a. M a = Some (fd_task (pm_brk e) f a TaskItem_zero)) fds as" using po by (simp add: polling_def)
  then obtain f where "M a = Some (fd_task (pm_brk e) f a TaskItem_zero)"
    using a by (auto simp: list_all2_conv_all_nth in_set_conv_nth)
  then have "map_option strip (items e' a) = Some (strip (fd_task (pm_brk e) f a TaskItem_zero))"
    using po by (simp add: polling_def)
  then obtain t where t: "items e' a = Some t" "strip t = strip (fd_task (pm_brk e) f a TaskItem_zero)" by blast
  note c = strip_callbacks [OF t(2)]
  show "fd_event e' (Some a, ev)" using t(1) c by (simp add: fd_event_def fd_task_def)
  show "ev_msg e' (Some a, ev) = pm_brk e" using t(1) c by (simp add: ev_msg_def ev_item_def fd_task_def)
  show "items e' a \<noteq> None" using t(1) by simp
qed

lemma polling_task:
  fixes e :: "'z pollenv_scheme"
  assumes po: "polling r fds b k as M ls e Q e'" and x: "routines e r = Some x" "\<not> IsProgress x"
  shows "timed_task e' k" and "task_of e' (pm_brk e) = k"
proof -
  have k: "map_option strip (items e' k) = Some (strip (poll_task r (pm_brk e)))" using po by (simp add: polling_def)
  then obtain t where t: "items e' k = Some t" "strip t = strip (poll_task r (pm_brk e))" by blast
  note c = core_fields [OF core_strip [OF t(2)]]
  have pm: "pmsgs e' (pm_brk e) = Some (new_msg fds k as)" "routines e' = routines e" using po by (simp_all add: polling_def)
  have "\<forall>a \<in> set as. items e' a \<noteq> None" using polling_item(3) [OF po] by blast
  then show "timed_task e' k" using t(1) c pm x by (simp add: timed_task_def poll_task_def new_msg_def)
  show "task_of e' (pm_brk e) = k" using pm by (simp add: task_of_def new_msg_def)
qed

lemma polling_loop_ok:
  fixes e :: "'z pollenv_scheme"
  assumes ok: "loop_ok e Q ls" and po: "polling r fds b k as M ls e Q e'" and bm: "b \<in> set (TaskItemBucket (wheel e))"
    and x: "routines e r = Some x" "\<not> IsProgress x" and fresh: "pmsgs e (pm_brk e) = None"
  shows "loop_ok e' (Q(b \<mapsto> the (Q b) @ [k])) ls" and "waiting_msg e' (Q(b \<mapsto> the (Q b) @ [k])) (pm_brk e)"
    and "waiting_msg e Q p \<Longrightarrow> waiting_msg e' (Q(b \<mapsto> the (Q b) @ [k])) p \<and> p \<noteq> pm_brk e \<and> task_of e' p \<noteq> k"
proof -
  let ?Q = "Q(b \<mapsto> the (Q b) @ [k])"
  have w: "wheel e' = wheel e" and d: "dist_ok e' ?Q ls" and brk: "brk_ok e'"
    and pm: "pmsgs e' = (pmsgs e)(pm_brk e \<mapsto> new_msg fds k as)" and kn: "items e k = None"
    using po unfolding polling_def by auto
  have "timer_ok (wheel e) ?Q" using loop_okD(4) [OF ok] by (auto simp: timer_ok_def)
  moreover have "timed_task e' a" if "c \<in> set (TaskItemBucket (wheel e))" "a \<in> set (the (?Q c))" for c a
  proof (cases "a = k")
    case True
    then show ?thesis using polling_task(1) [OF po x] by simp
  next
    case False
    then have "a \<in> set (the (Q c))" using that(2) by (auto split: if_splits)
    then show ?thesis using polling_timed [OF po fresh] loop_okD(6) [OF ok that(1)] by blast
  qed
  ultimately show "loop_ok e' ?Q ls" using d brk ok by (simp add: loop_ok_def w)
  show "waiting_msg e' ?Q (pm_brk e)"
    unfolding waiting_msg_def
    by (rule exI [of _ "new_msg fds k as"], rule exI [of _ k], rule exI [of _ b])
      (use bm polling_item(3) [OF po] in \<open>simp add: pm w new_msg_def\<close>)
  show "waiting_msg e' ?Q p \<and> p \<noteq> pm_brk e \<and> task_of e' p \<noteq> k" if wm: "waiting_msg e Q p"
  proof -
    obtain y j c xs where y: "pmsgs e p = Some y" "pm_task y = Some j" "task_of e p = j"
      "c \<in> set (TaskItemBucket (wheel e))" "Q c = Some xs" "j \<in> set xs" "\<not> IsJoinActiveList y"
      "\<not> IsRemoveFromTimeoutList y" "activeFdsNums2 y = 0" "\<forall>a \<in> set (eachFdTask y). items e a \<noteq> None"
      "timed_task e j" by (rule waiting_msgD [OF ok wm])
    have ne: "p \<noteq> pm_brk e" using y(1) fresh by auto
    have "j \<noteq> k" using y(11) kn by (auto simp: timed_task_def)
    moreover have "\<forall>a \<in> set (eachFdTask y). items e' a \<noteq> None"
      using y(10) polling_defined [OF po] by blast
    then have "waiting_msg e' ?Q p"
      unfolding waiting_msg_def using y ne
      by (intro exI [of _ y] exI [of _ j] exI [of _ c]) (auto simp: pm w)
    ultimately show ?thesis using ne y(1-3) by (simp add: task_of_def pm)
  qed
qed

section \<open>Coming back\<close>

text \<open>The descriptors and masks of a message's events, and what \<open>poll\<close> should report for them.\<close>

definition msg_events :: "'z tmem_scheme \<Rightarrow> epoll_event list \<Rightarrow> pmid \<Rightarrow> (int \<times> u32) list" where
  "msg_events h evs p = map (\<lambda>ee. (ev_fd h ee, snd ee)) (filter (\<lambda>ee. ev_msg h ee = p) evs)"

definition reported :: "(int \<times> u32) list \<Rightarrow> pollfd list \<Rightarrow> pollfd list" where
  "reported evm fds = map (\<lambda>f. f\<lparr>pfd_revents :=
     (case map_of evm (pfd_fd f) of None \<Rightarrow> 0 | Some ev \<Rightarrow> epoll_to_poll_events ev)\<rparr>) fds"

definition ready_count :: "pollfd list \<Rightarrow> nat" where
  "ready_count fds = length (filter (\<lambda>f. pfd_revents f \<noteq> 0) fds)"

lemma set_revents_distinct:
  "distinct (map pfd_fd fs) \<Longrightarrow>
    set_revents fd ev fs = map (\<lambda>f. if pfd_fd f = fd then f\<lparr>pfd_revents := ev\<rparr> else f) fs"
proof (induction fs)
  case (Cons f fs)
  have "pfd_fd g \<noteq> pfd_fd f" if "g \<in> set fs" for g
  proof
    assume eq: "pfd_fd g = pfd_fd f"
    have "pfd_fd g \<in> pfd_fd ` set fs" using that by (rule imageI)
    moreover have "pfd_fd f \<notin> pfd_fd ` set fs" using Cons.prems by simp
    ultimately show False unfolding eq by (rule notE [rotated])
  qed
  then show ?case using Cons by (cases "pfd_fd f = fd") (auto intro!: map_idI [symmetric])
qed simp

text \<open>Noting events one by one gives each descriptor the mask of its event.\<close>

lemma noted_all_pollfds:
  assumes "distinct (map pfd_fd (pollfds pm))" and "distinct (map fst (msg_events h evs p))"
  shows "pollfds (noted_all h evs p pm) = map (\<lambda>f. case map_of (msg_events h evs p) (pfd_fd f) of
      None \<Rightarrow> f | Some ev \<Rightarrow> f\<lparr>pfd_revents := epoll_to_poll_events ev\<rparr>) (pollfds pm)"
  using assms
proof (induction evs arbitrary: pm)
  case Nil
  then show ?case by (simp add: msg_events_def)
next
  case (Cons ee evs)
  show ?case
  proof (cases "ev_msg h ee = p")
    case False
    then have "msg_events h (ee # evs) p = msg_events h evs p" by (simp add: msg_events_def)
    then show ?thesis using Cons False by simp
  next
    case True
    let ?fd = "ev_fd h ee" and ?E = "msg_events h evs p"
    let ?pm = "noted ?fd (snd ee) pm"
    have E: "msg_events h (ee # evs) p = (?fd, snd ee) # ?E" using True by (simp add: msg_events_def)
    have d: "?fd \<notin> fst ` set ?E" "distinct (map fst ?E)" using Cons.prems(2) by (simp_all add: E)
    have fds: "pollfds ?pm = map (\<lambda>f. if pfd_fd f = ?fd then f\<lparr>pfd_revents := epoll_to_poll_events (snd ee)\<rparr> else f) (pollfds pm)"
      using set_revents_distinct [OF Cons.prems(1)] by (simp add: noted_def)
    have "map pfd_fd (pollfds ?pm) = map pfd_fd (pollfds pm)" unfolding fds by simp
    then have "pollfds (noted_all h evs p ?pm) = map (\<lambda>f. case map_of ?E (pfd_fd f) of
        None \<Rightarrow> f | Some ev \<Rightarrow> f\<lparr>pfd_revents := epoll_to_poll_events ev\<rparr>) (pollfds ?pm)"
      using Cons.IH [of ?pm] Cons.prems(1) d(2) by simp
    moreover have "map_of ?E ?fd = None" using d(1) by (simp add: map_of_eq_None_iff)
    ultimately show ?thesis using True unfolding E fds by (auto split: option.splits)
  qed
qed

lemma ready_count_reported:
  assumes "distinct (map pfd_fd fds)" and "distinct (map fst evm)" and "fst ` set evm \<subseteq> pfd_fd ` set fds"
    and "\<forall>(fd, ev) \<in> set evm. epoll_to_poll_events ev \<noteq> 0"
  shows "ready_count (reported evm fds) = length evm"
proof -
  have "(case map_of evm fd of None \<Rightarrow> 0 | Some ev \<Rightarrow> epoll_to_poll_events ev) \<noteq> 0 \<longleftrightarrow> fd \<in> fst ` set evm" for fd
  proof (cases "map_of evm fd")
    case None
    then have "fd \<notin> fst ` set evm" by (simp add: map_of_eq_None_iff)
    with None show ?thesis by simp
  next
    case (Some ev)
    then have "(fd, ev) \<in> set evm" by (rule map_of_SomeD)
    then show ?thesis using assms(4) Some by force
  qed
  then have "ready_count (reported evm fds) = length (filter (\<lambda>f. pfd_fd f \<in> fst ` set evm) fds)"
    by (simp add: ready_count_def reported_def filter_map comp_def)
  also have "\<dots> = length (filter (\<lambda>fd. fd \<in> fst ` set evm) (map pfd_fd fds))" by (simp add: filter_map comp_def)
  also have "\<dots> = card (set (map pfd_fd fds) \<inter> fst ` set evm)"
    using distinct_length_filter [OF assms(1), of "\<lambda>fd. fd \<in> fst ` set evm"] by (simp add: Int_def conj_commute)
  also have "set (map pfd_fd fds) \<inter> fst ` set evm = set (map fst evm)" using assms(3) by auto
  also have "card (set (map fst evm)) = length evm" using distinct_card [OF assms(2)] by simp
  finally show ?thesis .
qed

lemma count_msg_events: "count_list (map (ev_msg h) evs) p = length (msg_events h evs p)"
  by (induction evs) (auto simp: msg_events_def)

lemma sint_count: "n < 2 ^ 31 \<Longrightarrow> sint (ucast (of_nat n :: u64) :: u32) = int n"
  by (simp add: sint_uint unsigned_of_nat signed_take_bit_int_eq_self take_bit_nat_eq_self unsigned_ucast_eq
      take_bit_int_eq_self)

lemma msg_events_Nil: "msg_events h evs p = [] \<longleftrightarrow> p \<notin> set (map (ev_msg h) evs)"
  by (auto simp: msg_events_def filter_empty_conv)

text \<open>The array of a new message after its events.\<close>

lemma noted_new_msg:
  assumes "distinct (map pfd_fd fds)" and "distinct (map fst (msg_events h evs p))"
  shows "pollfds (noted_all h evs p (new_msg fds k as)) = reported (msg_events h evs p) fds"
  using noted_all_pollfds [of "new_msg fds k as" h evs p] assms
  by (auto simp: reported_def new_msg_def comp_def split: option.splits)

lemma activeFds_new_msg:
  "activeFdsNums (noted_all h evs p (new_msg fds k as)) = of_nat (length (msg_events h evs p))"
  unfolding noted_all_fields count_msg_events by (simp add: new_msg_def)

text \<open>A state whose message and task are those that the event loop left.\<close>

lemma poll_end_run:
  fixes e :: "'z pollenv_scheme"
  assumes pm: "pmsgs e p = Some pm"
    and joined: "IsJoinActiveList pm \<or> (\<exists>k t. pm_task pm = Some k \<and> items e k = Some t \<and> IsTasktimeout t)"
    and n: "activeFdsNums pm = of_nat n" "n < 2 ^ 31"
  shows "poll_end p e = Ret (int n, pollfds pm, e\<lparr>pmsgs := (pmsgs e)(p := None)\<rparr>)"
  using joined pm n sint_count [OF n(2)] by (auto simp: poll_end_def pm_at_def)

section \<open>Properties\<close>

text \<open>
  C3: \<open>poll\<close> goes away with everything in place. For a hooked routine and a timeout other than
  0, \<open>poll\<close> makes a task for the timeout and an item for every descriptor, all new, puts the task
  at the end of the bucket of its timeout, tells \<open>epoll\<close> of every descriptor with its translated
  mask, and switches to the scheduler. The invariant of the event loop is kept; the new message and
  every message that waited before are waiting, with different tasks, and an event for any of the
  new items is an event of the new message.
\<close>

theorem poll_registers_the_wait:
  fixes e :: "'z pollenv_scheme"
  assumes "loop_ok e Q ls" and "running e r q"
    and "routines e r = Some x" and "\<not> IsProgress x" and "isEnableHook x" and "timeout \<noteq> 0"
    and "getBucket (of_int (if timeout < 0 then INTMAX_MAX else timeout)) (wheel e) = Ret b"
    and "pmsgs e (pm_brk e) = None" and "p = pm_brk e"
  shows "\<exists>e' k as Q'. poll_begin fds timeout e = Ret (Some p, e') \<and> running e' q r \<and>
    Q' = Q(b \<mapsto> the (Q b) @ [k]) \<and> loop_ok e' Q' ls \<and> items e k = None \<and>
    pmsgs e' p = Some (new_msg fds k as) \<and> waiting_msg e' Q' p \<and> length as = length fds \<and>
    (\<forall>a ev. a \<in> set as \<longrightarrow> items e a = None \<and> fd_event e' (Some a, ev) \<and> ev_msg e' (Some a, ev) = p) \<and>
    (\<forall>p'. waiting_msg e Q p' \<longrightarrow> waiting_msg e' Q' p' \<and> task_of e' p' \<noteq> task_of e' p) \<and>
    ctl_log e' = ctl_log e @ map2 poll_entry fds as"
proof -
  obtain k as M e' where e': "poll_begin fds timeout e = Ret (Some (pm_brk e), e')" "running e' q r"
    and po: "polling r fds b k as M ls e Q e'"
    using poll_begin_run [OF assms(1-7)] by blast
  note L = polling_loop_ok [OF assms(1) po getBucket_mem [OF loop_okD(4) [OF assms(1)] assms(7)] assms(3,4,8)]
  note T = polling_task(2) [OF po assms(3,4)] and I = polling_item(1,2) [OF po]
  have "\<forall>a \<in> insert k (set as). items e a = None" using po unfolding polling_def by (elim conjE)
  moreover have "length as = length fds" using po unfolding polling_def by (auto dest: list_all2_lengthD)
  moreover have "pmsgs e' p = Some (new_msg fds k as)" "ctl_log e' = ctl_log e @ map2 poll_entry fds as"
    using po by (simp_all add: polling_def assms(9))
  ultimately show ?thesis
    using e' L T I unfolding assms(9)
    by (intro exI [of _ e'] exI [of _ k] exI [of _ as] exI [of _ "Q(b \<mapsto> the (Q b) @ [k])"]) simp
qed

theorem poll_registers_the_wait_witness:
  "\<exists>e' k as. poll_begin [\<lparr>pfd_fd = 8, pfd_events = POLLIN, pfd_revents = 0\<rparr>] 2 ex_loop = Ret (Some 2, e') \<and>
    running e' 9 4 \<and> loop_ok e' (ex_loop_Q(4 \<mapsto> [11, k])) [0, 1] \<and> length as = 1 \<and>
    waiting_msg e' (ex_loop_Q(4 \<mapsto> [11, k])) 0 \<and> fd_event e' (Some (as ! 0), EPOLLIN)"
proof -
  have run: "running ex_loop 4 9" by (simp add: running_def ex_loop_def ex_run_fields)
  have x: "routines ex_loop 4 = Some ((ex_routine False)\<lparr>rt_context := Some bContext_New\<rparr>)"
    by (simp add: ex_loop_def ex_run_fields)
  have b: "getBucket (of_int (if 2 < (0 :: int) then INTMAX_MAX else 2)) (wheel ex_loop) = Ret 4"
    by (simp add: getBucket_def ex_loop_fields word_less_nat_alt)
  have fresh: "pmsgs ex_loop (pm_brk ex_loop) = None" and p: "2 = pm_brk ex_loop" by (simp_all add: ex_loop_def)
  have w: "waiting_msg ex_loop ex_loop_Q 0"
    using ex_events_ok(2) [of "(Some 13, EPOLLIN)"] ex_events_msgs by (simp add: ex_events_def)
  from poll_registers_the_wait [OF ex_loop_ok run x _ _ _ b fresh p, of "[\<lparr>pfd_fd = 8, pfd_events = POLLIN, pfd_revents = 0\<rparr>]"]
  obtain e' k as where e': "poll_begin [\<lparr>pfd_fd = 8, pfd_events = POLLIN, pfd_revents = 0\<rparr>] 2 ex_loop = Ret (Some 2, e')"
    "running e' 9 4" "loop_ok e' (ex_loop_Q(4 \<mapsto> the (ex_loop_Q 4) @ [k])) [0, 1]" "length as = 1"
    "\<forall>a ev. a \<in> set as \<longrightarrow> fd_event e' (Some a, ev)"
    "\<forall>p'. waiting_msg ex_loop ex_loop_Q p' \<longrightarrow> waiting_msg e' (ex_loop_Q(4 \<mapsto> the (ex_loop_Q 4) @ [k])) p'"
    by (auto simp: isEnableHook_def ex_routine_def)
  have Q: "the (ex_loop_Q 4) @ [k] = [11, k]" by (simp add: ex_loop_Q_def)
  have "as ! 0 \<in> set as" using e'(4) by simp
  then show ?thesis using e' w unfolding Q by blast
qed

text \<open>
  C4: \<open>poll\<close> reports what is ready. Let a message list each of its descriptors once, and let \<open>epoll\<close>
  report at most one event for each of them, with a mask that \<open>poll\<close> knows. After a \<open>Deal\<close> that woke
  the message, by an event or because
  its time was up, \<open>poll\<close> returns the number of entries whose \<open>revents\<close> is not zero, as the
  manual has it, and \<open>revents\<close> of every entry is the translated mask of the event of its
  descriptor, or zero if there was none; on a timeout that is 0 and all zeros.
\<close>

theorem poll_reports_ready:
  fixes e :: "'z pollenv_scheme"
  assumes "loop_ok e Q ls"
    and "\<forall>ee \<in> set evs. fd_event e ee \<and> waiting_msg e Q (ev_msg e ee)"
    and "inj_on (task_of e) (set (map (ev_msg e) evs))" and "length evs < 2 ^ 31"
    and "scan_ends now (wheel e)" and "length (due_tasks e Q now) < 2 ^ 32"
    and "pmsgs e p = Some (new_msg fds k as)"
    and "distinct (map pfd_fd fds)" and "evm = msg_events e evs p" and "distinct (map fst evm)"
    and "fst ` set evm \<subseteq> pfd_fd ` set fds" and "\<forall>(fd, ev) \<in> set evm. epoll_to_poll_events ev \<noteq> 0"
    and "evm \<noteq> [] \<or> k \<in> set (due_tasks e Q now) \<and> (\<forall>q \<in> set (map (ev_msg e) evs). task_of e q \<noteq> k)"
    and "Deal (Inr evs) now now' e = Ret e1" and "pmsgs e2 p = pmsgs e1 p"
    and "map_option strip (items e2 k) = map_option strip (items e1 k)"
  shows "poll_end p e2 = Ret (int (ready_count (reported evm fds)), reported evm fds, e2\<lparr>pmsgs := (pmsgs e2)(p := None)\<rparr>)"
proof -
  let ?due = "filter (\<lambda>a. a \<notin> task_of e ` set (map (ev_msg e) evs)) (due_tasks e Q now)"
  let ?pm = "noted_all e evs p (new_msg fds k as)"
  have len: "length evs < 2 ^ 64" using assms(4) by simp
  obtain e0 Q0 Q' where D: "passed ls evs e Q e0 Q0" "delivered ls ?due now now' e0 Q0 e1 Q'"
    using Deal_run [OF assms(1-3) len assms(5,6), of now'] assms(14) by auto
  have ready: "ready_count (reported evm fds) = length evm" by (rule ready_count_reported [OF assms(8,10-12)])
  have n: "activeFdsNums ?pm = of_nat (length evm)" "pollfds ?pm = reported evm fds"
    using activeFds_new_msg [of e evs p] noted_new_msg [OF assms(8) assms(10) [unfolded assms(9)]] by (simp_all add: assms(9))
  have len31: "length evm < 2 ^ 31"
    unfolding assms(9) msg_events_def length_map
    using assms(4) by (rule le_less_trans [OF length_filter_le])
  have msg: "pmsgs e2 p = (if evm \<noteq> [] then Some (woken_msg ?pm) else Some (new_msg fds k as))"
  proof -
    have "pmsgs e1 p = pmsgs e0 p" using D(2) by (simp add: delivered_def)
    then show ?thesis
      using D(1) assms(7,15) msg_events_Nil [of e evs p] unfolding passed_def Let_def assms(9) by simp
  qed
  show ?thesis
  proof (cases "evm = []")
    case False
    then show ?thesis using poll_end_run [OF _ _ _ len31, of e2 p "woken_msg ?pm"] msg n ready by (simp add: woken_msg_def)
  next
    case True
    then have k: "k \<in> set ?due" using assms(13) by auto
    have "timed_task e k" using due_timed [OF assms(1), of now] k by simp
    then have "items e k \<noteq> None" by (auto simp: timed_task_def)
    then have "items e1 k \<noteq> None"
      using passed_frame(1) [OF D(1)] D(2) same_payload_None [of e e0 k]
        same_payload_None [of "e0\<lparr>items := mark (set ?due) (items e0)\<rparr>" e1 k]
      by (simp add: delivered_def mark_def)
    then obtain t1 where t1: "items e1 k = Some t1" by blast
    have "IsTasktimeout t1" using delivered_flag [OF passed_frame(1) [OF D(1)] D(2) t1] k by auto
    moreover obtain t2 where t2: "items e2 k = Some t2" "strip t2 = strip t1" using assms(16) t1 by auto
    ultimately have "IsTasktimeout t2" using strip_callbacks(7) [OF t2(2)] by simp
    then show ?thesis
      using True t2(1) poll_end_run [OF _ _ _ len31, of e2 p "new_msg fds k as"] msg n ready
      by (simp add: new_msg_def reported_def)
  qed
qed

text \<open>Two ready descriptors, and a wait that times out without one.\<close>

theorem poll_reports_ready_witness:
  "(\<exists>e1. Deal (Inr ex_events) 1001 1001 ex_loop = Ret e1 \<and>
     poll_end 0 e1 = Ret (2, [\<lparr>pfd_fd = 5, pfd_events = POLLIN, pfd_revents = POLLIN\<rparr>,
       \<lparr>pfd_fd = 6, pfd_events = POLLIN, pfd_revents = POLLOUT\<rparr>], e1\<lparr>pmsgs := (pmsgs e1)(0 := None)\<rparr>)) \<and>
   (\<exists>e1. Deal (Inr []) 1002 1002 ex_loop = Ret e1 \<and>
     poll_end 1 e1 = Ret (0, [\<lparr>pfd_fd = 7, pfd_events = POLLIN, pfd_revents = 0\<rparr>], e1\<lparr>pmsgs := (pmsgs e1)(1 := None)\<rparr>))"
proof
  have ends: "scan_ends 1001 (wheel ex_loop)" "scan_ends 1002 (wheel ex_loop)"
    by (simp_all add: scan_ends_def target_pos_def ex_loop_fields)
  have due: "due_tasks ex_loop ex_loop_Q 1001 = [10, 12]" "due_tasks ex_loop ex_loop_Q 1002 = [10, 12, 11]"
    by (simp_all add: due_tasks_def due_buckets_def target_pos_def ex_loop_fields ex_loop_Q_def upt_rec)
  have tsk: "task_of ex_loop 0 = 10" by (simp add: task_of_def ex_loop_fields ex_msg_def)
  have ev: "\<forall>ee \<in> set ex_events. fd_event ex_loop ee \<and> waiting_msg ex_loop ex_loop_Q (ev_msg ex_loop ee)"
    using ex_events_ok by blast
  have inj: "inj_on (task_of ex_loop) (set (map (ev_msg ex_loop) ex_events))" unfolding ex_events_msgs by simp
  define f5 where "f5 = \<lparr>pfd_fd = 5, pfd_events = POLLIN, pfd_revents = 0\<rparr>"
  define f6 where "f6 = \<lparr>pfd_fd = 6, pfd_events = POLLIN, pfd_revents = 0\<rparr>"
  define f7 where "f7 = \<lparr>pfd_fd = 7, pfd_events = POLLIN, pfd_revents = 0\<rparr>"
  have m: "pmsgs ex_loop 0 = Some (new_msg [f5, f6] 10 [13, 14])" "pmsgs ex_loop 1 = Some (new_msg [f7] 11 [15])"
    by (simp_all add: ex_loop_fields ex_msg_def new_msg_def f5_def f6_def f7_def)
  have its: "items ex_loop 13 = Some (ex_fd_item 0 13 5)" "items ex_loop 14 = Some (ex_fd_item 0 14 6)"
    by (simp_all add: ex_loop_def)
  have evm: "msg_events ex_loop ex_events 0 = [(5, EPOLLIN), (6, EPOLLOUT)]"
    by (simp add: msg_events_def ex_events_def ev_msg_def ev_item_def ev_fd_def its ex_fd_item_def fd_task_def)
  have mk: "epoll_to_poll_events EPOLLIN = POLLIN" "epoll_to_poll_events EPOLLOUT = POLLOUT" "POLLIN \<noteq> 0" "POLLOUT \<noteq> 0"
    by (simp_all add: epoll_to_poll_events_def EPOLLIN_def EPOLLOUT_def EPOLLPRI_def EPOLLERR_def EPOLLHUP_def
        EPOLLRDHUP_def POLLIN_def POLLOUT_def Let_def)
  have rep: "reported [(5, EPOLLIN), (6, EPOLLOUT)] [f5, f6] = [f5\<lparr>pfd_revents := POLLIN\<rparr>, f6\<lparr>pfd_revents := POLLOUT\<rparr>]"
    by (simp add: reported_def f5_def f6_def mk)
  have len: "length ex_events < 2 ^ 31" "length ex_events < 2 ^ 64" by (simp_all add: ex_events_def)
  have l1: "length (due_tasks ex_loop ex_loop_Q 1001) < 2 ^ 32" by (simp add: due)
  obtain e1 where e1: "Deal (Inr ex_events) 1001 1001 ex_loop = Ret e1"
    using Deal_run [OF ex_loop_ok ev inj len(2) ends(1) l1, of 1001] by blast
  have "poll_end 0 e1 = Ret (int (ready_count (reported [(5, EPOLLIN), (6, EPOLLOUT)] [f5, f6])),
      reported [(5, EPOLLIN), (6, EPOLLOUT)] [f5, f6], e1\<lparr>pmsgs := (pmsgs e1)(0 := None)\<rparr>)"
    by (rule poll_reports_ready [OF ex_loop_ok ev inj len(1) ends(1) l1 m(1) _ evm [symmetric] _ _ _ _ e1 refl refl])
      (simp_all add: f5_def f6_def mk)
  then show "\<exists>e1. Deal (Inr ex_events) 1001 1001 ex_loop = Ret e1 \<and>
     poll_end 0 e1 = Ret (2, [\<lparr>pfd_fd = 5, pfd_events = POLLIN, pfd_revents = POLLIN\<rparr>,
       \<lparr>pfd_fd = 6, pfd_events = POLLIN, pfd_revents = POLLOUT\<rparr>], e1\<lparr>pmsgs := (pmsgs e1)(0 := None)\<rparr>)"
    using e1 unfolding rep by (simp add: ready_count_def mk f5_def f6_def)
  have ev0: "\<forall>ee \<in> set []. fd_event ex_loop ee \<and> waiting_msg ex_loop ex_loop_Q (ev_msg ex_loop ee)"
    and inj0: "inj_on (task_of ex_loop) (set (map (ev_msg ex_loop) []))" and l0: "length [] < (2 :: nat) ^ 31" "length [] < (2 :: nat) ^ 64"
    and l2: "length (due_tasks ex_loop ex_loop_Q 1002) < 2 ^ 32" by (simp_all add: due)
  obtain e1' where e1': "Deal (Inr []) 1002 1002 ex_loop = Ret e1'"
    using Deal_run [OF ex_loop_ok ev0 inj0 l0(2) ends(2) l2, of 1002] by blast
  have evm0: "[] = msg_events ex_loop [] 1" by (simp add: msg_events_def)
  have "poll_end 1 e1' = Ret (int (ready_count (reported [] [f7])), reported [] [f7], e1'\<lparr>pmsgs := (pmsgs e1')(1 := None)\<rparr>)"
    by (rule poll_reports_ready [OF ex_loop_ok ev0 inj0 l0(1) ends(2) l2 m(2) _ evm0 _ _ _ _ e1' refl refl]) (simp_all add: due)
  then show "\<exists>e1. Deal (Inr []) 1002 1002 ex_loop = Ret e1 \<and>
     poll_end 1 e1 = Ret (0, [\<lparr>pfd_fd = 7, pfd_events = POLLIN, pfd_revents = 0\<rparr>], e1\<lparr>pmsgs := (pmsgs e1)(1 := None)\<rparr>)"
    using e1' by (simp add: ready_count_def reported_def f7_def)
qed

end
