(* ===== verification/Scheduler_Loop.thy ===== *)
theory Scheduler_Loop
  imports Event_Loop
begin

text \<open>
  The body of the loop of \<open>ProcessBegin\<close> in \<open>b_scheduler.cc\<close>, from its start to the switch to a
  routine or to the idle wait, and from there to the test at its end; and what it takes for a
  routine that polls to run again.
\<close>

section \<open>One turn of the loop\<close>

text \<open>
  The clock, the result of \<open>epoll_wait\<close> and the two readings inside \<open>Deal\<close> are arguments. The
  result is the task that was taken and whether it was switched to its routine; \<open>None\<close> for the
  idle wait.
\<close>

definition ProcessBegin_turn ::
    "u64 \<Rightarrow> string + epoll_event list \<Rightarrow> u64 \<Rightarrow> u64 \<Rightarrow> 'z pollenv_scheme \<Rightarrow> ((addr \<times> bool) option \<times> 'z pollenv_scheme) prog" where
  "ProcessBegin_turn now res now1 now2 e =
     pbind (deal_if_due now res now1 now2 e) (\<lambda>e.
     pbind (next_task e) (\<lambda>(task, e).
     case task of
       None \<Rightarrow> pbind (idle_begin e) (\<lambda>e. Ret (None, e))
     | Some a \<Rightarrow> pbind (run_task (Some a) e) (\<lambda>(switched, e). Ret (Some (a, switched), e))))"

text \<open>The rest of the turn, and whether the loop ends.\<close>

definition ProcessBegin_back ::
    "os \<Rightarrow> (addr \<times> bool) option \<Rightarrow> 'z pollenv_scheme \<Rightarrow> (bool \<times> 'z pollenv_scheme) prog" where
  "ProcessBegin_back os task e =
     pbind (case task of None \<Rightarrow> idle_end e | Some (a, switched) \<Rightarrow> after_task os (Some a) switched e) (\<lambda>e.
     pbind (sched_at (Some (cur_sch e)) e) (\<lambda>sch. Ret (IsStop sch, e)))"

section \<open>The lock of the event loop\<close>

text \<open>Nothing the event loop reads depends on its lock.\<close>

lemma unlock_Deal [simp]:
  fixes e :: "'z pollenv_scheme"
  shows "timed_task (e\<lparr>bEpollDealLock := b\<rparr>) = timed_task e"
    and "task_of (e\<lparr>bEpollDealLock := b\<rparr>) = task_of e"
    and "waiting_msg (e\<lparr>bEpollDealLock := b\<rparr>) = waiting_msg e"
    and "fd_event (e\<lparr>bEpollDealLock := b\<rparr>) = fd_event e"
    and "ev_msg (e\<lparr>bEpollDealLock := b\<rparr>) = ev_msg e"
    and "ev_fd (e\<lparr>bEpollDealLock := b\<rparr>) = ev_fd e"
    and "due_tasks (e\<lparr>bEpollDealLock := b\<rparr>) = due_tasks e"
    and "count_of (e\<lparr>bEpollDealLock := b\<rparr>) = count_of e"
  by (simp_all add: fun_eq_iff timed_task_def task_of_def waiting_msg_def fd_event_def ev_msg_def ev_item_def
      ev_fd_def due_tasks_def count_of_def)

lemma unlock_dist_ok [simp]:
  fixes e :: "'z pollenv_scheme"
  shows "dist_ok (e\<lparr>bEpollDealLock := b\<rparr>) Q ls = dist_ok e Q ls"
    and "loop_ok (e\<lparr>bEpollDealLock := b\<rparr>) Q ls = loop_ok e Q ls"
proof -
  show d: "dist_ok (e\<lparr>bEpollDealLock := b\<rparr>) Q ls = dist_ok e Q ls" by (rule dist_ok_above) simp_all
  show "loop_ok (e\<lparr>bEpollDealLock := b\<rparr>) Q ls = loop_ok e Q ls" by (simp add: loop_ok_def d brk_ok_def)
qed

text \<open>The schedulers after a \<open>Deal\<close>, up to the signals they got.\<close>

lemma Deal_frame:
  fixes e :: "'z pollenv_scheme"
  assumes pa: "passed ls evs e Q e1 Q1" and de: "delivered ls as now now' e1 Q1 e' Q'"
  shows "cur_sch e' = cur_sch e" and "map_option quiet (scheds e' s) = map_option quiet (scheds e s)"
    and "routines e' = routines e" and "same_calls e e'"
proof -
  have fr: "env_frame (e\<lparr>pmsgs := pmsgs e1, ctl_log := ctl_log e1\<rparr>) e1"
    using pa unfolding passed_def Let_def by blast
  have d: "cur_sch e' = cur_sch e1" "\<forall>s. map_option quiet (scheds e' s) = map_option quiet (scheds e1 s)"
    "routines e' = routines e1" "pmsgs e' = pmsgs e1" "same_payload (e1\<lparr>items := mark (set as) (items e1)\<rparr>) e'"
    using de unfolding delivered_def by simp_all
  show "cur_sch e' = cur_sch e" and "map_option quiet (scheds e' s) = map_option quiet (scheds e s)"
    and "routines e' = routines e" using fr d(1-3) by (simp_all add: env_frame_def)
  have "map_option core (items e' b) = map_option core (items e1 b)" for b
    using core_payload [OF d(5), of b] by (simp add: core_mark)
  then have "same_calls e1 e'" by (simp add: same_calls_def d)
  with passed_frame(2) [OF pa] show "same_calls e e'" by (rule same_calls_trans)
qed

lemma share_length: "length (share n k j xs) \<le> length xs"
proof (induction xs arbitrary: k)
  case (Cons x xs)
  have "length (share n ((k + 1) mod n) j xs) \<le> length xs" by (rule Cons)
  then show ?case by (cases "k = j") simp_all
qed simp

lemma share_bound:
  assumes "length evs + length ds < 2 ^ 32"
  shows "length (share n i j (map f (remdups (map g evs)) @ filter P ds)) < 2 ^ 32"
proof -
  have "length (share n i j (map f (remdups (map g evs)) @ filter P ds)) \<le>
      length (map f (remdups (map g evs)) @ filter P ds)" by (rule share_length)
  also have "\<dots> \<le> length evs + length ds"
    using length_remdups_leq [of "map g evs"] by (simp add: add_mono del: length_remdups_leq)
  finally show ?thesis using assms by simp
qed

text \<open>The scheduler after the \<open>Deal\<close> takes the task and switches.\<close>

lemma dispatch_after_Deal:
  fixes e :: "'z pollenv_scheme"
  assumes ok: "loop_ok e Q ls" and l: "l \<in> set ls" "Q l = Some (k # rest)" "count_of e l \<noteq> 0"
    and s: "scheds e (cur_sch e) = Some sch" "occupyRoutine sch = Some s" "ActivetaskItems sch = l"
    and y: "routines e s = Some y" "rt_context y \<noteq> None" "\<not> (IsMain y \<and> IsProgress y)"
    and t: "items e k = Some t" "ti_self t = Some r" and x: "routines e r = Some x" "rt_context x \<noteq> None"
  shows "\<exists>e1 e2. next_task e = Ret (Some k, e1) \<and> run_task (Some k) e1 = Ret (True, e2) \<and> running e2 r s \<and>
    loop_ok e2 (Q(l \<mapsto> rest)) ls \<and> rtenv.more e2 = rtenv.more e \<and> same_payload e e2 \<and> routines e2 = routines e"
proof -
  note D = loop_okD [OF ok]
  obtain e1 e2 where e2: "next_task e = Ret (Some k, e1)" "run_task (Some k) e1 = Ret (True, e2)" "running e2 r s"
    "dist_ok e2 (Q(l \<mapsto> rest)) ls" "brk_ok e2" "routines e2 = routines e" "rtenv.more e2 = rtenv.more e"
    "\<forall>a. map_option strip (items e2 a) = map_option strip (items e a)"
    using dispatch_step [OF D(1,3) s(1,2) s(3) [symmetric] l(2,3) t x y] by blast
  have pay: "same_payload e e2" using e2(8) by (simp add: same_payload_def)
  have w: "wheel e2 = wheel e" using epenv_more_eq(1) [OF e2(7)] by simp
  have sc: "same_calls e e2"
    using pollenv_more_eq(1) [OF e2(7)] by (intro same_calls_payload [OF pay e2(6)]) simp
  have nl: "b \<noteq> l" if "b \<in> set (TaskItemBucket (wheel e))" for b using D(5) [OF l(1)] that by blast
  have "timer_ok (wheel e) (Q(l \<mapsto> rest))" using D(4) by (auto simp: timer_ok_def)
  moreover have "timed_task e2 a" if "b \<in> set (TaskItemBucket (wheel e))" "a \<in> set (the ((Q(l \<mapsto> rest)) b))" for a b
    using same_calls_task(1) [OF sc D(6) [OF that(1)]] that(2) nl [OF that(1)] by simp
  ultimately have "loop_ok e2 (Q(l \<mapsto> rest)) ls" using e2(4,5) ok by (simp add: loop_ok_def w)
  then show ?thesis using e2(1-3,6,7) pay by blast
qed

text \<open>The whole turn, with what it did on the way: the passes, the drain, the dispatch.\<close>

lemma turn_dispatches:
  fixes e :: "'z pollenv_scheme"
  assumes "loop_ok e Q ls"
    and "\<forall>ee \<in> set evs. fd_event e ee \<and> waiting_msg e Q (ev_msg e ee)"
    and "inj_on (task_of e) (set (map (ev_msg e) evs))"
    and "length evs + length (due_tasks e Q now1) < 2 ^ 32" and "scan_ends now1 (wheel e)"
    and "\<not> bEpollDealLock e" and "now \<noteq> lastCheckTime (Epoll e)"
    and "scheds e (cur_sch e) = Some sch" and "occupyRoutine sch = Some s" and "ActivetaskItems sch = ls ! j"
    and "routines e s = Some y" and "rt_context y \<noteq> None" and "\<not> (IsMain y \<and> IsProgress y)"
    and "j < length ls" and "Q (ls ! j) = Some []" and "count_of e (ls ! j) = 0"
    and "ready = map (task_of e) (remdups (map (ev_msg e) evs))"
    and "due = filter (\<lambda>a. a \<notin> set ready) (due_tasks e Q now1)"
    and "share (length ls) (unat (AddTask_i e)) j (ready @ due) = k # rest"
    and "items e k = Some t" and "ti_self t = Some r" and "routines e r = Some x" and "rt_context x \<noteq> None"
  shows "\<exists>e0 Q0 e1 Q1 e2. Deal (Inr evs) now1 now2 (e\<lparr>bEpollDealLock := True\<rparr>) = Ret e1 \<and>
    passed ls evs (e\<lparr>bEpollDealLock := True\<rparr>) Q e0 Q0 \<and> delivered ls due now1 now2 e0 Q0 e1 Q1 \<and>
    ProcessBegin_turn now (Inr evs) now1 now2 e = Ret (Some (k, True), e2) \<and> running e2 r s \<and>
    loop_ok e2 (Q1(ls ! j \<mapsto> rest)) ls \<and> rtenv.more e2 = rtenv.more (e1\<lparr>bEpollDealLock := False\<rparr>) \<and>
    same_payload e1 e2 \<and> routines e2 = routines e"
proof -
  let ?e = "e\<lparr>bEpollDealLock := True\<rparr>"
  have len: "length evs < 2 ^ 64" "length (due_tasks ?e Q now1) < 2 ^ 32" using assms(4) by simp_all
  have w: "wheel ?e = wheel e" by simp
  obtain e0 Q0 e1 Q1 where D: "Deal (Inr evs) now1 now2 ?e = Ret e1" "passed ls evs ?e Q e0 Q0"
    "delivered ls due now1 now2 e0 Q0 e1 Q1" "loop_ok e0 Q0 ls" "loop_ok e1 Q1 ls"
    using Deal_run [of ?e Q ls evs now1 now2] assms(1-3,5) len by (auto simp: assms(17,18))
  note fr = Deal_frame [OF D(2,3)]
  let ?n = "length ls" and ?i = "unat (AddTask_i e)" and ?l = "ls ! j"
  have l: "?l \<in> set ls" using assms(14) by (rule nth_mem)
  have q: "the (Q1 ?l) = share ?n ?i j (ready @ due)"
    "count_of e1 ?l = count_of e ?l + of_nat (length (share ?n ?i j (ready @ due)))"
    using handed_out [OF _ _ D(2,3) assms(14), of ready] assms(1,2,15,17) by simp_all
  have "Q1 ?l \<noteq> None" using loop_okD(1) [OF D(5)] l by (auto simp: dist_ok_def)
  then have Ql: "Q1 ?l = Some (k # rest)" using q(1) assms(19) by auto
  have "length (k # rest) < 2 ^ 32"
    unfolding assms(19) [symmetric] assms(17,18) by (rule share_bound [OF assms(4)])
  then have cnt: "count_of e1 ?l \<noteq> 0"
    using q(2) assms(16,19) of_nat_u32_eq_0 [of "length (k # rest)"] by simp
  let ?f = "e1\<lparr>bEpollDealLock := False\<rparr>"
  have "map_option quiet (scheds e1 (cur_sch e)) = Some (quiet sch)" using fr(2) [of "cur_sch e"] assms(8) by simp
  then obtain sch' where sch': "scheds e1 (cur_sch e) = Some sch'" "quiet sch' = quiet sch" by blast
  have sf: "occupyRoutine sch' = Some s" "ActivetaskItems sch' = ?l"
    using arg_cong [OF sch'(2), of occupyRoutine] arg_cong [OF sch'(2), of ActivetaskItems] assms(9,10)
    by (simp_all add: quiet_def)
  have "map_option core (items e1 k) = Some (core t)" using fr(4) assms(20) by (simp add: same_calls_def)
  then obtain t' where t': "items e1 k = Some t'" "core t' = core t" by blast
  have rt: "routines ?f = routines e" "cur_sch ?f = cur_sch e" using fr(1,3) by simp_all
  obtain e2 e3 where e3: "next_task ?f = Ret (Some k, e2)" "run_task (Some k) e2 = Ret (True, e3)" "running e3 r s"
    "loop_ok e3 (Q1(?l \<mapsto> rest)) ls" "rtenv.more e3 = rtenv.more ?f" "same_payload ?f e3" "routines e3 = routines ?f"
    using dispatch_after_Deal [of ?f Q1 ls ?l k rest sch' s y t' r x] D(5) l Ql cnt sch' sf rt t'
      core_fields(3) [OF t'(2)] assms(11-13,21-23) by auto
  have "deal_if_due now (Inr evs) now1 now2 e = Ret ?f"
    using assms(6,7) D(1) by (simp add: deal_if_due_def)
  then have "ProcessBegin_turn now (Inr evs) now1 now2 e = Ret (Some (k, True), e3)"
    using e3(1,2) by (simp add: ProcessBegin_turn_def)
  moreover have "same_payload e1 e3" using e3(6) by (simp add: same_payload_def)
  ultimately show ?thesis using D(1-3) e3(3-5,7) rt(1)
    by (intro exI [of _ e0] exI [of _ Q0] exI [of _ e1] exI [of _ Q1] exI [of _ e3]) simp
qed

section \<open>Properties\<close>

text \<open>
  C2: a routine that waits runs again. A turn of the loop of a worker whose list is empty, a
  millisecond or more after the last check and with the lock of the event loop free, runs \<open>Deal\<close> and
  gives the lock back; the first task that \<open>Deal\<close> hands to this worker, because a descriptor is
  ready or because the time is up, is taken at once, and its routine runs with the worker's own
  routine waiting. The invariant of the event loop is kept, and the messages and tasks are those
  that \<open>Deal\<close> left.
\<close>

theorem waiting_routine_runs_again:
  fixes e :: "'z pollenv_scheme"
  assumes "loop_ok e Q ls"
    and "\<forall>ee \<in> set evs. fd_event e ee \<and> waiting_msg e Q (ev_msg e ee)"
    and "inj_on (task_of e) (set (map (ev_msg e) evs))"
    and "length evs + length (due_tasks e Q now1) < 2 ^ 32" and "scan_ends now1 (wheel e)"
    and "\<not> bEpollDealLock e" and "now \<noteq> lastCheckTime (Epoll e)"
    and "scheds e (cur_sch e) = Some sch" and "occupyRoutine sch = Some s" and "ActivetaskItems sch = ls ! j"
    and "routines e s = Some y" and "rt_context y \<noteq> None" and "\<not> (IsMain y \<and> IsProgress y)"
    and "j < length ls" and "Q (ls ! j) = Some []" and "count_of e (ls ! j) = 0"
    and "ready = map (task_of e) (remdups (map (ev_msg e) evs))"
    and "due = filter (\<lambda>a. a \<notin> set ready) (due_tasks e Q now1)"
    and "share (length ls) (unat (AddTask_i e)) j (ready @ due) = k # rest"
    and "items e k = Some t" and "ti_self t = Some r" and "routines e r = Some x" and "rt_context x \<noteq> None"
  shows "\<exists>e1 e2 Q2. Deal (Inr evs) now1 now2 (e\<lparr>bEpollDealLock := True\<rparr>) = Ret e1 \<and>
    ProcessBegin_turn now (Inr evs) now1 now2 e = Ret (Some (k, True), e2) \<and> running e2 r s \<and>
    \<not> bEpollDealLock e2 \<and> loop_ok e2 Q2 ls \<and> Q2 (ls ! j) = Some rest \<and>
    pmsgs e2 = pmsgs e1 \<and> (\<forall>a. map_option strip (items e2 a) = map_option strip (items e1 a))"
proof -
  obtain e0 Q0 e1 Q1 e2 where T: "Deal (Inr evs) now1 now2 (e\<lparr>bEpollDealLock := True\<rparr>) = Ret e1"
    "ProcessBegin_turn now (Inr evs) now1 now2 e = Ret (Some (k, True), e2)" "running e2 r s"
    "loop_ok e2 (Q1(ls ! j \<mapsto> rest)) ls" "rtenv.more e2 = rtenv.more (e1\<lparr>bEpollDealLock := False\<rparr>)"
    "same_payload e1 e2"
    using turn_dispatches [OF assms, of now2] by blast
  moreover have "\<not> bEpollDealLock e2" "pmsgs e2 = pmsgs e1" using pollenv_more_eq(1,3) [OF T(5)] by simp_all
  ultimately show ?thesis
    by (intro exI [of _ e1] exI [of _ e2] exI [of _ "Q1(ls ! j \<mapsto> rest)"]) (simp add: same_payload_def)
qed

text \<open>In the concrete environment routine 1 runs on the first worker.\<close>

theorem waiting_routine_runs_again_witness:
  "\<exists>e2 Q2. ProcessBegin_turn 1001 (Inr ex_events) 1001 1001 ex_loop = Ret (Some (10, True), e2) \<and>
    running e2 1 4 \<and> \<not> bEpollDealLock e2 \<and> loop_ok e2 Q2 [0, 1] \<and> Q2 0 = Some []"
proof -
  let ?y = "(ex_routine False)\<lparr>rt_context := Some bContext_New\<rparr>"
  have ev: "\<forall>ee \<in> set ex_events. fd_event ex_loop ee \<and> waiting_msg ex_loop ex_loop_Q (ev_msg ex_loop ee)"
    using ex_events_ok by blast
  have inj: "inj_on (task_of ex_loop) (set (map (ev_msg ex_loop) ex_events))" unfolding ex_events_msgs by simp
  have due: "due_tasks ex_loop ex_loop_Q 1001 = [10, 12]"
    by (simp add: due_tasks_def due_buckets_def target_pos_def ex_loop_fields ex_loop_Q_def)
  have len: "length ex_events + length (due_tasks ex_loop ex_loop_Q 1001) < 2 ^ 32" by (simp add: due ex_events_def)
  have ends: "scan_ends 1001 (wheel ex_loop)" by (simp add: scan_ends_def target_pos_def ex_loop_fields)
  have lock: "\<not> bEpollDealLock ex_loop" and now: "1001 \<noteq> lastCheckTime (Epoll ex_loop)"
    by (simp_all add: ex_loop_def ex_epoll_def)
  have sch: "scheds ex_loop (cur_sch ex_loop) = Some ((ex_sched 0 0)\<lparr>occupyRoutine := Some 4, pendingRoutine := Some 9\<rparr>)"
    by (simp add: ex_loop_def)
  have rt: "routines ex_loop 4 = Some ?y" "routines ex_loop 1 = Some ?y" by (simp_all add: ex_loop_def ex_run_fields)
  have Q: "ex_loop_Q ([0, 1] ! 0) = Some []" and cnt: "count_of ex_loop ([0, 1] ! 0) = 0"
    by (simp_all add: ex_loop_Q_def count_of_def ex_loop_def)
  have tsk: "task_of ex_loop 0 = 10" by (simp add: task_of_def ex_loop_fields ex_msg_def)
  have ready: "[10] = map (task_of ex_loop) (remdups (map (ev_msg ex_loop) ex_events))"
    unfolding ex_events_msgs by (simp add: tsk)
  have duef: "[12] = filter (\<lambda>a. a \<notin> set [10]) (due_tasks ex_loop ex_loop_Q 1001)" by (simp add: due)
  have sh: "share (length [0 :: nat, 1]) (unat (AddTask_i ex_loop)) 0 ([10] @ [12]) = (10 :: nat) # []"
    by (simp add: ex_loop_fields)
  have it: "items ex_loop 10 = Some (ex_poll_item None (Some 12) 3 1 pollTimeout_ptr 0)" by (simp add: ex_loop_def)
  have y: "occupyRoutine ((ex_sched 0 0)\<lparr>occupyRoutine := Some 4, pendingRoutine := Some 9\<rparr>) = Some 4"
    "ActivetaskItems ((ex_sched 0 0)\<lparr>occupyRoutine := Some 4, pendingRoutine := Some 9\<rparr>) = [0, 1] ! 0"
    "rt_context ?y \<noteq> None" "\<not> (IsMain ?y \<and> IsProgress ?y)" "0 < length [0 :: nat, 1]"
    "ti_self (ex_poll_item None (Some 12) 3 1 pollTimeout_ptr 0) = Some 1"
    by (simp_all add: ex_routine_def ex_sched_def ex_poll_item_def)
  show ?thesis
    using waiting_routine_runs_again [OF ex_loop_ok ev inj len ends lock now sch y(1,2) rt(1) y(3-5) Q cnt ready duef sh it
        y(6) rt(2) y(3), of 1001] by auto
qed

end
