(* ===== verification/Cond_Wait.thy ===== *)
theory Cond_Wait
  imports Poll_Wait Scheduler_Loop
begin

text \<open>
  \<open>bCond::timeWait\<close> from its call to its return, through the event loop: what it leaves behind
  when it switches away, the turn of the loop in which its time is up, and what it does when it is
  switched back to.
\<close>

section \<open>Going away\<close>

definition time_task :: "rid \<Rightarrow> TaskItem" where
  "time_task r = TaskItem_zero\<lparr>timeoutCallFunc := Some CondTimeOutCallback_ptr,
     timeoutCallFuncArgs := Some r, ti_self := Some r\<rparr>"

text \<open>A task stays fit for the drain when items are only added.\<close>

lemma timed_task_grown:
  fixes e :: "'z pollenv_scheme"
  assumes old: "\<And>b t. items e b = Some t \<Longrightarrow> \<exists>t'. items e' b = Some t' \<and> strip t' = strip t"
    and pm: "pmsgs e' = pmsgs e" "routines e' = routines e" and tt: "timed_task e a"
  shows "timed_task e' a"
proof -
  obtain t r x where t: "items e a = Some t" "ti_self t = Some r" "routines e r = Some x" "\<not> IsProgress x"
    "timeoutCallFunc t = None \<or>
      timeoutCallFunc t = Some pollTimeout_ptr \<and> (\<exists>p pm. timeoutCallFuncArgs t = Some p \<and> pmsgs e p = Some pm \<and>
        (\<forall>b \<in> set (eachFdTask pm). items e b \<noteq> None)) \<or>
      timeoutCallFunc t = Some CondTimeOutCallback_ptr \<and> timeoutCallFuncArgs t \<noteq> None"
    using tt by (auto simp: timed_task_def)
  obtain t' where t': "items e' a = Some t'" "strip t' = strip t" using old [OF t(1)] by blast
  note c = core_fields [OF core_strip [OF t'(2)]]
  have it: "items e' b \<noteq> None" if "items e b \<noteq> None" for b using old [of b] that by (cases "items e b") auto
  have "timeoutCallFunc t' = None \<or>
      timeoutCallFunc t' = Some pollTimeout_ptr \<and> (\<exists>p pm. timeoutCallFuncArgs t' = Some p \<and> pmsgs e' p = Some pm \<and>
        (\<forall>b \<in> set (eachFdTask pm). items e' b \<noteq> None)) \<or>
      timeoutCallFunc t' = Some CondTimeOutCallback_ptr \<and> timeoutCallFuncArgs t' \<noteq> None"
    unfolding c pm(1) using t(5) it by blast
  then show ?thesis using t(2-4) t'(1) c(3) pm(2) by (simp add: timed_task_def)
qed

text \<open>
  The state after the switch: the mutex free, the routine last among the waiters of the condition
  and its task last in the bucket of its timeout.
\<close>

definition time_waiting ::
    "rid \<Rightarrow> rid \<Rightarrow> addr \<Rightarrow> laddr \<Rightarrow> cid \<Rightarrow> rid list \<Rightarrow> mid \<Rightarrow> laddr list \<Rightarrow> 'z pollenv_scheme \<Rightarrow>
     (laddr \<Rightarrow> addr list option) \<Rightarrow> 'z pollenv_scheme \<Rightarrow> bool" where
  "time_waiting r s t b c rs m ls e Q e' \<longleftrightarrow>
     loop_ok e' (Q(b \<mapsto> the (Q b) @ [t])) ls \<and> cond_rel c e' rs \<and> IsTimeout e' r = 0 \<and>
     map_option lockCount (bMutexes e' m) = Some 0 \<and> (\<exists>ti. items e' t = Some ti \<and> strip ti = strip (time_task r)) \<and>
     map_option ActivetaskItems (scheds e' (cur_sch e')) = map_option ActivetaskItems (scheds e (cur_sch e)) \<and>
     running e' s r \<and> routines e' = routines e \<and> Epoll e' = Epoll e \<and> AddTask_i e' = AddTask_i e \<and>
     bEpollDealLock e' = bEpollDealLock e \<and> (\<forall>l \<in> set ls. count_of e' l = count_of e l)"

lemma unlock_unwanted:
  assumes "bMutexes e m = Some mu" and "lockCount mu = 1" and "waiters_rel (m_list mu) []"
  shows "bMutex_unlock m e = Ret (e\<lparr>bMutexes := (bMutexes e)(m \<mapsto> mu\<lparr>lockCount := 0\<rparr>)\<rparr>)"
  using assms take_waiter_Nil [OF assms(3)]
  by (simp add: bMutex_unlock_def mutex_at_def compare_exchange_strong_def Let_def)

text \<open>A switch changes what a worker runs, not where its tasks are.\<close>

lemma SwapContext_worker:
  assumes run: "running e r p" and x: "routines e r = Some x" "\<not> IsProgress x" and sw: "SwapContext e = Ret e'"
  shows "map_option ActivetaskItems (scheds e' (cur_sch e')) = map_option ActivetaskItems (scheds e (cur_sch e))"
proof -
  obtain sch y c d where s: "scheds e (cur_sch e) = Some sch" "occupyRoutine sch = Some r" "pendingRoutine sch = Some p"
    "routines e p = Some y" "rt_context x = Some c" "rt_context y = Some d"
    using run x(1) by (auto simp: running_def)
  have "SwapContext e = Ret (e\<lparr>scheds := (scheds e)(cur_sch e \<mapsto> sch\<lparr>occupyRoutine := Some p, pendingRoutine := Some r\<rparr>)\<rparr>)"
    by (rule SwapContext_plain [OF s(1-3) x(1) s(4-6)]) (use x(2) in simp)
  then show ?thesis using sw s(1) by auto
qed

text \<open>What \<open>timeWait\<close> has done before it puts its task on the wheel, and that step.\<close>

definition time_left :: "rid \<Rightarrow> cid \<Rightarrow> mid \<Rightarrow> bMutex \<Rightarrow> bMutexCondTaskList \<Rightarrow> 'z pollenv_scheme \<Rightarrow> 'z pollenv_scheme" where
  "time_left r c m mu L e = e\<lparr>bMutexes := (bMutexes e)(m \<mapsto> mu\<lparr>lockCount := 0\<rparr>), bConds := (bConds e)(c \<mapsto> L),
     item_brk := item_brk e + 1, IsTimeout := (IsTimeout e)(r := 0), items := (items e)(item_brk e \<mapsto> time_task r)\<rparr>"

lemma time_left_pushed:
  fixes e :: "'z pollenv_scheme"
  assumes ok: "loop_ok e Q ls" and b: "b \<in> set (TaskItemBucket (wheel e))"
  shows "\<exists>e'. pushBack b (Some (item_brk e)) (time_left r c m mu L e) = Ret e' \<and> items e (item_brk e) = None \<and>
    dist_ok e' (Q(b \<mapsto> the (Q b) @ [item_brk e])) ls \<and> brk_ok e' \<and> link_frame (time_left r c m mu L e) e' \<and>
    (\<forall>l \<in> set ls. count_of e' l = count_of e l)"
proof -
  let ?t = "item_brk e" and ?e = "time_left r c m mu L e"
  let ?new = "e\<lparr>items := (items e)(?t \<mapsto> TaskItem_zero), item_brk := ?t + 1\<rparr>"
  note D = loop_okD [OF ok]
  have "TaskItem_New e = (?t, ?new)" by (simp add: TaskItem_New_def)
  note N = TaskItem_New_tasks [OF D(2,3) this]
  have "tasks_ok ?e Q = tasks_ok ?new Q"
    by (rule tasks_ok_payload) (simp_all add: time_left_def time_task_def TaskItem_zero_def)
  then have ok2: "tasks_ok ?e Q" using N(1) by simp
  have brk2: "brk_ok ?e" using N(2) by (auto simp: brk_ok_def time_left_def split: if_splits)
  have d2: "dist_ok ?e Q ls" using D(1) ok2 by (simp add: dist_ok_def workers_ok_def time_left_def)
  obtain xs where xs: "Q b = Some xs" using D(7) [OF b] by blast
  have it: "items ?e ?t = Some (time_task r)" by (simp add: time_left_def)
  then have "detached (items ?e) ?t" by (simp add: detached_def time_task_def TaskItem_zero_def)
  from pushBack_tasks [OF ok2 xs it this] obtain e3 where e3: "pushBack b (Some ?t) ?e = Ret e3"
    "tasks_ok e3 (Q(b \<mapsto> xs @ [?t]))" "count_of e3 = (count_of ?e)(b := count_of ?e b + 1)" "link_frame ?e e3" by blast
  have "dist_ok e3 (Q(b \<mapsto> the (Q b) @ [?t])) ls"
    unfolding xs option.sel by (rule dist_ok_links [OF d2 e3(4,2)]) (use D(5) b in auto)
  moreover have "count_of e3 l = count_of e l" if "l \<in> set ls" for l
  proof -
    have "l \<noteq> b" using D(5) [OF that] b by auto
    then show ?thesis using fun_cong [OF e3(3), of l] by (simp add: count_of_def time_left_def)
  qed
  ultimately show ?thesis using e3(1,4) N(3) brk_ok_frame [OF e3(4) brk2] by blast
qed

text \<open>The invariant of the loop with the new task in its bucket.\<close>

lemma time_left_loop_ok:
  fixes e :: "'z pollenv_scheme"
  assumes ok: "loop_ok e Q ls" and d: "dist_ok e' (Q(b \<mapsto> the (Q b) @ [item_brk e])) ls" "brk_ok e'"
    and str: "\<And>a. map_option strip (items e' a) = map_option strip (items (time_left r c m mu L e) a)"
    and fr: "pmsgs e' = pmsgs e" "routines e' = routines e" "Epoll e' = Epoll e" and new: "items e (item_brk e) = None"
    and x: "routines e r = Some x" "\<not> IsProgress x"
  shows "loop_ok e' (Q(b \<mapsto> the (Q b) @ [item_brk e])) ls"
    and "\<exists>ti. items e' (item_brk e) = Some ti \<and> strip ti = strip (time_task r)"
proof -
  let ?t = "item_brk e" and ?Q = "Q(b \<mapsto> the (Q b) @ [item_brk e])"
  note D = loop_okD [OF ok]
  have old: "\<exists>t'. items e' a = Some t' \<and> strip t' = strip t" if a: "items e a = Some t" for a t
  proof -
    have "a \<noteq> ?t" using a new by auto
    then show ?thesis using str [of a] a by (simp add: time_left_def)
  qed
  show ti: "\<exists>ti. items e' ?t = Some ti \<and> strip ti = strip (time_task r)"
    using str [of ?t] by (simp add: time_left_def)
  then obtain ti where ti: "items e' ?t = Some ti" "strip ti = strip (time_task r)" by blast
  note cf = core_fields [OF core_strip [OF ti(2)]]
  have "timed_task e' ?t" using ti(1) cf x by (simp add: timed_task_def fr time_task_def)
  then have tt: "timed_task e' a" if "l \<in> set (TaskItemBucket (wheel e))" "a \<in> set (the (?Q l))" for a l
    using timed_task_grown [OF old fr(1,2)] D(6) [OF that(1)] that(2) by (auto split: if_splits)
  have "timer_ok (wheel e) ?Q" using D(4) by (auto simp: timer_ok_def)
  then show "loop_ok e' ?Q ls" using d tt ok unfolding loop_ok_def fr by blast
qed

lemma timeWait_run:
  fixes e :: "'z pollenv_scheme"
  assumes ok: "loop_ok e Q ls" and run: "running e r s" and x: "routines e r = Some x" "\<not> IsProgress x"
    and mu: "bMutexes e m = Some mu" "lockCount mu = 1" "waiters_rel (m_list mu) []"
    and c: "cond_rel c e rs" and b: "getBucket (of_int ms) (wheel e) = Ret b"
  shows "\<exists>e'. bCond_timeWait c m ms e = Ret (item_brk e, e') \<and> time_waiting r s (item_brk e) b c (rs @ [r]) m ls e Q e'"
proof -
  let ?t = "item_brk e"
  obtain L where L: "bConds e c = Some L" "waiters_rel L rs" using c by (auto simp: cond_rel_def)
  obtain L' where L': "waiters_add r L = Ret L'" "waiters_rel L' (rs @ [r])" using waiters_add_snoc [OF L(2)] by blast
  have self: "getSelf e = Ret r" using run by (auto simp: getSelf_def running_def)
  let ?e2 = "time_left r c m mu L' e"
  obtain e3 where e3: "pushBack b (Some ?t) ?e2 = Ret e3" "items e ?t = None"
    "dist_ok e3 (Q(b \<mapsto> the (Q b) @ [?t])) ls" "brk_ok e3" "link_frame ?e2 e3" "\<forall>l \<in> set ls. count_of e3 l = count_of e l"
    using time_left_pushed [OF ok getBucket_mem [OF loop_okD(4) [OF ok] b]] by blast
  have "tmem.more e3 = tmem.more ?e2" using e3(5) by (simp add: link_frame_def)
  note m3 = rtenv_more_eq [OF this]
  have run3: "running e3 r s" using run running_above [of e3 e r s] m3(1,5,12) by (simp add: time_left_def)
  have x3: "routines e3 r = Some x" using x(1) m3(1) by (simp add: time_left_def)
  obtain e4 where e4: "SwapContext e3 = Ret e4" "running e4 s r" "items e4 = items e3" "lists e4 = lists e3"
    "item_brk e4 = item_brk e3" "list_brk e4 = list_brk e3" "routines e4 = routines e3" "cur_sch e4 = cur_sch e3"
    "dist_ok e4 (Q(b \<mapsto> the (Q b) @ [?t])) ls" "AddTask_i e4 = AddTask_i e3" "rtenv.more e4 = rtenv.more e3"
    using SwapContext_running [OF run3 x3] x(2) e3(3) by auto
  have run4: "bCond_timeWait c m ms e = Ret (?t, e4)"
    using unlock_unwanted [OF mu] L(1) L'(1) self b e3(1) e4(1)
    by (simp add: bCond_timeWait_def cond_at_def getSelf_def sched_at_def TaskItem_New_def time_left_def time_task_def upd_item_def Let_def)
  have str: "map_option strip (items e4 a) = map_option strip (items ?e2 a)" for a
    using e3(5) e4(3) by (simp add: link_frame_def)
  note more4 = syncenv_more_eq [OF e4(11)] syncenv_more_eq [OF m3(13)] epenv_more_eq(1) [OF e4(11)] epenv_more_eq(1) [OF m3(13)]
    pollenv_more_eq(1,3) [OF e4(11)] pollenv_more_eq(1,3) [OF m3(13)]
  have fr: "pmsgs e4 = pmsgs e" "routines e4 = routines e" "Epoll e4 = Epoll e" "bEpollDealLock e4 = bEpollDealLock e"
    using more4 e4(7) m3(1) by (simp_all add: time_left_def)
  have brk4: "brk_ok e4" using e3(4) e4(3-6) by (simp add: brk_ok_def)
  note P = time_left_loop_ok [OF ok e4(9) brk4 str fr(1-3) e3(2) x]
  have "cond_rel c e4 (rs @ [r])" using more4 L'(2) by (simp add: cond_rel_def time_left_def)
  moreover have "map_option ActivetaskItems (scheds e4 (cur_sch e4)) = map_option ActivetaskItems (scheds e (cur_sch e))"
    using SwapContext_worker [OF run3 x3 x(2) e4(1)] m3(5,12) by (simp add: time_left_def)
  moreover have "\<forall>l \<in> set ls. count_of e4 l = count_of e l" using e3(6) e4(4) by (simp add: count_of_def)
  ultimately show ?thesis
    using run4 P e4(2,10) fr more4 m3(10) unfolding time_waiting_def by (auto simp: time_left_def)
qed

section \<open>The time is up\<close>

text \<open>A routine whose task is among those that time out has its flag set.\<close>

lemma fold_timeout_flag:
  assumes "a \<in> set as" and "timeoutCallFunc (the (items h a)) = Some CondTimeOutCallback_ptr"
    and "timeoutCallFuncArgs (the (items h a)) = Some r"
  shows "fold (timeout_flag h) as f r = 1"
proof -
  have keep: "fold (timeout_flag h) as f r = 1" if "f r = 1" for as f
    using that by (induction as arbitrary: f) (simp_all add: timeout_flag_def Let_def)
  have set1: "timeout_flag h a f r = 1" for f using assms(2,3) by (simp add: timeout_flag_def)
  show ?thesis using assms(1)
  proof (induction as arbitrary: f)
    case (Cons b as)
    show ?case
    proof (cases "a = b")
      case True
      then show ?thesis using keep [of "timeout_flag h a f" as] set1 by simp
    next
      case False
      then show ?thesis using Cons by simp
    qed
  qed simp
qed

lemma set_share: "set (share n k j xs) \<subseteq> set xs"
  by (induction xs arbitrary: k) (auto split: if_splits)

text \<open>
  One turn of the loop of the worker that the routine switched to, in which its task is due and is
  the first that \<open>Deal\<close> hands to this worker.
\<close>

lemma timed_out_turn:
  fixes e :: "'z pollenv_scheme"
  assumes w: "time_waiting r s t b c rs m ls e0 Q0 e" and Q: "Q = Q0(b \<mapsto> the (Q0 b) @ [t])"
    and r: "routines e r = Some x" "\<not> IsProgress x" "rt_context x \<noteq> None"
    and s: "routines e s = Some y" "rt_context y \<noteq> None" "\<not> (IsMain y \<and> IsProgress y)"
    and j: "j < length ls" "Q (ls ! j) = Some []" "count_of e (ls ! j) = 0"
    and act: "map_option ActivetaskItems (scheds e (cur_sch e)) = Some (ls ! j)"
    and due: "share (length ls) (unat (AddTask_i e)) j (due_tasks e Q now1) = t # rest"
      "length (due_tasks e Q now1) < 2 ^ 32" "scan_ends now1 (wheel e)"
    and loop: "\<not> bEpollDealLock e" "now \<noteq> lastCheckTime (Epoll e)"
  shows "\<exists>e' Q'. ProcessBegin_turn now (Inr []) now1 now2 e = Ret (Some (t, True), e') \<and> running e' r s \<and>
    loop_ok e' Q' ls \<and> IsTimeout e' r = 1 \<and> bMutexes e' = bMutexes e \<and> bConds e' = bConds e \<and> routines e' = routines e"
proof -
  have ok: "loop_ok e Q ls" and run: "running e s r" using w by (simp_all add: time_waiting_def Q)
  obtain ti where ti: "items e t = Some ti" "strip ti = strip (time_task r)" using w by (auto simp: time_waiting_def)
  note cf = core_fields [OF core_strip [OF ti(2)]]
  obtain sch where sch: "scheds e (cur_sch e) = Some sch" "occupyRoutine sch = Some s" using run by (auto simp: running_def)
  have act': "ActivetaskItems sch = ls ! j" using act sch(1) by simp
  let ?due = "filter (\<lambda>a. a \<notin> set []) (due_tasks e Q now1)" and ?E = "e\<lparr>bEpollDealLock := True\<rparr>"
  have none: "\<forall>ee \<in> set []. fd_event e ee \<and> waiting_msg e Q (ev_msg e ee)"
    and inj: "inj_on (task_of e) (set (map (ev_msg e) []))"
    and len: "length [] + length (due_tasks e Q now1) < 2 ^ 32" using due(2) by simp_all
  have rd: "[] = map (task_of e) (remdups (map (ev_msg e) []))" by simp
  have sh: "share (length ls) (unat (AddTask_i e)) j ([] @ ?due) = t # rest" using due(1) by simp
  have self: "ti_self ti = Some r" using cf(3) by (simp add: time_task_def)
  obtain e1 Q1 e2 Q2 e3 where T: "passed ls [] ?E Q e1 Q1" "delivered ls ?due now1 now2 e1 Q1 e2 Q2"
    "ProcessBegin_turn now (Inr []) now1 now2 e = Ret (Some (t, True), e3)" "running e3 r s"
    "loop_ok e3 (Q2(ls ! j \<mapsto> rest)) ls" "rtenv.more e3 = rtenv.more (e2\<lparr>bEpollDealLock := False\<rparr>)" "routines e3 = routines e"
    using turn_dispatches [OF ok none inj len due(3) loop sch act' s j rd refl sh ti(1) self r(1,3), of now2] by blast
  note fr = passed_frame [OF T(1)]
  have de: "IsTimeout e2 = fold (timeout_flag e1) ?due (IsTimeout e1)" "bMutexes e2 = bMutexes e1" "bConds e2 = bConds e1"
    using T(2) by (simp_all add: delivered_def)
  have "map_option core (items e1 t) = Some (core ti)" using fr(2) ti(1) by (simp add: same_calls_def)
  then obtain t1 where t1: "items e1 t = Some t1" "core t1 = core ti" by blast
  have "t \<in> set (share (length ls) (unat (AddTask_i e)) j (due_tasks e Q now1))" using due(1) by simp
  then have "t \<in> set (due_tasks e Q now1)" by (rule subsetD [OF set_share])
  then have "fold (timeout_flag e1) ?due (IsTimeout e1) r = 1"
    using t1(1) core_fields(1,2) [OF t1(2)] cf(1,2) by (intro fold_timeout_flag [of t]) (simp_all add: time_task_def)
  then show ?thesis
    using T(3-5,7) de fr(6,7) syncenv_more_eq [OF T(6)]
    by (intro exI [of _ e3] exI [of _ "Q2(ls ! j \<mapsto> rest)"]) simp
qed

section \<open>Properties\<close>

text \<open>
  C35: \<open>timeWait\<close> from its call to its return on a timeout. A routine calls it with a held mutex that
  nobody waits for, and \<open>timeWait\<close> switches away to the loop of its worker, with the mutex free, its
  task on the wheel and the routine last among the waiters of the condition. Nothing is signalled;
  when the bucket of the timeout is due, and the task is the first that \<open>Deal\<close> hands to this
  worker, whose list is empty, the turn of the loop runs the routine again. Then \<open>timeWait\<close> returns
  0 at once: it has not locked the mutex again, so that the caller's \<open>unlock\<close> aborts the program, and
  the routine is still the last waiter, so that \<open>signalAll\<close> commits a task for it after those
  of the others, although it does not wait.
\<close>

theorem timeWait_timeout_leaves_waiter:
  fixes e :: "'z pollenv_scheme"
  assumes "loop_ok e Q ls" and "running e r s"
    and "routines e r = Some x" and "\<not> IsProgress x" and "rt_context x \<noteq> None"
    and "routines e s = Some y" and "rt_context y \<noteq> None" and "\<not> (IsMain y \<and> IsProgress y)"
    and "bMutexes e m = Some mu" and "lockCount mu = 1" and "waiters_rel (m_list mu) []"
    and "cond_rel c e rs" and "\<And>w. w \<in> set rs \<Longrightarrow> \<exists>z. routines e w = Some z \<and> \<not> IsProgress z"
    and "getBucket (of_int ms) (wheel e) = Ret b" and "Q1 = Q(b \<mapsto> the (Q b) @ [item_brk e])"
    and "map_option ActivetaskItems (scheds e (cur_sch e)) = Some (ls ! j)" and "j < length ls"
    and "Q (ls ! j) = Some []" and "count_of e (ls ! j) = 0"
    and "due = concat (map (\<lambda>l. the (Q1 l)) (due_buckets (wheel e) now1))"
    and "share (length ls) (unat (AddTask_i e)) j due = item_brk e # rest" and "length due < 2 ^ 32"
    and "scan_ends now1 (wheel e)" and "\<not> bEpollDealLock e" and "now \<noteq> lastCheckTime (Epoll e)"
  shows "\<exists>t e1 e2 Q2 e3. bCond_timeWait c m ms e = Ret (t, e1) \<and> running e1 s r \<and> loop_ok e1 Q1 ls \<and>
    cond_rel c e1 (rs @ [r]) \<and> IsTimeout e1 r = 0 \<and> map_option lockCount (bMutexes e1 m) = Some 0 \<and>
    ProcessBegin_turn now (Inr []) now1 now2 e1 = Ret (Some (t, True), e2) \<and> running e2 r s \<and> loop_ok e2 Q2 ls \<and>
    bCond_timeWait_back t e2 = Ret (Return 0, e2) \<and> bMutex_unlock m e2 = Fail Abort \<and>
    cond_rel c e2 (rs @ [r]) \<and> bCond_signalAll c e2 = Ret e3 \<and>
    handed_out Q2 ls (unat (AddTask_i e2)) e3 (rs @ [r])"
proof -
  let ?t = "item_brk e"
  obtain e1 where e1: "bCond_timeWait c m ms e = Ret (?t, e1)" "time_waiting r s ?t b c (rs @ [r]) m ls e Q e1"
    using timeWait_run [OF assms(1-4,9-12,14)] by blast
  have f1: "loop_ok e1 Q1 ls" "cond_rel c e1 (rs @ [r])" "IsTimeout e1 r = 0" "map_option lockCount (bMutexes e1 m) = Some 0"
    "map_option ActivetaskItems (scheds e1 (cur_sch e1)) = Some (ls ! j)" "running e1 s r" "routines e1 = routines e"
    "Epoll e1 = Epoll e" "AddTask_i e1 = AddTask_i e" "bEpollDealLock e1 = bEpollDealLock e" "\<forall>l \<in> set ls. count_of e1 l = count_of e l"
    using e1(2) assms(15,16) unfolding time_waiting_def by simp_all
  have lj: "ls ! j \<noteq> b"
    using loop_okD(5) [OF assms(1) nth_mem [OF assms(17)]] getBucket_mem [OF loop_okD(4) [OF assms(1)] assms(14)] by auto
  have d1: "due_tasks e1 Q1 now1 = due" by (simp add: due_tasks_def f1(8) assms(20))
  obtain e2 Q2 where e2: "ProcessBegin_turn now (Inr []) now1 now2 e1 = Ret (Some (?t, True), e2)" "running e2 r s"
    "loop_ok e2 Q2 ls" "IsTimeout e2 r = 1" "bMutexes e2 = bMutexes e1" "bConds e2 = bConds e1" "routines e2 = routines e1"
    using timed_out_turn [OF e1(2) assms(15), of x y j now1 rest now now2] f1 lj assms(3-8,17-19,21-25)
    unfolding d1 by (auto simp: assms(15))
  have self: "getSelf e2 = Ret r" using e2(2) by (auto simp: getSelf_def running_def)
  have "bCond_timeWait_back ?t e2 = Ret (Return 0, e2)" using self e2(4) by (simp add: bCond_timeWait_back_def)
  moreover have "bMutex_unlock m e2 = Fail Abort"
    using f1(4) e2(5) by (auto simp: bMutex_unlock_def mutex_at_def compare_exchange_strong_def)
  moreover have c2: "cond_rel c e2 (rs @ [r])" using f1(2) e2(6) by (simp add: cond_rel_def)
  moreover have "\<exists>z. routines e2 w = Some z \<and> \<not> IsProgress z" if "w \<in> set (rs @ [r])" for w
    using that assms(3,4,13) f1(7) e2(7) by auto
  then obtain e3 where "bCond_signalAll c e2 = Ret e3" "handed_out Q2 ls (unat (AddTask_i e2)) e3 (rs @ [r])"
    using signalAll_wakes [OF loop_okD(1,3) [OF e2(3)] refl c2] by blast
  ultimately show ?thesis using e1(1) f1(1-4,6) e2(1-3)
    by (intro exI [of _ ?t] exI [of _ e1] exI [of _ e2] exI [of _ Q2] exI [of _ e3]) simp
qed

text \<open>
  Routine 4 waits a millisecond for the condition 0, which the routines 1 and 2 wait for already; the
  wheel stands at its bucket 3, and the next bucket, 4, holds the task of a poll that is due too.
\<close>

definition ex_time :: pollenv where
  "ex_time = ex_loop\<lparr>AddTask_i := 1,
     Epoll := (Epoll ex_loop)\<lparr>TimeoutScaner := (wheel ex_loop)\<lparr>BucketPosNow := 1\<rparr>\<rparr>,
     bMutexes := [0 \<mapsto> bMutex_New\<lparr>lockCount := 1\<rparr>], bConds := [0 \<mapsto> ex_waiters]\<rparr>"

lemma ex_time_fields:
  "items ex_time = items ex_loop" "lists ex_time = lists ex_loop" "item_brk ex_time = 16" "list_brk ex_time = 6"
  "routines ex_time = routines ex_loop" "scheds ex_time = scheds ex_loop" "cur_sch ex_time = 0" "AddTask_i ex_time = 1"
  "TaskDistributor ex_time = TaskDistributor ex_loop" "pmsgs ex_time = pmsgs ex_loop" "\<not> bEpollDealLock ex_time"
  "TaskItemBucket (wheel ex_time) = [2, 3, 4, 5]" "TaskItemBucketSize (wheel ex_time) = 4"
  "LastCheckTime (wheel ex_time) = 1000" "BucketPosNow (wheel ex_time) = 1" "lastCheckTime (Epoll ex_time) = lastCheckTime ex_epoll"
  "bMutexes ex_time 0 = Some (bMutex_New\<lparr>lockCount := 1\<rparr>)" "bConds ex_time 0 = Some ex_waiters"
  by (simp_all add: ex_time_def ex_loop_fields) (simp_all add: ex_loop_def)

lemma ex_time_ok: "loop_ok ex_time ex_loop_Q [0, 1]"
proof -
  have "workers_ok ex_time [0, 1]"
    using loop_okD(1) [OF ex_loop_ok] by (simp add: dist_ok_def workers_ok_def ex_time_fields)
  then have "dist_ok ex_time ex_loop_Q [0, 1]"
    using ex_loop_tasks tasks_ok_cong [of ex_time ex_loop] by (simp add: dist_ok_def ex_time_fields ex_loop_Q_def)
  moreover have "brk_ok ex_time" using loop_okD(3) [OF ex_loop_ok] by (simp add: brk_ok_def ex_time_fields) (simp add: ex_loop_def)
  moreover have "timer_ok (wheel ex_time) ex_loop_Q" by (simp add: timer_ok_def ex_time_fields ex_loop_Q_def)
  moreover have "timed_task ex_time a = timed_task ex_loop a" for a by (simp add: timed_task_def ex_time_fields)
  ultimately show ?thesis
    by (simp add: loop_ok_def ex_time_fields ex_loop_timed) (auto simp: ex_loop_Q_def ex_loop_timed)
qed

theorem timeWait_timeout_leaves_waiter_witness:
  "\<exists>t e1 e2 e3 Q2. bCond_timeWait 0 0 1 ex_time = Ret (t, e1) \<and> cond_rel 0 e1 [1, 2, 4] \<and>
    ProcessBegin_turn 1001 (Inr []) 1001 1001 e1 = Ret (Some (t, True), e2) \<and> running e2 4 9 \<and>
    bCond_timeWait_back t e2 = Ret (Return 0, e2) \<and> bMutex_unlock 0 e2 = Fail Abort \<and>
    bCond_signalAll 0 e2 = Ret e3 \<and> handed_out Q2 [0, 1] (unat (AddTask_i e2)) e3 [1, 2, 4]"
proof -
  let ?y = "(ex_routine False)\<lparr>rt_context := Some bContext_New\<rparr>"
  have run: "running ex_time 4 9"
    by (simp add: running_def ex_time_fields) (simp add: ex_loop_def ex_run_fields)
  have rt: "routines ex_time 4 = Some ?y" "\<exists>y. routines ex_time 9 = Some y \<and> rt_context y \<noteq> None \<and> \<not> (IsMain y \<and> IsProgress y)"
    by (simp_all add: ex_time_fields ex_loop_def ex_run_fields ex_routine_def)
  then obtain y where y: "routines ex_time 9 = Some y" "rt_context y \<noteq> None" "\<not> (IsMain y \<and> IsProgress y)" by blast
  have x: "\<not> IsProgress ?y" "rt_context ?y \<noteq> None" by (simp_all add: ex_routine_def)
  have mu: "lockCount (bMutex_New\<lparr>lockCount := 1\<rparr>) = 1" "waiters_rel (m_list (bMutex_New\<lparr>lockCount := 1\<rparr>)) []"
    by (simp_all add: bMutex_New_def waiters_rel_New)
  have c: "cond_rel 0 ex_time [1, 2]" using ex_waiters_rel by (simp add: cond_rel_def ex_time_fields)
  have ws: "\<exists>z. routines ex_time w = Some z \<and> \<not> IsProgress z" if "w \<in> set [1, 2]" for w
    using that by (auto simp: ex_time_fields ex_loop_def ex_run_fields ex_routine_def)
  have b: "getBucket (of_int 1) (wheel ex_time) = Ret 4"
    by (simp add: getBucket_def ex_time_fields word_less_nat_alt)
  have Q1: "ex_loop_Q(4 \<mapsto> [11, 16]) = ex_loop_Q(4 \<mapsto> the (ex_loop_Q 4) @ [item_brk ex_time])"
    by (simp add: ex_loop_Q_def ex_time_fields)
  have act: "map_option ActivetaskItems (scheds ex_time (cur_sch ex_time)) = Some ([0, 1] ! 0)"
    by (simp add: ex_time_fields) (simp add: ex_loop_def ex_sched_def)
  have Q: "ex_loop_Q ([0, 1] ! 0) = Some []" and cnt: "count_of ex_time ([0, 1] ! 0) = 0" and j: "0 < length [0 :: nat, 1]"
    by (simp_all add: ex_loop_Q_def count_of_def ex_time_fields) (simp add: ex_loop_def ex_list_def)
  have due: "[11, 16] = concat (map (\<lambda>l. the ((ex_loop_Q(4 \<mapsto> [11, 16])) l)) (due_buckets (wheel ex_time) 1001))"
    by (simp add: due_buckets_def target_pos_def ex_time_fields upt_rec)
  have sh: "share (length [0 :: nat, 1]) (unat (AddTask_i ex_time)) 0 [11, 16] = item_brk ex_time # []"
    by (simp add: ex_time_fields)
  have len: "length [11 :: nat, 16] < 2 ^ 32" by simp
  have ends: "scan_ends 1001 (wheel ex_time)" by (simp add: scan_ends_def target_pos_def ex_time_fields)
  have now: "1001 \<noteq> lastCheckTime (Epoll ex_time)" by (simp add: ex_time_fields ex_epoll_def)
  show ?thesis
    using timeWait_timeout_leaves_waiter [OF ex_time_ok run rt(1) x y ex_time_fields(17) mu c ws b Q1 act j Q cnt due sh len
        ends ex_time_fields(11) now, of 1001] by auto
qed

end
