(* ===== verification/Clock.thy ===== *)
theory Clock
  imports Prelude "HOL-Library.Signed_Division"
begin

text \<open>
  The clocks of \<open>b_routine_env.cc\<close>: what \<open>gettimeofday\<close>, \<open>clock_gettime\<close> and \<open>time\<close> deliver is an
  argument, the arithmetic on it is on 64-bit words.
\<close>

section \<open>Readings\<close>

record timeval =
  tv_sec :: int
  tv_usec :: int

record timespec =
  ts_sec :: int
  ts_nsec :: int

type_synonym i64 = "64 word"

definition getMicroseconds :: "timeval \<Rightarrow> i64" where
  "getMicroseconds tv = word_of_int (tv_sec tv) * 1000000 + word_of_int (tv_usec tv)"

definition getMilliseconds :: "timeval \<Rightarrow> i64" where
  "getMilliseconds tv = word_of_int (tv_sec tv) * 1000 + word_of_int (tv_usec tv sdiv 1000)"

definition getNanoseconds :: "timespec \<Rightarrow> i64" where
  "getNanoseconds ts = word_of_int (ts_sec ts) * 1000000000 + word_of_int (ts_nsec ts)"

definition getSeconds :: "int \<Rightarrow> i64" where
  "getSeconds currentTime = word_of_int currentTime"

text \<open>\<open>bRoutineEnv::Timer\<close>: the same numbers as \<open>unsigned long long\<close>.\<close>

definition getNow_S :: "int \<Rightarrow> u64" where "getNow_S t = getSeconds t"
definition getNow_Ms :: "timeval \<Rightarrow> u64" where "getNow_Ms tv = getMilliseconds tv"
definition getNow_Us :: "timeval \<Rightarrow> u64" where "getNow_Us tv = getMicroseconds tv"
definition getNow_Ns :: "timespec \<Rightarrow> u64" where "getNow_Ns ts = getNanoseconds ts"

section \<open>One instant\<close>

text \<open>
  An instant in nanoseconds since the epoch, and what the system calls deliver for it.
\<close>

definition timeval_at :: "nat \<Rightarrow> timeval" where
  "timeval_at n = \<lparr>tv_sec = int (n div 10 ^ 9), tv_usec = int (n mod 10 ^ 9 div 1000)\<rparr>"

definition timespec_at :: "nat \<Rightarrow> timespec" where
  "timespec_at n = \<lparr>ts_sec = int (n div 10 ^ 9), ts_nsec = int (n mod 10 ^ 9)\<rparr>"

lemma unat_small: "n < 2 ^ 64 \<Longrightarrow> unat (of_nat n :: u64) = n"
  by (simp add: unsigned_of_nat take_bit_nat_eq_self)

lemma sdiv_nonneg: "0 \<le> a \<Longrightarrow> 0 < b \<Longrightarrow> a sdiv b = (a div b :: int)"
  by (cases "a = 0") (simp_all add: signed_divide_int_def sgn_if)

text \<open>Whole units and the rest, in a finer unit.\<close>

lemma finer_unit: "n div (k * c) * c + n mod (k * c) div k = (n div k :: nat)"
  by (cases "k = 0") (simp_all add: div_mult2_eq mod_mult2_eq)

text \<open>Every clock counts the instant in its unit.\<close>

lemma clock_values:
  assumes "n < 2 ^ 63"
  shows "getNow_S (int (n div 10 ^ 9)) = of_nat (n div 10 ^ 9)"
    and "getNow_Ms (timeval_at n) = of_nat (n div 10 ^ 6)"
    and "getNow_Us (timeval_at n) = of_nat (n div 1000)"
    and "getNow_Ns (timespec_at n) = of_nat n"
proof -
  let ?s = "n div 10 ^ 9" and ?r = "n mod 10 ^ 9"
  show "getNow_S (int ?s) = of_nat ?s" by (simp add: getNow_S_def getSeconds_def)
  have "getNow_Ns (timespec_at n) = of_nat ?s * 10 ^ 9 + of_nat ?r"
    by (simp add: getNow_Ns_def getNanoseconds_def timespec_at_def)
  also have "\<dots> = of_nat (?s * 10 ^ 9 + ?r)" by (simp only: of_nat_add of_nat_mult of_nat_power of_nat_numeral)
  also have "?s * 10 ^ 9 + ?r = n" by (rule div_mult_mod_eq)
  finally show "getNow_Ns (timespec_at n) = of_nat n" .
  have "getNow_Us (timeval_at n) = of_nat (?s * 10 ^ 6 + ?r div 1000)"
    by (simp add: getNow_Us_def getMicroseconds_def timeval_at_def)
  also have "?s * 10 ^ 6 + ?r div 1000 = n div 1000" using finer_unit [of n 1000 "10 ^ 6"] by simp
  finally show "getNow_Us (timeval_at n) = of_nat (n div 1000)" .
  have "int (?r div 1000) sdiv 1000 = int (?r div 1000 div 1000)"
    by (simp add: sdiv_nonneg of_nat_div)
  then have "getNow_Ms (timeval_at n) = of_nat (?s * 1000 + ?r div 1000 div 1000)"
    by (simp add: getNow_Ms_def getMilliseconds_def timeval_at_def)
  also have "?s * 1000 + ?r div 1000 div 1000 = n div 10 ^ 6"
    using finer_unit [of n "10 ^ 6" 1000] by (simp add: div_mult2_eq [symmetric])
  finally show "getNow_Ms (timeval_at n) = of_nat (n div 10 ^ 6)" .
qed

section \<open>Properties\<close>

text \<open>
  C39: the four clocks agree. For every instant of the next two hundred years they read the same
  time, each in its unit and without overflow, and the difference of two readings that the timer
  wheel takes is the number of milliseconds between them; if the clock was set back in between it is
  that number below \<open>2 ^ 64\<close>.
\<close>

theorem clocks_agree:
  assumes "n < 2 ^ 63" and "m \<le> n"
  shows "unat (getNow_S (int (n div 10 ^ 9))) = unat (getNow_Ms (timeval_at n)) div 1000 \<and>
    unat (getNow_Ms (timeval_at n)) = unat (getNow_Us (timeval_at n)) div 1000 \<and>
    unat (getNow_Us (timeval_at n)) = unat (getNow_Ns (timespec_at n)) div 1000 \<and>
    unat (getNow_Ns (timespec_at n)) = n \<and>
    unat (getNow_Ms (timeval_at n) - getNow_Ms (timeval_at m)) = n div 10 ^ 6 - m div 10 ^ 6 \<and>
    (m div 10 ^ 6 < n div 10 ^ 6 \<longrightarrow>
      unat (getNow_Ms (timeval_at m) - getNow_Ms (timeval_at n)) = 2 ^ 64 - (n div 10 ^ 6 - m div 10 ^ 6))"
proof -
  let ?a = "n div 10 ^ 6" and ?b = "m div 10 ^ 6"
  note N = clock_values [OF assms(1)] and M = clock_values(2) [OF le_less_trans [OF assms(2,1)]]
  have le: "n div k < 2 ^ 64" for k using assms(1) by (rule le_less_trans [OF div_le_dividend less_trans]) simp
  have ab: "?b \<le> ?a" using assms(2) by (rule div_le_mono)
  have "(of_nat ?a :: u64) - of_nat ?b = of_nat (?a - ?b)" using ab by (simp add: of_nat_diff)
  then have fwd: "unat (getNow_Ms (timeval_at n) - getNow_Ms (timeval_at m)) = ?a - ?b"
    unfolding N(2) M using le [of "10 ^ 6"] by (simp only: unat_small less_imp_diff_less)
  have bwd: "unat (getNow_Ms (timeval_at m) - getNow_Ms (timeval_at n)) = 2 ^ 64 - (?a - ?b)" if "?b < ?a"
  proof -
    have d: "?a - ?b \<le> 2 ^ 64" using le [of "10 ^ 6"] by simp
    have "(of_nat (2 ^ 64 - (?a - ?b)) :: u64) = of_nat (2 ^ 64) - of_nat (?a - ?b)" by (rule of_nat_diff [OF d])
    also have "(of_nat (2 ^ 64) :: u64) = 0" by simp
    also have "0 - of_nat (?a - ?b) = (of_nat ?b :: u64) - of_nat ?a" using ab by (simp add: of_nat_diff)
    finally have e: "(of_nat ?b :: u64) - of_nat ?a = of_nat (2 ^ 64 - (?a - ?b))" ..
    show ?thesis unfolding N(2) M e by (rule unat_small) (use that in simp)
  qed
  have u: "unat (getNow_S (int (n div 10 ^ 9))) = n div 10 ^ 9" "unat (getNow_Ms (timeval_at n)) = n div 10 ^ 6"
    "unat (getNow_Us (timeval_at n)) = n div 1000" "unat (getNow_Ns (timespec_at n)) = n"
    unfolding N using le [of "10 ^ 9"] le [of "10 ^ 6"] le [of 1000] le [of 1] by (simp_all add: unat_small)
  show ?thesis using fwd bwd unfolding u by (simp add: div_mult2_eq [symmetric])
qed

theorem clocks_agree_witness:
  "unat (getNow_Ms (timeval_at (1500 * 10 ^ 15))) = 1500000000000 \<and>
   unat (getNow_Ms (timeval_at (10 ^ 6)) - getNow_Ms (timeval_at (3 * 10 ^ 6))) = 2 ^ 64 - 2"
proof -
  have "unat (getNow_Ns (timespec_at (1500 * 10 ^ 15))) = 1500 * 10 ^ 15"
    "unat (getNow_Us (timeval_at (1500 * 10 ^ 15))) = unat (getNow_Ns (timespec_at (1500 * 10 ^ 15))) div 1000"
    "unat (getNow_Ms (timeval_at (1500 * 10 ^ 15))) = unat (getNow_Us (timeval_at (1500 * 10 ^ 15))) div 1000"
    using clocks_agree [of "1500 * 10 ^ 15" 0] by simp_all
  moreover have "unat (getNow_Ms (timeval_at (10 ^ 6)) - getNow_Ms (timeval_at (3 * 10 ^ 6))) = 2 ^ 64 - 2"
    using clocks_agree [of "3 * 10 ^ 6" "10 ^ 6"] by simp
  ultimately show ?thesis by simp
qed

end
