(* ===== verification/Lazy_Init.thy ===== *)
theory Lazy_Init
  imports Routines
begin

text \<open>
  How the one environment of the process comes into being: \<open>bRoutineEnv::get\<close> and \<open>init\<close> of
  \<open>b_routine_env.cc\<close> as a system of threads that test, lock, test again, create and unlock, one
  access of shared memory at a time.
\<close>

section \<open>The environment of the process\<close>

type_synonym tid = nat

text \<open>What a thread calls: \<open>get\<close>, or \<open>init\<close> with a number of workers.\<close>

datatype env_call = Get | Init u32

definition defaultProcess :: u32 where "defaultProcess = 1"

definition wanted :: "env_call \<Rightarrow> u32" where
  "wanted c = (case c of Get \<Rightarrow> defaultProcess | Init n \<Rightarrow> n)"

text \<open>\<open>bRoutineInitProcessNumber\<close>: the call it makes.\<close>

definition bRoutineInitProcessNumber :: "int \<Rightarrow> env_call prog" where
  "bRoutineInitProcessNumber i = (if i \<le> 0 then Fail Abort else Ret (Init (word_of_int i)))"

text \<open>Where a thread is in \<open>get\<close> and \<open>init\<close>; \<open>Idle\<close> is a thread that calls neither.\<close>

datatype ipc =
    Idle
  | AtGet
  | AtCheck
  | AtLock
  | AtCheckLocked
  | AtInitialize
  | AtCreatMutProcessEnv
  | AtUnlock
  | AtReturn
  | Returned "nat option"

text \<open>
  The pointer, by the place of the environment among those made; the numbers of workers of the
  environments made; how many have had their first worker started; who holds the lock.
\<close>

record istate =
  env_ptr :: "nat option"
  made :: "u32 list"
  started :: nat
  init_lock :: "tid option"
  ipcs :: "tid \<Rightarrow> ipc"

text \<open>The threads \<open>t\<close> with \<open>c t = Some k\<close> call \<open>k\<close>, once each; the others do nothing.\<close>

definition iinit :: "(tid \<Rightarrow> env_call option) \<Rightarrow> istate" where
  "iinit c = \<lparr>env_ptr = None, made = [], started = 0, init_lock = None,
     ipcs = (\<lambda>t. case c t of None \<Rightarrow> Idle | Some Get \<Rightarrow> AtGet | Some (Init _) \<Rightarrow> AtCheck)\<rparr>"

abbreviation at :: "tid \<Rightarrow> ipc \<Rightarrow> istate \<Rightarrow> istate" where
  "at t p s \<equiv> s\<lparr>ipcs := (ipcs s)(t := p)\<rparr>"

definition inext :: "(tid \<Rightarrow> env_call option) \<Rightarrow> tid \<Rightarrow> istate \<Rightarrow> istate option" where
  "inext c t s = (case ipcs s t of
       Idle \<Rightarrow> None
     | AtGet \<Rightarrow> Some (at t (if env_ptr s = None then AtCheck else AtReturn) s)
     | AtCheck \<Rightarrow> Some (at t (if env_ptr s = None then AtLock else AtReturn) s)
     | AtLock \<Rightarrow> (if init_lock s = None then Some (at t AtCheckLocked (s\<lparr>init_lock := Some t\<rparr>)) else None)
     | AtCheckLocked \<Rightarrow> Some (at t (if env_ptr s = None then AtInitialize else AtUnlock) s)
     | AtInitialize \<Rightarrow> Some (at t AtCreatMutProcessEnv
         (s\<lparr>env_ptr := Some (length (made s)), made := made s @ [wanted (the (c t))]\<rparr>))
     | AtCreatMutProcessEnv \<Rightarrow> Some (at t AtUnlock (s\<lparr>started := started s + 1\<rparr>))
     | AtUnlock \<Rightarrow> Some (at t AtReturn (s\<lparr>init_lock := None\<rparr>))
     | AtReturn \<Rightarrow> Some (at t (Returned (env_ptr s)) s)
     | Returned _ \<Rightarrow> None)"

inductive ireach :: "(tid \<Rightarrow> env_call option) \<Rightarrow> istate \<Rightarrow> bool" for c where
  ireach_init: "ireach c (iinit c)"
| ireach_step: "ireach c s \<Longrightarrow> inext c t s = Some s' \<Longrightarrow> ireach c s'"

fun irun :: "(tid \<Rightarrow> env_call option) \<Rightarrow> tid list \<Rightarrow> istate \<Rightarrow> istate option" where
  "irun c [] s = Some s"
| "irun c (t # ts) s = (case inext c t s of None \<Rightarrow> None | Some s' \<Rightarrow> irun c ts s')"

lemma irun_reach: "irun c ts s = Some s' \<Longrightarrow> ireach c s \<Longrightarrow> ireach c s'"
  by (induction ts arbitrary: s) (auto split: option.splits intro: ireach_step)

section \<open>The invariant\<close>

definition holding :: "ipc set" where
  "holding = {AtCheckLocked, AtInitialize, AtCreatMutProcessEnv, AtUnlock}"

text \<open>
  The lock is held by the thread that is between \<open>lock\<close> and \<open>unlock\<close>; before the environment
  is made nobody is past its making, after it nobody is about to make one.
\<close>

definition unmade :: "istate \<Rightarrow> bool" where
  "unmade s \<longleftrightarrow> env_ptr s = None \<and> made s = [] \<and> started s = 0 \<and>
     (\<forall>t. ipcs s t \<notin> {AtCreatMutProcessEnv, AtUnlock, AtReturn} \<and> (\<forall>v. ipcs s t \<noteq> Returned v))"

definition starting :: "(tid \<Rightarrow> ipc) \<Rightarrow> bool" where
  "starting f \<longleftrightarrow> (\<exists>t. f t = AtCreatMutProcessEnv)"

definition made_once :: "(tid \<Rightarrow> env_call option) \<Rightarrow> istate \<Rightarrow> bool" where
  "made_once c s \<longleftrightarrow> env_ptr s = Some 0 \<and> (\<exists>u k. c u = Some k \<and> made s = [wanted k]) \<and> (\<forall>t. ipcs s t \<noteq> AtInitialize) \<and>
     (\<forall>t v. ipcs s t = Returned v \<longrightarrow> v = Some 0) \<and>
     started s = (if starting (ipcs s) then 0 else 1)"

definition iinv :: "(tid \<Rightarrow> env_call option) \<Rightarrow> istate \<Rightarrow> bool" where
  "iinv c s \<longleftrightarrow> (\<forall>t. ipcs s t = Idle \<longleftrightarrow> c t = None) \<and> (\<forall>t. ipcs s t \<in> holding \<longleftrightarrow> init_lock s = Some t) \<and> (unmade s \<or> made_once c s)"

lemma iinv_init: "iinv c (iinit c)"
  by (auto simp: iinv_def unmade_def iinit_def holding_def split: env_call.splits option.splits)

text \<open>One step, by what the thread does.\<close>

lemma inext_cases:
  assumes "inext c t s = Some s'"
  obtains (check) p where "ipcs s t \<in> {AtGet, AtCheck}" and "p \<in> {AtCheck, AtLock, AtReturn}"
      and "p = AtReturn \<longleftrightarrow> env_ptr s \<noteq> None" and "s' = at t p s"
    | (lock) "ipcs s t = AtLock" and "init_lock s = None" and "s' = at t AtCheckLocked (s\<lparr>init_lock := Some t\<rparr>)"
    | (check_locked) "ipcs s t = AtCheckLocked" and "s' = at t (if env_ptr s = None then AtInitialize else AtUnlock) s"
    | (initialize) "ipcs s t = AtInitialize"
        and "s' = at t AtCreatMutProcessEnv (s\<lparr>env_ptr := Some (length (made s)), made := made s @ [wanted (the (c t))]\<rparr>)"
    | (creat) "ipcs s t = AtCreatMutProcessEnv" and "s' = at t AtUnlock (s\<lparr>started := started s + 1\<rparr>)"
    | (unlock) "ipcs s t = AtUnlock" and "s' = at t AtReturn (s\<lparr>init_lock := None\<rparr>)"
    | (return) "ipcs s t = AtReturn" and "s' = at t (Returned (env_ptr s)) s"
proof (cases "ipcs s t")
  case AtGet
  then show thesis using assms by (intro check [of "if env_ptr s = None then AtCheck else AtReturn"]) (auto simp: inext_def)
next
  case AtCheck
  then show thesis using assms by (intro check [of "if env_ptr s = None then AtLock else AtReturn"]) (auto simp: inext_def)
next
  case AtLock
  then show thesis using assms by (intro lock) (auto simp: inext_def split: if_splits)
qed (use assms in \<open>auto simp: inext_def intro: check_locked initialize creat unlock return\<close>)

lemma holding_simps [simp]:
  "Idle \<notin> holding" "AtGet \<notin> holding" "AtCheck \<notin> holding" "AtLock \<notin> holding" "AtReturn \<notin> holding" "Returned v \<notin> holding"
  "AtCheckLocked \<in> holding" "AtInitialize \<in> holding" "AtCreatMutProcessEnv \<in> holding" "AtUnlock \<in> holding"
  by (simp_all add: holding_def)

lemma holder_unique: "iinv c s \<Longrightarrow> ipcs s t \<in> holding \<Longrightarrow> ipcs s u \<in> holding \<Longrightarrow> u = t"
  unfolding iinv_def by (metis option.inject)

lemma iinv_step:
  assumes inv: "iinv c s" and step: "inext c t s = Some s'"
  shows "iinv c s'"
proof -
  have lk: "\<And>u. ipcs s u \<in> holding \<longleftrightarrow> init_lock s = Some u" using inv by (simp add: iinv_def)
  have one: "\<And>u p. ipcs s t \<in> holding \<Longrightarrow> p \<in> holding \<Longrightarrow> u \<noteq> t \<Longrightarrow> ipcs s u \<noteq> p"
    using holder_unique [OF inv] by blast
  have locked: "ipcs s' u \<in> holding \<longleftrightarrow> init_lock s' = Some u" for u
    using step by (cases rule: inext_cases) (use lk [of u] lk [of t] in \<open>auto split: if_splits\<close>)
  have call: "\<And>u. ipcs s u = Idle \<longleftrightarrow> c u = None" using inv by (simp add: iinv_def)
  have idle: "ipcs s' u = Idle \<longleftrightarrow> c u = None" for u
    using step by (cases rule: inext_cases) (use call [of u] call [of t] in \<open>auto split: if_splits\<close>)
  have "unmade s \<or> made_once c s" using inv by (simp add: iinv_def)
  then have "unmade s' \<or> made_once c s'"
  proof
    assume before: "unmade s"
    from step show ?thesis
    proof (cases rule: inext_cases)
      case initialize
      have "ipcs s u \<noteq> AtInitialize" if "u \<noteq> t" for u using one [OF _ _ that] initialize(1) by simp
      moreover obtain k where "c t = Some k" using call [of t] initialize(1) by auto
      ultimately have "made_once c s'"
        using before initialize by (auto simp: unmade_def made_once_def starting_def intro: exI [of _ t])
      then show ?thesis ..
    qed (use before in \<open>auto simp: unmade_def split: if_splits\<close>)
  next
    assume after: "made_once c s"
    have other: "(\<exists>u. u \<noteq> t \<and> ipcs s u = AtCreatMutProcessEnv) \<longleftrightarrow> starting (ipcs s) \<and> ipcs s t \<noteq> AtCreatMutProcessEnv"
      using one [of AtCreatMutProcessEnv] unfolding starting_def by (metis holding_simps(9))
    have start: "starting (f(t := p)) \<longleftrightarrow> p = AtCreatMutProcessEnv \<or> (\<exists>u. u \<noteq> t \<and> f u = AtCreatMutProcessEnv)" for p f
      by (auto simp: starting_def)
    have own: "ipcs s t = AtCreatMutProcessEnv \<Longrightarrow> starting (ipcs s)" by (auto simp: starting_def)
    from step have "made_once c s'"
      by (cases rule: inext_cases) (use after other own in \<open>auto simp: made_once_def start split: if_splits\<close>)
    then show ?thesis ..
  qed
  with locked idle show ?thesis unfolding iinv_def by blast
qed

lemma iinv_reach: "ireach c s \<Longrightarrow> iinv c s"
  by (induction rule: ireach.induct) (auto intro: iinv_init iinv_step)

text \<open>Some thread can always go on while one has not returned.\<close>

lemma holder_steps: "ipcs s t \<in> holding \<Longrightarrow> \<exists>s'. inext c t s = Some s'"
  by (auto simp: holding_def inext_def)

lemma no_deadlock:
  assumes "iinv c s" and "c t \<noteq> None" and "\<forall>v. ipcs s t \<noteq> Returned v"
  shows "\<exists>u s'. inext c u s = Some s'"
proof (cases "ipcs s t = AtLock \<and> init_lock s \<noteq> None")
  case True
  then obtain u where "init_lock s = Some u" by blast
  then have "ipcs s u \<in> holding" using assms(1) by (simp add: iinv_def)
  then show ?thesis using holder_steps by blast
next
  case False
  moreover have "ipcs s t \<noteq> Idle" using assms(1,2) by (simp add: iinv_def)
  ultimately have "\<exists>s'. inext c t s = Some s'" using assms(3) by (cases "ipcs s t") (auto simp: inext_def)
  then show ?thesis by blast
qed

text \<open>How many steps a thread has left at most. Every step takes one of its thread's.\<close>

fun steps_left :: "ipc \<Rightarrow> nat" where
  "steps_left Idle = 0"
| "steps_left AtGet = 8"
| "steps_left AtCheck = 7"
| "steps_left AtLock = 6"
| "steps_left AtCheckLocked = 5"
| "steps_left AtInitialize = 4"
| "steps_left AtCreatMutProcessEnv = 3"
| "steps_left AtUnlock = 2"
| "steps_left AtReturn = 1"
| "steps_left (Returned _) = 0"

lemma steps_left_le: "steps_left p \<le> 8"
  by (cases p) simp_all

lemma inext_steps_left:
  assumes "inext c t s = Some s'"
  shows "steps_left (ipcs s' t) < steps_left (ipcs s t)" and "u \<noteq> t \<Longrightarrow> ipcs s' u = ipcs s u"
  using assms by (cases "ipcs s t"; auto simp: inext_def split: if_splits)+

lemma caller:
  assumes "iinv c s" and "inext c t s = Some s'"
  shows "c t \<noteq> None"
proof -
  have "ipcs s t \<noteq> Idle" using assms(2) by (auto simp: inext_def)
  then show ?thesis using assms(1) by (simp add: iinv_def)
qed

definition all_left :: "(tid \<Rightarrow> env_call option) \<Rightarrow> istate \<Rightarrow> nat" where
  "all_left c s = (\<Sum>t \<in> dom c. steps_left (ipcs s t))"

lemma all_left_step:
  assumes fin: "finite (dom c)" and inv: "iinv c s" and st: "inext c t s = Some s'"
  shows "all_left c s' < all_left c s"
proof -
  have t: "t \<in> dom c" using caller [OF inv st] by (rule domIff [THEN iffD2])
  have rest: "(\<Sum>u \<in> dom c - {t}. steps_left (ipcs s' u)) = (\<Sum>u \<in> dom c - {t}. steps_left (ipcs s u))"
    using inext_steps_left(2) [OF st] by (intro sum.cong) auto
  show ?thesis
    unfolding all_left_def sum.remove [OF fin t] rest using inext_steps_left(1) [OF st] by simp
qed

lemma all_left_run:
  assumes fin: "finite (dom c)"
  shows "iinv c s \<Longrightarrow> irun c ts s = Some s' \<Longrightarrow> length ts + all_left c s' \<le> all_left c s"
proof (induction ts arbitrary: s)
  case (Cons t ts)
  then obtain s1 where s1: "inext c t s = Some s1" "irun c ts s1 = Some s'" by (auto split: option.splits)
  have "length ts + all_left c s' \<le> all_left c s1"
    by (rule Cons.IH [OF iinv_step [OF Cons.prems(1) s1(1)] s1(2)])
  then show ?case using all_left_step [OF fin Cons.prems(1) s1(1)] by simp
qed simp

lemma all_left_le: "finite (dom c) \<Longrightarrow> all_left c s \<le> 8 * card (dom c)"
  unfolding all_left_def using sum_bounded_above [of "dom c" "\<lambda>t. steps_left (ipcs s t)" 8] steps_left_le
  by (simp add: mult.commute)

section \<open>Properties\<close>

text \<open>
  C7: there is one environment. Whatever threads call \<open>get\<close> and \<open>init\<close>, with whatever numbers and
  in whatever order their steps are taken, at most one environment is made, with the number that one
  of the calls asked for; every call that has returned has returned it; at most one thread is
  between \<open>lock\<close> and \<open>unlock\<close>; and as long as one of the calls has not returned some thread that
  called can go on. With finitely many calls no run has more than eight steps for each, so every
  run that goes on as long as it can ends with all calls returned.
\<close>

theorem one_environment:
  assumes "ireach c s"
  shows "length (made s) \<le> 1 \<and> (\<forall>n \<in> set (made s). \<exists>u k. c u = Some k \<and> n = wanted k) \<and>
    (\<forall>t v. ipcs s t = Returned v \<longrightarrow> v = Some 0 \<and> length (made s) = 1) \<and>
    (\<forall>t u. ipcs s t \<in> holding \<longrightarrow> ipcs s u \<in> holding \<longrightarrow> u = t) \<and>
    ((\<exists>t. c t \<noteq> None \<and> (\<forall>v. ipcs s t \<noteq> Returned v)) \<longrightarrow> (\<exists>u s'. c u \<noteq> None \<and> inext c u s = Some s')) \<and>
    (finite (dom c) \<longrightarrow> (\<forall>ts s'. irun c ts s = Some s' \<longrightarrow> length ts \<le> 8 * card (dom c)))"
proof -
  have inv: "iinv c s" by (rule iinv_reach [OF assms])
  have "\<forall>t u. ipcs s t \<in> holding \<longrightarrow> ipcs s u \<in> holding \<longrightarrow> u = t" using holder_unique [OF inv] by blast
  moreover have "(\<exists>t. c t \<noteq> None \<and> (\<forall>v. ipcs s t \<noteq> Returned v)) \<longrightarrow> (\<exists>u s'. c u \<noteq> None \<and> inext c u s = Some s')"
    using no_deadlock [OF inv] caller [OF inv] by metis
  moreover have "length (made s) \<le> 1 \<and> (\<forall>n \<in> set (made s). \<exists>u k. c u = Some k \<and> n = wanted k) \<and>
      (\<forall>t v. ipcs s t = Returned v \<longrightarrow> v = Some 0 \<and> length (made s) = 1)"
    using inv unfolding iinv_def unmade_def made_once_def by fastforce
  moreover have "length ts \<le> 8 * card (dom c)" if "finite (dom c)" "irun c ts s = Some s'" for ts s'
    using all_left_run [OF that(1) inv that(2)] all_left_le [OF that(1), of s] by linarith
  ultimately show ?thesis by blast
qed

text \<open>Two threads: one initialises for four workers, the other gets the environment.\<close>

definition ex_calls :: "tid \<Rightarrow> env_call option" where
  "ex_calls = [0 \<mapsto> Init 4, 1 \<mapsto> Get]"

lemma env_call_run:
  "irun ex_calls [0, 1, 0, 1, 0, 0] (iinit ex_calls) = Some \<lparr>env_ptr = Some 0, made = [4], started = 0, init_lock = Some 0,
     ipcs = (ipcs (iinit ex_calls))(0 := AtCreatMutProcessEnv, 1 := AtLock)\<rparr>"
  by (simp add: inext_def iinit_def ex_calls_def wanted_def fun_upd_twist)

theorem one_environment_witness:
  "\<exists>s. ireach ex_calls s \<and> made s = [4] \<and> length (made s) \<le> 1"
proof -
  obtain s where s: "irun ex_calls [0, 1, 0, 1, 0, 0] (iinit ex_calls) = Some s" "made s = [4]"
    using env_call_run by simp
  have r: "ireach ex_calls s" by (rule irun_reach [OF s(1) ireach_init])
  show ?thesis using one_environment [OF r] r s(2) by blast
qed

text \<open>
  C38: the environment is handed out before it is ready. The pointer is set before
  \<open>CreatMutProcessEnv\<close> runs, and \<open>get\<close> does not take the lock when it finds it set: a thread can
  return with the environment while no worker has been started on it.
\<close>

theorem environment_returned_early:
  "\<exists>s. ireach ex_calls s \<and> ipcs s 1 = Returned (Some 0) \<and> started s = 0 \<and> ipcs s 0 = AtCreatMutProcessEnv"
proof -
  have "irun ex_calls [0, 0, 0, 0, 1, 1] (iinit ex_calls) = Some \<lparr>env_ptr = Some 0, made = [4], started = 0,
      init_lock = Some 0, ipcs = (ipcs (iinit ex_calls))(0 := AtCreatMutProcessEnv, 1 := Returned (Some 0))\<rparr>"
    by (simp add: inext_def iinit_def ex_calls_def wanted_def fun_upd_twist)
  from irun_reach [OF this ireach_init] show ?thesis by force
qed

end
