(* ===== verification/Spec2Isabelle.thy ===== *)
theory Spec2Isabelle
  imports Ep_Timer Stacks Pools Distributor Routines Epoll_Env Mutex_Cond Hooks Poll Deal_Loop
    Event_Loop Poll_Wait Scheduler_Loop Cond_Wait Clock Lazy_Init
begin

text \<open>
  A verification library for bRoutine, a coroutine library for Linux on x86-64 (\<open>src/src\<close>).

  THE PROGRAM. Routines run on private stacks and are switched by a piece of assembly. Every worker
  thread has a scheduler, which takes task items from the worker's list and switches to the routine
  a task names; when the routine yields or waits, it switches back. A task distributor hands new
  tasks to the workers in turn, and idle workers steal. A routine waits by leaving a task on a timer
  wheel, with the waiters of a mutex or a condition, or with \<open>epoll\<close>; the event loop, which the
  scheduler runs once a millisecond, makes tasks runnable whose descriptors are ready or whose time
  is up. The system calls are hooked, so that a blocking call of a routine becomes a wait in \<open>poll\<close>.

  CONVENTIONS. A piece of C++ code is a function from the state to an outcome (theory \<open>Prelude\<close>):
  \<open>Ret\<close> of a result, \<open>Fail\<close> of an error (a null or dangling pointer, an index out of bounds, a
  mutex the caller holds, a division by zero, \<open>abort\<close>, a \<open>throw\<close>), or \<open>None\<close> for code that never
  returns. Pointers are options of addresses, memory is a map from addresses to records, and
  \<open>calloc\<close> hands out fresh addresses that are not used again, so that a pointer to freed memory
  stays invalid. Unsigned integers are words of their width. A routine's code that waits is cut at
  the switch: a definition ends with \<open>SwapContext\<close>, another one takes over when the routine is
  switched back to. Atomic operations and mutexes are modelled, each operation runs without
  interruption, except where a theory has a transition system of its own (\<open>Mutex_Cond\<close>,
  \<open>Lazy_Init\<close>). The state is one record that grows with the components: \<open>tmem\<close> (items and lists,
  \<open>Task_Items\<close>), \<open>rtenv\<close> (routines, schedulers, pools, distributor, \<open>Distributor\<close>), \<open>epenv\<close> (with
  the \<open>bEpoll\<close>, \<open>Epoll_Env\<close>), \<open>syncenv\<close> (mutexes and conditions, \<open>Mutex_Cond\<close>) and \<open>pollenv\<close>
  (messages of \<open>poll\<close>, the lock of \<open>Deal\<close>, the log of \<open>epoll_ctl\<close>, \<open>Poll\<close>); operations work on every
  extension of the record they need.

  THE THEORIES, in the order of the code.

  \<open>Prelude\<close>: outcomes and their bind; linked segments of a pointer heap, for forward and back links
  alike; the locale \<open>fifo_source\<close> of a queue that is emptied, with the loop \<open>drain\<close> proved once,
  \<open>fifo\<close> that extends it with pushing, and \<open>dealer\<close> of whoever takes work and passes it on. Each is
  interpreted on the code's own operations in the theory that models them.

  \<open>Task_Items\<close> (\<open>b_task.hh\<close>, \<open>b_task.cc\<close>): task items, lists with a mutex at each end, \<open>pushBack\<close>,
  \<open>popHead\<close>, \<open>pushAll2\<close>, removal, creation and deletion. \<open>links_ok h Q\<close> says that every list \<open>l\<close> of the
  heap is the doubly linked list of \<open>Q l\<close> with right owners, and \<open>tasks_ok\<close> that no mutex is held as
  well; every operation is described as a change of \<open>Q\<close>. \<open>ItemCount\<close> is followed separately
  (\<open>count_of\<close>), because the code does not keep it equal to the length.

  \<open>Ep_Timer\<close> (\<open>bEpTimer\<close> of \<open>b_epoll.cc\<close>): the wheel of buckets, \<open>getBucket\<close> and the scan
  \<open>NewMergeUpdate2Now\<close>, whose loop is a \<open>partial_function\<close> because it does not end when its target is
  the last bucket. The lemmas give what a scan collects, and when it returns.

  \<open>Stacks\<close> (\<open>b_stack.cc\<close>, \<open>b_context.cc\<close>, \<open>b_swap.S\<close>): stack memory between guard pages, the
  initial register image and the assembly of \<open>bSwap\<close>, instruction by instruction.

  \<open>Pools\<close> (\<open>List\<close>, \<open>bRoutinePool_t\<close>, \<open>bUnSharedStackPool_t\<close> of \<open>b_routine_env.h\<close> and
  \<open>b_routine_env.cc\<close>): the free lists and the pools of routines and stacks.

  \<open>Distributor\<close> (\<open>TaskDistributor_t\<close>, \<open>Try2stealTask\<close>, \<open>stealTaskRoutine\<close> of \<open>b_routine_env.cc\<close>): the
  environment, registration, the round robin of \<open>AddTask\<close>, stealing (\<open>stolen_of\<close> and \<open>left_of\<close> are
  what a thief takes and leaves of a list, whose first task goes to the back if it is a main
  routine's; \<open>steal_ok\<close> excludes only a list that is a main task alone). \<open>dist_ok e Q ls\<close>: the lists
  \<open>ls\<close> belong to the registered workers, in order. \<open>share n k j ts\<close> is what worker \<open>j\<close> of \<open>n\<close> gets of
  \<open>ts\<close> when the turn is at \<open>k\<close>. \<open>dealt ls ts e Q e' Q'\<close>: between the two states the
  tasks \<open>ts\<close> were handed to the workers in turn. \<open>env_frame\<close>: nothing changes but links, signals and
  the turn. Together they make \<open>AddTask\<close> a \<open>dealer\<close>.

  \<open>Routines\<close> (\<open>b_routine.cc\<close>, \<open>b_scheduler.cc\<close>, parts of \<open>b_routine_env.cc\<close>): routines are made,
  recycled, deleted, yield and resume; \<open>bScheduler::get\<close>, \<open>SwapContext\<close>; the dispatch part of
  \<open>ProcessBegin\<close>; initialisation.

  \<open>Epoll_Env\<close> (\<open>bEpoll\<close> of \<open>b_epoll.h\<close>): the record of the \<open>epoll\<close> instance and its construction.

  \<open>Mutex_Cond\<close> (\<open>b_mutex_cond.cc\<close>): the list of waiters, mutex and condition; the mutex as a
  transition system \<open>mstep\<close> of routines, which the operations on memory are shown to follow, with an
  invariant over all interleavings. Its steps are the exchange of \<open>lock\<close>, \<open>list->add\<close>, \<open>SwapContext\<close>,
  the exchange of \<open>unlock\<close>, \<open>pop\<close> and \<open>AddTask\<close>, each for itself, and the switch of a worker to the
  routine of a task, which clashes with a routine that has not switched away yet.

  \<open>Hooks\<close> (\<open>b_hook.cc\<close> but \<open>poll\<close>): the table of descriptors and the hooked calls. The system calls,
  which may fail, and the wait in \<open>poll\<close> are parameters; loops that may wait for ever are \<open>partial_function\<close>s.

  \<open>Poll\<close> (\<open>b_hook.cc\<close>, 120 to 282): the event masks, the message a polling routine leaves on its
  stack, its three callbacks, \<open>poll\<close> up to its switch (\<open>poll_begin\<close>) and after it (\<open>poll_end\<close>).

  \<open>Deal_Loop\<close> (\<open>bRoutineEnv::Deal\<close>): the two passes over the events and the drain of what is due, with
  a lemma for each (\<open>first_pass\<close>, \<open>second_pass\<close>, \<open>drain_expired\<close>).
  \<open>first_pre\<close>, \<open>second_pre\<close> and \<open>drain_pre\<close> say what each needs of what is still to come.

  \<open>Event_Loop\<close>: the invariant \<open>loop_ok\<close> of the event loop, \<open>Deal\<close> as a whole. \<open>Poll_Wait\<close>: what \<open>poll\<close>
  registers and what it returns. \<open>Scheduler_Loop\<close>: a turn of the loop of \<open>ProcessBegin\<close> from the check
  of the clock to the switch (\<open>ProcessBegin_turn\<close>) and from there to its end (\<open>ProcessBegin_back\<close>), and
  the theorem that puts \<open>poll\<close>, \<open>Deal\<close>, distributor, lists and switch together. \<open>Cond_Wait\<close>: \<open>timeWait\<close>
  from its call through that turn to its return.

  \<open>Clock\<close> (\<open>b_routine_env.cc\<close>, 260 to 302): the four clocks on 64-bit words.

  \<open>Lazy_Init\<close> (\<open>bRoutineEnv::get\<close>, \<open>init\<close>): the environment that is made on first use, as a system of
  threads, of which some call and the others do not.

  WHAT THE LEMMAS SHOW. Lists are queues, whichever mutexes an operation takes. A timeout is
  delivered by the first scan at or after its time, as long as the wheel has not come to its last
  bucket. A switch restores what the switch away saved. Tasks are handed out in turn and each once,
  however many events a message has; a routine whose descriptor is ready or whose time is up runs
  on the worker that gets its task; \<open>poll\<close> returns what the manual says. No waiter of a mutex is
  lost or duplicated, wherever \<open>lock\<close> and \<open>unlock\<close> are interrupted. One environment is made, and every
  call for it returns. The hooked \<open>write\<close> delivers
  exactly the prefix it reports. And a good number of theorems state where the code departs from
  what it means to do: the scan that never ends, the mutex with two holders, thieves that run past
  the registered workers, stacks that change their size in the pool; they are properties of kind
  error, and are listed with their source lines in the findings.

  BOUNDS. \<open>ItemCount\<close> is a 32-bit word, so the theorems that pop a list by its count ask for fewer
  than \<open>2 ^ 32\<close> items; events are counted in 64 bits and returned as an \<open>int\<close>, so the number of events
  of one call is below \<open>2 ^ 31\<close> where \<open>poll\<close> reports it (\<open>epoll_wait\<close> is asked for at most \<open>10 ^ 5\<close>).
  A wheel has fewer than \<open>2 ^ 63\<close> buckets, the clocks agree up to \<open>2 ^ 63\<close> nanoseconds. No definition
  uses fuel.

  NOT MODELLED. The loading of the system calls by \<open>dlsym\<close>, the macros of debug output and the
  measurement with the time stamp counter; the creation of threads, which is the list of the threads
  started; what \<open>epoll_wait\<close>, \<open>epoll_ctl\<close>, \<open>mmap\<close> and the other system calls do, whose results are
  arguments; relaxed memory and interruptions inside an operation outside of the two transition
  systems; destructors that only free memory.
\<close>

end
